theory Spec2Isabelle
  imports Main
begin

section \<open>Values\<close>

text \<open>
  The development embeds \<^verbatim>\<open>shaka.util.AbortableOperation\<close>
  (lib/util/abortable_operation.js, found in the second part of
  src/lib/media/gap_jumping_controller.js).  The class is written against JavaScript
  promises, so the embedding has a heap of promise objects, a job queue for promise
  reactions, and a heap of operations.  Objects are addresses into these heaps.
\<close>

type_synonym pid = nat
type_synonym oid = nat
type_synonym cid = nat
type_synonym aid = nat

text \<open>
  Modelled from the spec: \<^verbatim>\<open>shaka.util.Error\<close> and its enumerations
  \<^verbatim>\<open>Severity\<close>, \<^verbatim>\<open>Category\<close> and \<^verbatim>\<open>Code\<close> are not
  part of the sources at hand.  The spec describes the abort error as a fixed
  severity/category/code triple; only the three members that \<^verbatim>\<open>abortError()\<close>
  names are given constructors of their own, every other member is an index.
\<close>

datatype severity = CRITICAL | OtherSeverity nat
datatype category = PLAYER | OtherCategory nat
datatype code = OPERATION_ABORTED | OtherCode nat

datatype val =
    Undefined
  | Num int
  | ErrorObj severity category code
  | TypeError
  | PromiseRef pid
  | OpRef oid
  | Array "val list"

section \<open>Promises\<close>

datatype pstate = Pending | Fulfilled val | Rejected val

text \<open>
  A reaction is the pair of handlers that one call of \<^verbatim>\<open>then\<close> or
  \<^verbatim>\<open>catch\<close> registers.  The source registers five kinds:
  \<^item> \<open>ChainReact c\<close>: \<^verbatim>\<open>this.promise.then(makeCallback(true), makeCallback(false))\<close>
    of the call of \<^verbatim>\<open>chain\<close> with closure environment \<open>c\<close>;
  \<^item> \<open>CatchSilence d\<close>: \<^verbatim>\<open>p.catch(() => {})\<close>, with derived promise \<open>d\<close>;
  \<^item> \<open>ThenVoid d\<close>: \<^verbatim>\<open>p.then(() => {}, () => {})\<close>, with derived promise \<open>d\<close>;
  \<^item> \<open>AllElement a i d\<close>: the handlers \<^verbatim>\<open>Promise.all\<close> attaches to its
    \<open>i\<close>-th element, for the aggregate record \<open>a\<close>, with derived promise \<open>d\<close>;
  \<^item> \<open>Adopt t\<close>: the resolving functions of \<open>t\<close>, attached to a promise that
    \<open>t\<close> was resolved with.
\<close>

datatype reaction =
    ChainReact cid
  | CatchSilence pid
  | ThenVoid pid
  | AllElement aid nat pid
  | Adopt pid

datatype job =
    ReactionJob reaction pstate
  | ThenableJob pid pid

record promise_obj =
  pstate :: pstate
  resolved :: bool
  handled :: bool
  reactions :: "reaction list"

section \<open>Operations\<close>

datatype cbresult = Return val | Throw val

type_synonym callback = "val \<Rightarrow> cbresult"

text \<open>
  The abort callbacks that the source passes to the constructor, one constructor per
  lambda expression, and \<open>External q\<close> for a callback supplied by a caller of the
  constructor, which returns the promise \<open>q\<close>:
  \<^item> \<open>ResolveNow\<close>: \<^verbatim>\<open>() => Promise.resolve()\<close>;
  \<^item> \<open>CatchOf p\<close>: \<^verbatim>\<open>() => promise.catch(() => {})\<close>;
  \<^item> \<open>AllAbort os\<close>: \<^verbatim>\<open>() => Promise.all(operations.map((op) => op.abort()))\<close>;
  \<^item> \<open>ChainAbort c\<close>: \<^verbatim>\<open>() => abort()\<close>, reading the variable
    \<^verbatim>\<open>abort\<close> of the call of \<^verbatim>\<open>chain\<close> with environment \<open>c\<close>.
\<close>

datatype abortfn =
    ResolveNow
  | CatchOf pid
  | AllAbort "oid list"
  | ChainAbort cid
  | External pid

text \<open>
  The values that the variable \<^verbatim>\<open>abort\<close> of \<^verbatim>\<open>chain\<close> takes:
  \<^item> \<open>AbortThis\<close>: \<^verbatim>\<open>() => { newPromise.reject(abortError); return this.abort(); }\<close>;
  \<^item> \<open>AbortRet r\<close>: \<^verbatim>\<open>() => ret.abort()\<close>;
  \<^item> \<open>AwaitRet v\<close>: \<^verbatim>\<open>() => Promise.resolve(ret).then(() => {}, () => {})\<close>;
  \<^item> \<open>NoCleanup\<close>: \<^verbatim>\<open>() => Promise.resolve()\<close>.
\<close>

datatype delegate =
    AbortThis
  | AbortRet oid
  | AwaitRet val
  | NoCleanup

record operation =
  promise :: pid
  onAbort :: abortfn
  abortPromise :: "pid option"

record chain_link =
  thisOp :: oid
  newPromise :: pid
  onSuccess :: "callback option"
  onError :: "callback option"
  abortVar :: delegate

record all_env =
  vals :: "val list"
  remaining :: nat
  target :: pid

text \<open>
  Two kinds of calls are recorded, in order, as a spy would: every evaluation of
  \<^verbatim>\<open>this.onAbort_()\<close> in \<^verbatim>\<open>abort\<close>, and every evaluation of
  \<^verbatim>\<open>callback(value)\<close> in \<^verbatim>\<open>wrapChainCallback_\<close>.  A continuation is a
  function from its argument to what it returns or throws; whatever else it does, it does
  when it is called, and the record of the call stands for that.
\<close>

datatype call =
    OnAbortCalled oid
  | CallbackCalled cid bool val

record state =
  promises :: "pid \<Rightarrow> promise_obj"
  nextPromise :: nat
  ops :: "oid \<Rightarrow> operation"
  nextOp :: nat
  links :: "cid \<Rightarrow> chain_link"
  nextChain :: nat
  alls :: "aid \<Rightarrow> all_env"
  nextAll :: nat
  queue :: "job list"
  calls :: "call list"

section \<open>The promise machinery\<close>

definition new_promise :: "pstate \<Rightarrow> bool \<Rightarrow> state \<Rightarrow> pid \<times> state" where
  "new_promise st res s =
     (nextPromise s,
      s\<lparr>promises := (promises s)(nextPromise s :=
            \<lparr>pstate = st, resolved = res, handled = False, reactions = []\<rparr>),
        nextPromise := Suc (nextPromise s)\<rparr>)"

text \<open>
  Settling moves the registered reactions to the job queue.  A promise that is no longer
  pending is left as it is.
\<close>

definition settle :: "pid \<Rightarrow> pstate \<Rightarrow> state \<Rightarrow> state" where
  "settle p out s =
     (if pstate (promises s p) \<noteq> Pending then s
      else s\<lparr>promises := (promises s)(p := (promises s p)\<lparr>pstate := out, reactions := []\<rparr>),
             queue := queue s @ map (\<lambda>r. ReactionJob r out) (reactions (promises s p))\<rparr>)"

text \<open>
  Resolution: a promise resolved with itself is rejected, a promise resolved with another
  promise follows it through a job, any other value fulfils it.
\<close>

definition resolution :: "pid \<Rightarrow> val \<Rightarrow> state \<Rightarrow> state" where
  "resolution p v s =
     (case v of
        PromiseRef q \<Rightarrow>
          if q = p then settle p (Rejected TypeError) s
          else s\<lparr>queue := queue s @ [ThenableJob p q]\<rparr>
      | _ \<Rightarrow> settle p (Fulfilled v) s)"

definition mark_resolved :: "pid \<Rightarrow> state \<Rightarrow> state" where
  "mark_resolved p s = s\<lparr>promises := (promises s)(p := (promises s p)\<lparr>resolved := True\<rparr>)\<rparr>"

text \<open>
  Modelled from the spec: \<^verbatim>\<open>shaka.util.PublicPromise\<close> is not part of the
  sources at hand.  The spec's future settles exactly once; a public promise is a promise
  whose two resolving functions are its methods \<^verbatim>\<open>resolve\<close> and
  \<^verbatim>\<open>reject\<close>.  The first call of either one decides, every later call is
  ignored.
\<close>

definition resolve_fn :: "pid \<Rightarrow> val \<Rightarrow> state \<Rightarrow> state" where
  "resolve_fn p v s =
     (if resolved (promises s p) then s else resolution p v (mark_resolved p s))"

definition reject_fn :: "pid \<Rightarrow> val \<Rightarrow> state \<Rightarrow> state" where
  "reject_fn p e s =
     (if resolved (promises s p) then s else settle p (Rejected e) (mark_resolved p s))"

text \<open>
  \<^verbatim>\<open>p.then(...)\<close> with the handlers \<open>r\<close>: registered while \<open>p\<close> is
  pending, queued as a job otherwise.  The promise counts as handled from then on.
\<close>

definition then_reaction :: "pid \<Rightarrow> reaction \<Rightarrow> state \<Rightarrow> state" where
  "then_reaction p r s =
     (case pstate (promises s p) of
        Pending \<Rightarrow>
          s\<lparr>promises := (promises s)(p := (promises s p)
               \<lparr>handled := True, reactions := reactions (promises s p) @ [r]\<rparr>)\<rparr>
      | out \<Rightarrow>
          s\<lparr>promises := (promises s)(p := (promises s p)\<lparr>handled := True\<rparr>),
            queue := queue s @ [ReactionJob r out]\<rparr>)"

definition promise_resolve :: "val \<Rightarrow> state \<Rightarrow> pid \<times> state" where
  "promise_resolve v s =
     (case v of PromiseRef q \<Rightarrow> (q, s) | _ \<Rightarrow> new_promise (Fulfilled v) True s)"

definition promise_reject :: "val \<Rightarrow> state \<Rightarrow> pid \<times> state" where
  "promise_reject e s = new_promise (Rejected e) True s"

text \<open>\<^verbatim>\<open>p.catch(() => {})\<close> and \<^verbatim>\<open>p.then(() => {}, () => {})\<close>.\<close>

definition catch_silence :: "pid \<Rightarrow> state \<Rightarrow> pid \<times> state" where
  "catch_silence p s =
     (let (d, s1) = new_promise Pending False s in (d, then_reaction p (CatchSilence d) s1))"

definition then_void :: "pid \<Rightarrow> state \<Rightarrow> pid \<times> state" where
  "then_void p s =
     (let (d, s1) = new_promise Pending False s in (d, then_reaction p (ThenVoid d) s1))"

text \<open>
  \<^verbatim>\<open>Promise.all\<close>: the count of remaining elements starts at one, every element
  adds one and gets a slot of the value list, and the end of the loop takes the one away.
  Whoever brings the count to zero resolves the result with the value list.
\<close>

definition all_begin :: "state \<Rightarrow> (pid \<times> aid) \<times> state" where
  "all_begin s =
     (let (r, s1) = new_promise Pending False s
      in ((r, nextAll s1),
          s1\<lparr>alls := (alls s1)(nextAll s1 := \<lparr>vals = [], remaining = 1, target = r\<rparr>),
             nextAll := Suc (nextAll s1)\<rparr>))"

definition all_element :: "aid \<Rightarrow> nat \<Rightarrow> val \<Rightarrow> state \<Rightarrow> state" where
  "all_element a i x s =
     (let (q, s1) = promise_resolve x s;
          s2 = s1\<lparr>alls := (alls s1)(a := (alls s1 a)
                  \<lparr>vals := vals (alls s1 a) @ [Undefined],
                   remaining := Suc (remaining (alls s1 a))\<rparr>)\<rparr>;
          (d, s3) = new_promise Pending False s2
      in then_reaction q (AllElement a i d) s3)"

fun all_loop :: "aid \<Rightarrow> nat \<Rightarrow> val list \<Rightarrow> state \<Rightarrow> state" where
  "all_loop a i [] s = s"
| "all_loop a i (x # xs) s = all_loop a (Suc i) xs (all_element a i x s)"

definition all_countdown :: "aid \<Rightarrow> state \<Rightarrow> state" where
  "all_countdown a s =
     (let s1 = s\<lparr>alls := (alls s)(a := (alls s a)\<lparr>remaining := remaining (alls s a) - 1\<rparr>)\<rparr>
      in if remaining (alls s1 a) = 0
         then resolve_fn (target (alls s1 a)) (Array (vals (alls s1 a))) s1
         else s1)"

definition promise_all :: "val list \<Rightarrow> state \<Rightarrow> pid \<times> state" where
  "promise_all xs s =
     (let ((r, a), s1) = all_begin s in (r, all_countdown a (all_loop a 0 xs s1)))"

definition all_store :: "aid \<Rightarrow> nat \<Rightarrow> val \<Rightarrow> state \<Rightarrow> state" where
  "all_store a i v s = s\<lparr>alls := (alls s)(a := (alls s a)\<lparr>vals := (vals (alls s a))[i := v]\<rparr>)\<rparr>"

section \<open>AbortableOperation\<close>

definition new_operation :: "pid \<Rightarrow> abortfn \<Rightarrow> state \<Rightarrow> oid \<times> state" where
  "new_operation p f s =
     (nextOp s,
      s\<lparr>ops := (ops s)(nextOp s := \<lparr>promise = p, onAbort = f, abortPromise = None\<rparr>),
        nextOp := Suc (nextOp s)\<rparr>)"

definition abortError :: val where
  "abortError = ErrorObj CRITICAL PLAYER OPERATION_ABORTED"

definition failed :: "val \<Rightarrow> state \<Rightarrow> oid \<times> state" where
  "failed e s = (let (p, s1) = promise_reject e s in new_operation p ResolveNow s1)"

definition aborted :: "state \<Rightarrow> oid \<times> state" where
  "aborted s =
     (let (p, s1) = promise_reject abortError s;
          (d, s2) = catch_silence p s1
      in new_operation p ResolveNow s2)"

definition completed :: "val \<Rightarrow> state \<Rightarrow> oid \<times> state" where
  "completed v s = (let (p, s1) = promise_resolve v s in new_operation p ResolveNow s1)"

definition notAbortable :: "pid \<Rightarrow> state \<Rightarrow> oid \<times> state" where
  "notAbortable p s = new_operation p (CatchOf p) s"

definition all_op :: "oid list \<Rightarrow> state \<Rightarrow> oid \<times> state" where
  "all_op os s =
     (let (r, s1) = promise_all (map (\<lambda>a. PromiseRef (promise (ops s a))) os) s
      in new_operation r (AllAbort os) s1)"

text \<open>
  \<^verbatim>\<open>callback(value)\<close>.  The continuation is named by its chain and by the path,
  success or error, it was given for; the call is recorded under this name, with the
  argument.
\<close>

definition invoke :: "cid \<Rightarrow> bool \<Rightarrow> callback \<Rightarrow> val \<Rightarrow> state \<Rightarrow> cbresult \<times> state" where
  "invoke c isSuccess cb v s = (cb v, s\<lparr>calls := calls s @ [CallbackCalled c isSuccess v]\<rparr>)"

text \<open>
  \<^verbatim>\<open>wrapChainCallback_\<close>: the result is the next value of the variable
  \<^verbatim>\<open>abort\<close>.  Only an operation has both a \<^verbatim>\<open>promise\<close> and an
  \<^verbatim>\<open>abort\<close> property.  The first two arguments are the name of the continuation
  for the record of calls; the source has no counterpart for them.
\<close>

definition wrapChainCallback ::
  "cid \<Rightarrow> bool \<Rightarrow> callback \<Rightarrow> val \<Rightarrow> pid \<Rightarrow> state \<Rightarrow> delegate \<times> state" where
  "wrapChainCallback c isSuccess cb v np s =
     (let (res, s0) = invoke c isSuccess cb v s in
      case res of
        Return ret \<Rightarrow>
          (case ret of
             OpRef r \<Rightarrow> (AbortRet r, resolve_fn np (PromiseRef (promise (ops s0 r))) s0)
           | _ \<Rightarrow> (AwaitRet ret, resolve_fn np ret s0))
      | Throw ex \<Rightarrow> (NoCleanup, reject_fn np ex s0))"

text \<open>The function that \<^verbatim>\<open>makeCallback(isSuccess)\<close> returns, applied to a value.\<close>

definition makeCallback :: "cid \<Rightarrow> bool \<Rightarrow> val \<Rightarrow> state \<Rightarrow> state" where
  "makeCallback c isSuccess v s =
     (let env = links s c in
      if abortPromise (ops s (thisOp env)) \<noteq> None \<and> isSuccess
      then reject_fn (newPromise env) abortError s
      else
        (case (if isSuccess then onSuccess env else onError env) of
           None \<Rightarrow>
             (if isSuccess then resolve_fn (newPromise env) v s
              else reject_fn (newPromise env) v s)
         | Some cb \<Rightarrow>
             (let (d, s1) = wrapChainCallback c isSuccess cb v (newPromise env) s
              in s1\<lparr>links := (links s1)(c := (links s1 c)\<lparr>abortVar := d\<rparr>)\<rparr>)))"

definition chain_op ::
  "oid \<Rightarrow> callback option \<Rightarrow> callback option \<Rightarrow> state \<Rightarrow> oid \<times> state" where
  "chain_op a onS onE s =
     (let (np, s1) = new_promise Pending False s;
          (d, s2) = catch_silence np s1;
          c = nextChain s2;
          s3 = s2\<lparr>links := (links s2)(c :=
                    \<lparr>thisOp = a, newPromise = np, onSuccess = onS, onError = onE,
                     abortVar = AbortThis\<rparr>),
                  nextChain := Suc c\<rparr>;
          s4 = then_reaction (promise (ops s3 a)) (ChainReact c) s3
      in new_operation np (ChainAbort c) s4)"

text \<open>
  \<^verbatim>\<open>abort()\<close>.  An abort callback may call \<^verbatim>\<open>abort()\<close> of other
  operations, which call theirs; the first argument bounds the depth of these calls, and
  \<open>None\<close> is a call that does not return within the bound.
\<close>

fun abort :: "nat \<Rightarrow> oid \<Rightarrow> state \<Rightarrow> (pid \<times> state) option"
  and call_onAbort :: "nat \<Rightarrow> abortfn \<Rightarrow> state \<Rightarrow> (pid \<times> state) option"
  and abort_each :: "nat \<Rightarrow> oid list \<Rightarrow> state \<Rightarrow> (pid list \<times> state) option"
where
  "abort 0 a s = None"
| "abort (Suc n) a s =
     (case abortPromise (ops s a) of
        Some p \<Rightarrow> Some (p, s)
      | None \<Rightarrow>
          (case call_onAbort n (onAbort (ops s a)) (s\<lparr>calls := calls s @ [OnAbortCalled a]\<rparr>) of
             None \<Rightarrow> None
           | Some (p, s1) \<Rightarrow>
               Some (p, s1\<lparr>ops := (ops s1)(a := (ops s1 a)\<lparr>abortPromise := Some p\<rparr>)\<rparr>)))"
| "call_onAbort n ResolveNow s = Some (promise_resolve Undefined s)"
| "call_onAbort n (CatchOf p) s = Some (catch_silence p s)"
| "call_onAbort n (External q) s = Some (q, s)"
| "call_onAbort n (AllAbort os) s =
     (case abort_each n os s of
        None \<Rightarrow> None
      | Some (ps, s1) \<Rightarrow> Some (promise_all (map PromiseRef ps) s1))"
| "call_onAbort n (ChainAbort c) s =
     (case abortVar (links s c) of
        AbortThis \<Rightarrow>
          abort n (thisOp (links s c)) (reject_fn (newPromise (links s c)) abortError s)
      | AbortRet r \<Rightarrow> abort n r s
      | AwaitRet v \<Rightarrow> (let (q, s1) = promise_resolve v s in Some (then_void q s1))
      | NoCleanup \<Rightarrow> Some (promise_resolve Undefined s))"
| "abort_each n [] s = Some ([], s)"
| "abort_each n (a # as) s =
     (case abort n a s of
        None \<Rightarrow> None
      | Some (p, s1) \<Rightarrow>
          (case abort_each n as s1 of
             None \<Rightarrow> None
           | Some (ps, s2) \<Rightarrow> Some (p # ps, s2)))"

section \<open>Jobs and events\<close>

text \<open>
  The resolving functions that follow a promise are made anew for every adoption, so
  they are not stopped by the flag of the functions that started it.
\<close>

definition run_reaction :: "reaction \<Rightarrow> pstate \<Rightarrow> state \<Rightarrow> state" where
  "run_reaction r out s =
     (case r of
        ChainReact c \<Rightarrow>
          (case out of
             Fulfilled v \<Rightarrow> makeCallback c True v s
           | Rejected e \<Rightarrow> makeCallback c False e s
           | Pending \<Rightarrow> s)
      | CatchSilence d \<Rightarrow>
          (case out of
             Fulfilled v \<Rightarrow> resolve_fn d v s
           | _ \<Rightarrow> resolve_fn d Undefined s)
      | ThenVoid d \<Rightarrow> resolve_fn d Undefined s
      | AllElement a i d \<Rightarrow>
          (case out of
             Fulfilled v \<Rightarrow> resolve_fn d Undefined (all_countdown a (all_store a i v s))
           | Rejected e \<Rightarrow> resolve_fn d Undefined (reject_fn (target (alls s a)) e s)
           | Pending \<Rightarrow> s)
      | Adopt t \<Rightarrow>
          (case out of
             Fulfilled v \<Rightarrow> resolution t v s
           | Rejected e \<Rightarrow> settle t (Rejected e) s
           | Pending \<Rightarrow> s))"

definition run_job :: "job \<Rightarrow> state \<Rightarrow> state" where
  "run_job j s =
     (case j of
        ReactionJob r out \<Rightarrow> run_reaction r out s
      | ThenableJob t q \<Rightarrow> then_reaction q (Adopt t) s)"

text \<open>
  What can happen to a heap from outside the class: the next queued job runs, the owner
  of a promise resolves or rejects it, a caller aborts an operation.
\<close>

datatype event =
    Microtask
  | Resolve pid val
  | Reject pid val
  | Abort oid

definition step :: "nat \<Rightarrow> event \<Rightarrow> state \<Rightarrow> state option" where
  "step n e s =
     (case e of
        Microtask \<Rightarrow>
          (case queue s of [] \<Rightarrow> Some s | j # js \<Rightarrow> Some (run_job j (s\<lparr>queue := js\<rparr>)))
      | Resolve p v \<Rightarrow> Some (resolve_fn p v s)
      | Reject p e \<Rightarrow> Some (reject_fn p e s)
      | Abort a \<Rightarrow> map_option snd (abort n a s))"

fun run :: "nat \<Rightarrow> event list \<Rightarrow> state \<Rightarrow> state option" where
  "run n [] s = Some s"
| "run n (e # es) s = (case step n e s of None \<Rightarrow> None | Some s1 \<Rightarrow> run n es s1)"

section \<open>Notions used in the statements\<close>

text \<open>
  A promise that has left the pending state keeps its outcome: \<open>settled_kept s s1\<close> says
  so for every promise that exists in \<open>s\<close>, for a later state \<open>s1\<close>.
\<close>

definition settled_kept :: "state \<Rightarrow> state \<Rightarrow> bool" where
  "settled_kept s s1 \<longleftrightarrow>
     nextPromise s \<le> nextPromise s1 \<and>
     (\<forall>p<nextPromise s. pstate (promises s p) \<noteq> Pending \<longrightarrow>
        pstate (promises s1 p) = pstate (promises s p))"

text \<open>
  The calls that can still be made in a state: the abort callback of an operation whose
  \<^verbatim>\<open>abortPromise_\<close> is not set, an error continuation, and a success continuation
  of a chain whose upstream operation has no \<^verbatim>\<open>abortPromise_\<close>.
\<close>

definition permitted :: "state \<Rightarrow> call \<Rightarrow> bool" where
  "permitted s x =
     (case x of
        OnAbortCalled a \<Rightarrow> abortPromise (ops s a) = None
      | CallbackCalled c b v \<Rightarrow> b \<longrightarrow> abortPromise (ops s (thisOp (links s c))) = None)"

text \<open>
  What every event keeps: settled promises, the constructor arguments of operations and
  of links, an \<^verbatim>\<open>abortPromise_\<close> once it is set, and the calls made so far; the
  calls it adds were permitted before it.
\<close>

definition evolves :: "state \<Rightarrow> state \<Rightarrow> bool" where
  "evolves s s1 \<longleftrightarrow>
     settled_kept s s1 \<and> nextOp s1 = nextOp s \<and> nextChain s1 = nextChain s \<and>
     (\<forall>a. promise (ops s1 a) = promise (ops s a) \<and> onAbort (ops s1 a) = onAbort (ops s a) \<and>
          (abortPromise (ops s a) \<noteq> None \<longrightarrow> abortPromise (ops s1 a) = abortPromise (ops s a))) \<and>
     (\<forall>c. thisOp (links s1 c) = thisOp (links s c) \<and>
          newPromise (links s1 c) = newPromise (links s c) \<and>
          onSuccess (links s1 c) = onSuccess (links s c) \<and>
          onError (links s1 c) = onError (links s c)) \<and>
     (\<exists>cs. calls s1 = calls s @ cs \<and> (\<forall>x\<in>set cs. permitted s x))"

text \<open>
  A step that takes no job from the queue, seen from one promise \<open>p\<close>: the jobs
  queued before are still queued, and a reaction registered on \<open>p\<close> while it was
  pending is either still registered, or queued with the outcome of \<open>p\<close>.
\<close>

definition grows :: "pid \<Rightarrow> state \<Rightarrow> state \<Rightarrow> bool" where
  "grows p s s1 \<longleftrightarrow>
     settled_kept s s1 \<and> set (queue s) \<subseteq> set (queue s1) \<and>
     (pstate (promises s p) = Pending \<longrightarrow>
        (\<forall>r\<in>set (reactions (promises s p)).
           if pstate (promises s1 p) = Pending then r \<in> set (reactions (promises s1 p))
           else ReactionJob r (pstate (promises s1 p)) \<in> set (queue s1)))"

text \<open>
  The handlers \<open>r\<close> attached to the promise \<open>p\<close> have not run yet: they are
  registered on the pending \<open>p\<close>, or queued with the outcome of \<open>p\<close>.
\<close>

definition awaiting :: "reaction \<Rightarrow> pid \<Rightarrow> state \<Rightarrow> bool" where
  "awaiting r p s \<longleftrightarrow>
     (if pstate (promises s p) = Pending then r \<in> set (reactions (promises s p))
      else ReactionJob r (pstate (promises s p)) \<in> set (queue s))"

text \<open>
  The promises that running a reaction or a job may settle: the promise of the chain, the
  derived promise, the result of the aggregate, the adopting promise.
\<close>

definition touches :: "state \<Rightarrow> reaction \<Rightarrow> pid \<Rightarrow> bool" where
  "touches s r t =
     (case r of
        ChainReact c \<Rightarrow> newPromise (links s c) = t
      | CatchSilence d \<Rightarrow> d = t
      | ThenVoid d \<Rightarrow> d = t
      | AllElement a i d \<Rightarrow> d = t \<or> target (alls s a) = t
      | Adopt t' \<Rightarrow> t' = t)"

definition job_touches :: "state \<Rightarrow> job \<Rightarrow> pid \<Rightarrow> bool" where
  "job_touches s j t =
     (case j of ReactionJob r out \<Rightarrow> touches s r t | ThenableJob t' q \<Rightarrow> t' = t)"

definition job_of :: "reaction \<Rightarrow> job \<Rightarrow> bool" where
  "job_of r j = (case j of ReactionJob r' out \<Rightarrow> r' = r | ThenableJob t q \<Rightarrow> False)"

text \<open>
  \<open>reserved t r s\<close>: of all that is registered or queued in \<open>s\<close>, only the handlers
  \<open>r\<close> may settle the promise \<open>t\<close>.
\<close>

definition reserved :: "pid \<Rightarrow> reaction \<Rightarrow> state \<Rightarrow> bool" where
  "reserved t r s \<longleftrightarrow>
     (\<forall>q. \<forall>r'\<in>set (reactions (promises s q)). touches s r' t \<longrightarrow> r' = r) \<and>
     (\<forall>j\<in>set (queue s). job_touches s j t \<longrightarrow> job_of r j)"

text \<open>
  \<open>sole r p s\<close>: the handlers \<open>r\<close> are attached once, to the promise \<open>p\<close>, and
  have not run: they are registered once on the pending \<open>p\<close>, or queued once with the
  outcome of \<open>p\<close>.  \<open>gone r s\<close>: they are neither registered nor queued.
\<close>

definition sole :: "reaction \<Rightarrow> pid \<Rightarrow> state \<Rightarrow> bool" where
  "sole r p s \<longleftrightarrow>
     (\<forall>q. q \<noteq> p \<longrightarrow> r \<notin> set (reactions (promises s q))) \<and>
     (if pstate (promises s p) = Pending
      then filter (\<lambda>x. x = r) (reactions (promises s p)) = [r] \<and>
           filter (job_of r) (queue s) = []
      else r \<notin> set (reactions (promises s p)) \<and>
           filter (job_of r) (queue s) = [ReactionJob r (pstate (promises s p))])"

definition gone :: "reaction \<Rightarrow> state \<Rightarrow> bool" where
  "gone r s \<longleftrightarrow>
     (\<forall>q. r \<notin> set (reactions (promises s q))) \<and> filter (job_of r) (queue s) = []"

text \<open>
  Events that leave a chain to itself: jobs run and promises other than \<open>t\<close> are
  settled by their owners, and nothing is aborted.
\<close>

definition quiet :: "pid \<Rightarrow> event \<Rightarrow> bool" where
  "quiet t e =
     (case e of
        Microtask \<Rightarrow> True
      | Resolve p v \<Rightarrow> p \<noteq> t
      | Reject p v \<Rightarrow> p \<noteq> t
      | Abort a \<Rightarrow> False)"

text \<open>
  A heap without references to what does not exist yet: every registered or queued
  reaction names chains, aggregates and promises that have been created.
\<close>

definition in_scope :: "state \<Rightarrow> reaction \<Rightarrow> bool" where
  "in_scope s r =
     (case r of
        ChainReact c \<Rightarrow> c < nextChain s \<and> newPromise (links s c) < nextPromise s
      | CatchSilence d \<Rightarrow> d < nextPromise s
      | ThenVoid d \<Rightarrow> d < nextPromise s
      | AllElement a i d \<Rightarrow>
          a < nextAll s \<and> d < nextPromise s \<and> target (alls s a) < nextPromise s
      | Adopt t \<Rightarrow> t < nextPromise s)"

definition no_dangling :: "state \<Rightarrow> bool" where
  "no_dangling s \<longleftrightarrow>
     (\<forall>q. \<forall>r\<in>set (reactions (promises s q)). in_scope s r) \<and>
     (\<forall>j\<in>set (queue s).
        case j of ReactionJob r out \<Rightarrow> in_scope s r | ThenableJob t q \<Rightarrow> t < nextPromise s)"

text \<open>The calls made between two states.\<close>

definition new_calls :: "state \<Rightarrow> state \<Rightarrow> call list" where
  "new_calls s s1 = drop (length (calls s)) (calls s1)"

text \<open>
  A call of \<^verbatim>\<open>abort()\<close> is a step that, moreover, leaves the variables of all
  chains alone and calls abort callbacks only.
\<close>

definition abort_keeps :: "state \<Rightarrow> state \<Rightarrow> bool" where
  "abort_keeps s s1 \<longleftrightarrow>
     evolves s s1 \<and> links s1 = links s \<and>
     (\<forall>x\<in>set (new_calls s s1). \<exists>a. x = OnAbortCalled a)"

text \<open>
  The operations whose \<^verbatim>\<open>abort()\<close> an abort callback calls.  The calls of
  \<^verbatim>\<open>abort()\<close> return when no operation is reached from itself: \<open>abort_wf rk s\<close>
  says that every operation of \<open>s\<close> calls operations of \<open>s\<close> of smaller rank only,
  and reads the variable of a chain of \<open>s\<close>.
\<close>

definition callees_of :: "state \<Rightarrow> abortfn \<Rightarrow> oid list" where
  "callees_of s f =
     (case f of
        AllAbort os \<Rightarrow> os
      | ChainAbort c \<Rightarrow>
          (case abortVar (links s c) of
             AbortThis \<Rightarrow> [thisOp (links s c)]
           | AbortRet r \<Rightarrow> [r]
           | _ \<Rightarrow> [])
      | _ \<Rightarrow> [])"

definition chain_in_scope :: "state \<Rightarrow> abortfn \<Rightarrow> bool" where
  "chain_in_scope s f = (case f of ChainAbort c \<Rightarrow> c < nextChain s | _ \<Rightarrow> True)"

definition abort_wf :: "(oid \<Rightarrow> nat) \<Rightarrow> state \<Rightarrow> bool" where
  "abort_wf rk s \<longleftrightarrow>
     (\<forall>a<nextOp s. chain_in_scope s (onAbort (ops s a)) \<and>
        (\<forall>b\<in>set (callees_of s (onAbort (ops s a))). b < nextOp s \<and> rk b < rk a))"


text \<open>
  \<^verbatim>\<open>Promise.all\<close> seen from outside.  The aggregate \<open>a\<close> has the result \<open>r\<close>; its
  element number \<open>i\<close> is a promise \<open>ps ! i\<close> with the handlers \<open>elt a ds i\<close>, whose
  derived promise is \<open>ds ! i\<close>.  \<open>all_closed a ds r s\<close>: whatever is registered or
  queued in \<open>s\<close> and may settle \<open>r\<close>, or belongs to the aggregate \<open>a\<close>, is one of
  these handlers.
\<close>

definition outcome_value :: "pstate \<Rightarrow> val" where
  "outcome_value out = (case out of Fulfilled v \<Rightarrow> v | _ \<Rightarrow> Undefined)"

definition elt :: "aid \<Rightarrow> pid list \<Rightarrow> nat \<Rightarrow> reaction" where
  "elt a ds i = AllElement a i (ds ! i)"

definition of_all :: "aid \<Rightarrow> reaction \<Rightarrow> bool" where
  "of_all a x = (case x of AllElement a' i d \<Rightarrow> a' = a | _ \<Rightarrow> False)"

definition allowed :: "aid \<Rightarrow> pid list \<Rightarrow> pid \<Rightarrow> state \<Rightarrow> reaction \<Rightarrow> bool" where
  "allowed a ds r s x \<longleftrightarrow>
     (touches s x r \<or> of_all a x \<longrightarrow> (\<exists>i<length ds. x = elt a ds i))"

definition job_allowed :: "aid \<Rightarrow> pid list \<Rightarrow> pid \<Rightarrow> state \<Rightarrow> job \<Rightarrow> bool" where
  "job_allowed a ds r s j =
     (case j of ReactionJob x out \<Rightarrow> allowed a ds r s x | ThenableJob t q \<Rightarrow> t \<noteq> r)"

definition all_closed :: "aid \<Rightarrow> pid list \<Rightarrow> pid \<Rightarrow> state \<Rightarrow> bool" where
  "all_closed a ds r s \<longleftrightarrow>
     (\<forall>q. \<forall>x\<in>set (reactions (promises s q)). allowed a ds r s x) \<and>
     (\<forall>j\<in>set (queue s). job_allowed a ds r s j)"

text \<open>
  The state of an aggregate between two jobs.  \<open>F\<close> are the elements whose handlers ran
  with a value, \<open>E\<close> those whose handlers ran with a reason; the handlers of the others
  are attached and have not run.  The count is that of the elements outside \<open>F\<close>.  The
  result is rejected as one element of \<open>E\<close> is, or fulfilled with the value list when
  \<open>F\<close> is everything, or pending and not resolved.
\<close>

definition all_inv ::
  "aid \<Rightarrow> pid list \<Rightarrow> pid list \<Rightarrow> pid \<Rightarrow> nat set \<Rightarrow> nat set \<Rightarrow> state \<Rightarrow> bool" where
  "all_inv a ps ds r F E s \<longleftrightarrow>
     length ds = length ps \<and> F \<subseteq> {..<length ps} \<and> E \<subseteq> {..<length ps} \<and>
     F \<inter> E = {} \<and> r < nextPromise s \<and> (\<forall>p\<in>set ps. p < nextPromise s) \<and> (\<forall>d\<in>set ds. d \<noteq> r) \<and>
     target (alls s a) = r \<and> length (vals (alls s a)) = length ps \<and>
     remaining (alls s a) = length ps - card F \<and>
     all_closed a ds r s \<and>
     (\<forall>i<length ps.
        if i \<in> F then gone (elt a ds i) s \<and>
             pstate (promises s (ps ! i)) = Fulfilled (vals (alls s a) ! i)
        else if i \<in> E then gone (elt a ds i) s \<and>
             (\<exists>e. pstate (promises s (ps ! i)) = Rejected e)
        else sole (elt a ds i) (ps ! i) s) \<and>
     (if E \<noteq> {} then resolved (promises s r) \<and>
           (\<exists>i\<in>E. pstate (promises s r) = pstate (promises s (ps ! i)))
      else if F = {..<length ps} then resolved (promises s r) \<and>
           pstate (promises s r) = Fulfilled (Array (vals (alls s a)))
      else \<not> resolved (promises s r) \<and> pstate (promises s r) = Pending)"

text \<open>
  While \<^verbatim>\<open>Promise.all\<close> goes through its elements: the handlers of the elements it
  has seen are attached, none has run, the count is one more than their number, and the
  result is pending.
\<close>

definition all_building :: "aid \<Rightarrow> pid list \<Rightarrow> pid list \<Rightarrow> pid \<Rightarrow> state \<Rightarrow> bool" where
  "all_building a ps ds r s \<longleftrightarrow>
     length ds = length ps \<and> r < nextPromise s \<and> (\<forall>p\<in>set ps. p < nextPromise s) \<and>
     (\<forall>d\<in>set ds. d \<noteq> r) \<and>
     target (alls s a) = r \<and> length (vals (alls s a)) = length ps \<and>
     remaining (alls s a) = Suc (length ps) \<and>
     all_closed a ds r s \<and> (\<forall>i<length ps. sole (elt a ds i) (ps ! i) s) \<and>
     \<not> resolved (promises s r) \<and> pstate (promises s r) = Pending"


text \<open>
  The promises that abort callbacks return, and the abort promises kept by operations,
  exist.
\<close>

definition abort_scoped :: "state \<Rightarrow> bool" where
  "abort_scoped s \<longleftrightarrow>
     (\<forall>a q. onAbort (ops s a) = External q \<longrightarrow> q < nextPromise s) \<and>
     (\<forall>a p. abortPromise (ops s a) = Some p \<longrightarrow> p < nextPromise s)"

text \<open>The heap before anything is created, and two continuations for examples.\<close>

definition empty_heap :: state where
  "empty_heap =
     \<lparr>promises = (\<lambda>_. \<lparr>pstate = Pending, resolved = False, handled = False, reactions = []\<rparr>),
      nextPromise = 0,
      ops = (\<lambda>_. \<lparr>promise = 0, onAbort = ResolveNow, abortPromise = None\<rparr>),
      nextOp = 0,
      links = (\<lambda>_. \<lparr>thisOp = 0, newPromise = 0, onSuccess = None, onError = None,
                      abortVar = NoCleanup\<rparr>),
      nextChain = 0,
      alls = (\<lambda>_. \<lparr>vals = [], remaining = 0, target = 0\<rparr>),
      nextAll = 0,
      queue = [],
      calls = []\<rparr>"

definition double :: callback where
  "double v = (case v of Num n \<Rightarrow> Return (Num (n * 2)) | _ \<Rightarrow> Return Undefined)"

definition throwing :: "val \<Rightarrow> callback" where
  "throwing boom v = Throw boom"

text \<open>
  A heap with one operation, number 0: its promise, number 0, is pending, and its abort
  callback returns promise number 1, which is fulfilled.
\<close>

definition leaf_heap :: state where
  "leaf_heap =
     (let (p, s1) = new_promise Pending False empty_heap;
          (q, s2) = promise_resolve Undefined s1
      in snd (new_operation p (External q) s2))"

text \<open>A heap with one pending promise, number 0, and nothing else.\<close>

definition pending_heap :: state where
  "pending_heap = snd (new_promise Pending False empty_heap)"

text \<open>
  A heap with the operations \<^verbatim>\<open>completed(1)\<close>, number 0, and \<^verbatim>\<open>failed(err)\<close>,
  number 1, where \<open>err\<close> is the number 9.
\<close>

definition pair_heap :: state where
  "pair_heap = snd (failed (Num 9) (snd (completed (Num 1) empty_heap)))"

text \<open>Values that a promise adopts rather than takes, and values that are no objects.\<close>

definition thenable :: "val \<Rightarrow> bool" where
  "thenable v = (case v of PromiseRef q \<Rightarrow> True | _ \<Rightarrow> False)"

definition plain :: "val \<Rightarrow> bool" where
  "plain v = (case v of PromiseRef q \<Rightarrow> False | OpRef r \<Rightarrow> False | _ \<Rightarrow> True)"

section \<open>What each primitive leaves alone\<close>

lemma new_promise_simps [simp]:
  "fst (new_promise st res s) = nextPromise s"
  "nextPromise (snd (new_promise st res s)) = Suc (nextPromise s)"
  "promises (snd (new_promise st res s)) =
     (promises s)(nextPromise s := \<lparr>pstate = st, resolved = res, handled = False, reactions = []\<rparr>)"
  "ops (snd (new_promise st res s)) = ops s"
  "nextOp (snd (new_promise st res s)) = nextOp s"
  "links (snd (new_promise st res s)) = links s"
  "nextChain (snd (new_promise st res s)) = nextChain s"
  "alls (snd (new_promise st res s)) = alls s"
  "nextAll (snd (new_promise st res s)) = nextAll s"
  "queue (snd (new_promise st res s)) = queue s"
  "calls (snd (new_promise st res s)) = calls s"
  by (simp_all add: new_promise_def)

lemma settle_simps [simp]:
  "nextPromise (settle p out s) = nextPromise s"
  "ops (settle p out s) = ops s"
  "nextOp (settle p out s) = nextOp s"
  "links (settle p out s) = links s"
  "nextChain (settle p out s) = nextChain s"
  "alls (settle p out s) = alls s"
  "nextAll (settle p out s) = nextAll s"
  "calls (settle p out s) = calls s"
  by (simp_all add: settle_def)

lemma mark_resolved_simps [simp]:
  "pstate (promises (mark_resolved p s) q) = pstate (promises s q)"
  "reactions (promises (mark_resolved p s) q) = reactions (promises s q)"
  "handled (promises (mark_resolved p s) q) = handled (promises s q)"
  "resolved (promises (mark_resolved p s) q) = (q = p \<or> resolved (promises s q))"
  "nextPromise (mark_resolved p s) = nextPromise s"
  "ops (mark_resolved p s) = ops s"
  "nextOp (mark_resolved p s) = nextOp s"
  "links (mark_resolved p s) = links s"
  "nextChain (mark_resolved p s) = nextChain s"
  "alls (mark_resolved p s) = alls s"
  "nextAll (mark_resolved p s) = nextAll s"
  "queue (mark_resolved p s) = queue s"
  "calls (mark_resolved p s) = calls s"
  by (simp_all add: mark_resolved_def)

lemma resolution_simps [simp]:
  "nextPromise (resolution p v s) = nextPromise s"
  "ops (resolution p v s) = ops s"
  "nextOp (resolution p v s) = nextOp s"
  "links (resolution p v s) = links s"
  "nextChain (resolution p v s) = nextChain s"
  "alls (resolution p v s) = alls s"
  "nextAll (resolution p v s) = nextAll s"
  "calls (resolution p v s) = calls s"
  by (simp_all add: resolution_def split: val.split)

lemma resolve_fn_simps [simp]:
  "nextPromise (resolve_fn p v s) = nextPromise s"
  "ops (resolve_fn p v s) = ops s"
  "nextOp (resolve_fn p v s) = nextOp s"
  "links (resolve_fn p v s) = links s"
  "nextChain (resolve_fn p v s) = nextChain s"
  "alls (resolve_fn p v s) = alls s"
  "nextAll (resolve_fn p v s) = nextAll s"
  "calls (resolve_fn p v s) = calls s"
  by (simp_all add: resolve_fn_def)

lemma reject_fn_simps [simp]:
  "nextPromise (reject_fn p e s) = nextPromise s"
  "ops (reject_fn p e s) = ops s"
  "nextOp (reject_fn p e s) = nextOp s"
  "links (reject_fn p e s) = links s"
  "nextChain (reject_fn p e s) = nextChain s"
  "alls (reject_fn p e s) = alls s"
  "nextAll (reject_fn p e s) = nextAll s"
  "calls (reject_fn p e s) = calls s"
  by (simp_all add: reject_fn_def)

lemma then_reaction_simps [simp]:
  "pstate (promises (then_reaction p r s) q) = pstate (promises s q)"
  "resolved (promises (then_reaction p r s) q) = resolved (promises s q)"
  "nextPromise (then_reaction p r s) = nextPromise s"
  "ops (then_reaction p r s) = ops s"
  "nextOp (then_reaction p r s) = nextOp s"
  "links (then_reaction p r s) = links s"
  "nextChain (then_reaction p r s) = nextChain s"
  "alls (then_reaction p r s) = alls s"
  "nextAll (then_reaction p r s) = nextAll s"
  "calls (then_reaction p r s) = calls s"
  by (simp_all add: then_reaction_def split: pstate.split)

lemma promise_resolve_simps [simp]:
  "ops (snd (promise_resolve v s)) = ops s"
  "nextOp (snd (promise_resolve v s)) = nextOp s"
  "links (snd (promise_resolve v s)) = links s"
  "nextChain (snd (promise_resolve v s)) = nextChain s"
  "alls (snd (promise_resolve v s)) = alls s"
  "nextAll (snd (promise_resolve v s)) = nextAll s"
  "queue (snd (promise_resolve v s)) = queue s"
  "calls (snd (promise_resolve v s)) = calls s"
  by (simp_all add: promise_resolve_def split: val.split)

lemma promise_reject_simps [simp]:
  "fst (promise_reject e s) = nextPromise s"
  "nextPromise (snd (promise_reject e s)) = Suc (nextPromise s)"
  "ops (snd (promise_reject e s)) = ops s"
  "nextOp (snd (promise_reject e s)) = nextOp s"
  "links (snd (promise_reject e s)) = links s"
  "nextChain (snd (promise_reject e s)) = nextChain s"
  "alls (snd (promise_reject e s)) = alls s"
  "nextAll (snd (promise_reject e s)) = nextAll s"
  "queue (snd (promise_reject e s)) = queue s"
  "calls (snd (promise_reject e s)) = calls s"
  by (simp_all add: promise_reject_def)

lemma catch_silence_simps [simp]:
  "fst (catch_silence p s) = nextPromise s"
  "nextPromise (snd (catch_silence p s)) = Suc (nextPromise s)"
  "ops (snd (catch_silence p s)) = ops s"
  "nextOp (snd (catch_silence p s)) = nextOp s"
  "links (snd (catch_silence p s)) = links s"
  "nextChain (snd (catch_silence p s)) = nextChain s"
  "alls (snd (catch_silence p s)) = alls s"
  "nextAll (snd (catch_silence p s)) = nextAll s"
  "calls (snd (catch_silence p s)) = calls s"
  by (simp_all add: catch_silence_def case_prod_unfold)

lemma then_void_simps [simp]:
  "fst (then_void p s) = nextPromise s"
  "nextPromise (snd (then_void p s)) = Suc (nextPromise s)"
  "ops (snd (then_void p s)) = ops s"
  "nextOp (snd (then_void p s)) = nextOp s"
  "links (snd (then_void p s)) = links s"
  "nextChain (snd (then_void p s)) = nextChain s"
  "alls (snd (then_void p s)) = alls s"
  "nextAll (snd (then_void p s)) = nextAll s"
  "calls (snd (then_void p s)) = calls s"
  by (simp_all add: then_void_def case_prod_unfold)

lemma all_begin_simps [simp]:
  "fst (all_begin s) = (nextPromise s, nextAll s)"
  "nextPromise (snd (all_begin s)) = Suc (nextPromise s)"
  "nextAll (snd (all_begin s)) = Suc (nextAll s)"
  "ops (snd (all_begin s)) = ops s"
  "nextOp (snd (all_begin s)) = nextOp s"
  "links (snd (all_begin s)) = links s"
  "nextChain (snd (all_begin s)) = nextChain s"
  "queue (snd (all_begin s)) = queue s"
  "calls (snd (all_begin s)) = calls s"
  by (simp_all add: all_begin_def case_prod_unfold)

lemma all_element_simps [simp]:
  "ops (all_element a i x s) = ops s"
  "nextOp (all_element a i x s) = nextOp s"
  "links (all_element a i x s) = links s"
  "nextChain (all_element a i x s) = nextChain s"
  "nextAll (all_element a i x s) = nextAll s"
  "calls (all_element a i x s) = calls s"
  by (simp_all add: all_element_def case_prod_unfold Let_def)

lemma all_loop_simps [simp]:
  "ops (all_loop a i xs s) = ops s"
  "nextOp (all_loop a i xs s) = nextOp s"
  "links (all_loop a i xs s) = links s"
  "nextChain (all_loop a i xs s) = nextChain s"
  "nextAll (all_loop a i xs s) = nextAll s"
  "calls (all_loop a i xs s) = calls s"
  by (induction xs arbitrary: i s; simp)+

lemma all_countdown_simps [simp]:
  "nextPromise (all_countdown a s) = nextPromise s"
  "ops (all_countdown a s) = ops s"
  "nextOp (all_countdown a s) = nextOp s"
  "links (all_countdown a s) = links s"
  "nextChain (all_countdown a s) = nextChain s"
  "nextAll (all_countdown a s) = nextAll s"
  "calls (all_countdown a s) = calls s"
  by (simp_all add: all_countdown_def Let_def)

lemma all_store_simps [simp]:
  "promises (all_store a i v s) = promises s"
  "nextPromise (all_store a i v s) = nextPromise s"
  "ops (all_store a i v s) = ops s"
  "nextOp (all_store a i v s) = nextOp s"
  "links (all_store a i v s) = links s"
  "nextChain (all_store a i v s) = nextChain s"
  "nextAll (all_store a i v s) = nextAll s"
  "queue (all_store a i v s) = queue s"
  "calls (all_store a i v s) = calls s"
  by (simp_all add: all_store_def)

lemma promise_all_simps [simp]:
  "fst (promise_all xs s) = nextPromise s"
  "nextAll (snd (promise_all xs s)) = Suc (nextAll s)"
  "ops (snd (promise_all xs s)) = ops s"
  "nextOp (snd (promise_all xs s)) = nextOp s"
  "links (snd (promise_all xs s)) = links s"
  "nextChain (snd (promise_all xs s)) = nextChain s"
  "calls (snd (promise_all xs s)) = calls s"
  by (simp_all add: promise_all_def case_prod_unfold)

lemma new_operation_simps [simp]:
  "fst (new_operation p f s) = nextOp s"
  "nextOp (snd (new_operation p f s)) = Suc (nextOp s)"
  "promises (snd (new_operation p f s)) = promises s"
  "ops (snd (new_operation p f s)) =
     (ops s)(nextOp s := \<lparr>promise = p, onAbort = f, abortPromise = None\<rparr>)"
  "nextPromise (snd (new_operation p f s)) = nextPromise s"
  "links (snd (new_operation p f s)) = links s"
  "nextChain (snd (new_operation p f s)) = nextChain s"
  "alls (snd (new_operation p f s)) = alls s"
  "nextAll (snd (new_operation p f s)) = nextAll s"
  "queue (snd (new_operation p f s)) = queue s"
  "calls (snd (new_operation p f s)) = calls s"
  by (simp_all add: new_operation_def)

section \<open>Settled promises stay as they are\<close>

lemma settled_kept_refl [simp]: "settled_kept s s"
  by (simp add: settled_kept_def)

lemma settled_kept_trans [trans]:
  "settled_kept s s1 \<Longrightarrow> settled_kept s1 s2 \<Longrightarrow> settled_kept s s2"
  by (auto simp: settled_kept_def)

lemma settled_keptI:
  "nextPromise s1 = nextPromise s \<Longrightarrow> (\<And>p. pstate (promises s1 p) = pstate (promises s p)) \<Longrightarrow>
   settled_kept s s1"
  by (simp add: settled_kept_def)

lemma settled_kept_new_promise [simp]: "settled_kept s (snd (new_promise st res s))"
  by (simp add: settled_kept_def)

lemma settled_kept_settle [simp]: "settled_kept s (settle p out s)"
  by (simp add: settled_kept_def settle_def)

lemma settled_kept_mark_resolved [simp]: "settled_kept s (mark_resolved p s)"
  by (simp add: settled_kept_def)

lemma settled_kept_queue [simp]: "settled_kept s (s\<lparr>queue := q\<rparr>)"
  by (simp add: settled_kept_def)

lemma settled_kept_resolution [simp]: "settled_kept s (resolution p v s)"
  by (simp add: resolution_def split: val.split)

lemma settled_kept_resolve_fn [simp]: "settled_kept s (resolve_fn p v s)"
  unfolding resolve_fn_def
  by (simp add: settled_kept_trans [OF settled_kept_mark_resolved settled_kept_resolution])

lemma settled_kept_reject_fn [simp]: "settled_kept s (reject_fn p e s)"
  unfolding reject_fn_def
  by (simp add: settled_kept_trans [OF settled_kept_mark_resolved settled_kept_settle])

lemma settled_kept_then_reaction [simp]: "settled_kept s (then_reaction p r s)"
  by (simp add: settled_kept_def)

lemma settled_kept_promise_resolve [simp]: "settled_kept s (snd (promise_resolve v s))"
  by (simp add: promise_resolve_def split: val.split)

lemma settled_kept_promise_reject [simp]: "settled_kept s (snd (promise_reject e s))"
  by (simp add: promise_reject_def)

lemma settled_kept_catch_silence [simp]: "settled_kept s (snd (catch_silence p s))"
  unfolding catch_silence_def case_prod_unfold
  by (simp add: settled_kept_trans [OF settled_kept_new_promise settled_kept_then_reaction])

lemma settled_kept_then_void [simp]: "settled_kept s (snd (then_void p s))"
  unfolding then_void_def case_prod_unfold
  by (simp add: settled_kept_trans [OF settled_kept_new_promise settled_kept_then_reaction])

lemma settled_kept_all_begin [simp]: "settled_kept s (snd (all_begin s))"
  by (simp add: all_begin_def case_prod_unfold settled_kept_def)

lemma settled_kept_all_element [simp]: "settled_kept s (all_element a i x s)"
proof -
  let ?s1 = "snd (promise_resolve x s)"
  let ?s2 = "?s1\<lparr>alls := (alls ?s1)(a := (alls ?s1 a)
                  \<lparr>vals := vals (alls ?s1 a) @ [Undefined],
                   remaining := Suc (remaining (alls ?s1 a))\<rparr>)\<rparr>"
  let ?s3 = "snd (new_promise Pending False ?s2)"
  have "settled_kept s ?s1" by simp
  also have "settled_kept ?s1 ?s2" by (simp add: settled_kept_def)
  also have "settled_kept ?s2 ?s3" by (rule settled_kept_new_promise)
  also have "settled_kept ?s3 (then_reaction (fst (promise_resolve x s))
      (AllElement a i (fst (new_promise Pending False ?s2))) ?s3)"
    by (rule settled_kept_then_reaction)
  finally show ?thesis
    unfolding all_element_def case_prod_unfold Let_def .
qed

lemma settled_kept_all_loop [simp]: "settled_kept s (all_loop a i xs s)"
proof (induction xs arbitrary: i s)
  case Nil
  show ?case by simp
next
  case (Cons x xs)
  have "settled_kept s (all_element a i x s)" by simp
  also have "settled_kept \<dots> (all_loop a (Suc i) xs (all_element a i x s))" by (rule Cons.IH)
  finally show ?case by simp
qed

lemma settled_kept_all_countdown [simp]: "settled_kept s (all_countdown a s)"
proof -
  let ?s1 = "s\<lparr>alls := (alls s)(a := (alls s a)\<lparr>remaining := remaining (alls s a) - 1\<rparr>)\<rparr>"
  have 1: "settled_kept s ?s1" by (simp add: settled_kept_def)
  have "settled_kept s (resolve_fn (target (alls ?s1 a)) (Array (vals (alls ?s1 a))) ?s1)"
    by (rule settled_kept_trans [OF 1 settled_kept_resolve_fn])
  with 1 show ?thesis
    unfolding all_countdown_def Let_def by (simp only: if_split) simp
qed

lemma settled_kept_all_store [simp]: "settled_kept s (all_store a i v s)"
  by (simp add: settled_kept_def)

lemma settled_kept_promise_all [simp]: "settled_kept s (snd (promise_all xs s))"
proof -
  have "settled_kept s (snd (all_begin s))" by simp
  also have "settled_kept \<dots> (all_loop (nextAll s) 0 xs (snd (all_begin s)))" by simp
  also have "settled_kept \<dots> (all_countdown (nextAll s) (all_loop (nextAll s) 0 xs (snd (all_begin s))))"
    by simp
  finally show ?thesis by (simp add: promise_all_def case_prod_unfold)
qed

section \<open>What every step keeps\<close>

lemma evolves_refl [simp]: "evolves s s"
  by (simp add: evolves_def)

lemma permitted_mono: "evolves s s1 \<Longrightarrow> permitted s1 x \<Longrightarrow> permitted s x"
  by (cases x) (auto simp: evolves_def permitted_def)

lemma evolves_trans [trans]:
  assumes "evolves s s1" and "evolves s1 s2"
  shows "evolves s s2"
proof -
  from assms obtain cs1 cs2 where
    c1: "calls s1 = calls s @ cs1" "\<forall>x\<in>set cs1. permitted s x" and
    c2: "calls s2 = calls s1 @ cs2" "\<forall>x\<in>set cs2. permitted s1 x"
    by (auto simp: evolves_def)
  have "calls s2 = calls s @ (cs1 @ cs2)" using c1 c2 by simp
  moreover have "\<forall>x\<in>set (cs1 @ cs2). permitted s x"
    using c1 c2 permitted_mono [OF assms(1)] by auto
  ultimately have "\<exists>cs. calls s2 = calls s @ cs \<and> (\<forall>x\<in>set cs. permitted s x)"
    by blast
  moreover have "settled_kept s s2"
    using assms settled_kept_trans by (auto simp: evolves_def)
  moreover have "\<forall>a. abortPromise (ops s a) \<noteq> None \<longrightarrow> abortPromise (ops s2 a) = abortPromise (ops s a)"
    using assms by (simp add: evolves_def)
  ultimately show ?thesis
    using assms by (simp add: evolves_def)
qed

lemma evolves_promiseI:
  "settled_kept s s1 \<Longrightarrow> ops s1 = ops s \<Longrightarrow> nextOp s1 = nextOp s \<Longrightarrow>
   links s1 = links s \<Longrightarrow> nextChain s1 = nextChain s \<Longrightarrow> calls s1 = calls s \<Longrightarrow> evolves s s1"
  by (simp add: evolves_def)

lemma evolves_resolve_fn [simp]: "evolves s (resolve_fn p v s)"
  by (rule evolves_promiseI) simp_all

lemma evolves_reject_fn [simp]: "evolves s (reject_fn p e s)"
  by (rule evolves_promiseI) simp_all

lemma evolves_settle [simp]: "evolves s (settle p out s)"
  by (rule evolves_promiseI) simp_all

lemma evolves_resolution [simp]: "evolves s (resolution p v s)"
  by (rule evolves_promiseI) simp_all

lemma evolves_then_reaction [simp]: "evolves s (then_reaction p r s)"
  by (rule evolves_promiseI) simp_all

lemma evolves_promise_resolve [simp]: "evolves s (snd (promise_resolve v s))"
  by (rule evolves_promiseI) simp_all

lemma evolves_catch_silence [simp]: "evolves s (snd (catch_silence p s))"
  by (rule evolves_promiseI) simp_all

lemma evolves_then_void [simp]: "evolves s (snd (then_void p s))"
  by (rule evolves_promiseI) simp_all

lemma evolves_promise_all [simp]: "evolves s (snd (promise_all xs s))"
  by (rule evolves_promiseI) simp_all

lemma evolves_all_countdown [simp]: "evolves s (all_countdown a s)"
  by (rule evolves_promiseI) simp_all

lemma evolves_all_store [simp]: "evolves s (all_store a i v s)"
  by (rule evolves_promiseI) simp_all

lemma evolves_queue [simp]: "evolves s (s\<lparr>queue := q\<rparr>)"
  by (rule evolves_promiseI) (simp_all add: settled_kept_def)

lemma wrapChainCallback_unfold:
  "wrapChainCallback c b cb v np s =
     (case cb v of
        Return ret \<Rightarrow>
          (case ret of
             OpRef r \<Rightarrow>
               (AbortRet r,
                resolve_fn np (PromiseRef (promise (ops s r)))
                  (s\<lparr>calls := calls s @ [CallbackCalled c b v]\<rparr>))
           | _ \<Rightarrow> (AwaitRet ret, resolve_fn np ret (s\<lparr>calls := calls s @ [CallbackCalled c b v]\<rparr>)))
      | Throw ex \<Rightarrow> (NoCleanup, reject_fn np ex (s\<lparr>calls := calls s @ [CallbackCalled c b v]\<rparr>)))"
  by (simp add: wrapChainCallback_def invoke_def split: cbresult.split val.split)

lemma wrapChainCallback_simps [simp]:
  "nextPromise (snd (wrapChainCallback c b cb v np s)) = nextPromise s"
  "ops (snd (wrapChainCallback c b cb v np s)) = ops s"
  "nextOp (snd (wrapChainCallback c b cb v np s)) = nextOp s"
  "links (snd (wrapChainCallback c b cb v np s)) = links s"
  "nextChain (snd (wrapChainCallback c b cb v np s)) = nextChain s"
  "alls (snd (wrapChainCallback c b cb v np s)) = alls s"
  "nextAll (snd (wrapChainCallback c b cb v np s)) = nextAll s"
  "calls (snd (wrapChainCallback c b cb v np s)) = calls s @ [CallbackCalled c b v]"
  by (simp_all add: wrapChainCallback_unfold split: cbresult.split val.split)

lemma settled_kept_calls: "settled_kept s (s\<lparr>calls := X\<rparr>)"
  by (simp add: settled_kept_def)

lemma settled_kept_wrapChainCallback [simp]:
  "settled_kept s (snd (wrapChainCallback c b cb v np s))"
  by (simp add: wrapChainCallback_unfold
      settled_kept_trans [OF settled_kept_calls settled_kept_resolve_fn]
      settled_kept_trans [OF settled_kept_calls settled_kept_reject_fn]
      split: cbresult.split val.split)

lemma evolves_calls_append:
  "permitted s x \<Longrightarrow> evolves s (s\<lparr>calls := calls s @ [x]\<rparr>)"
  by (simp add: evolves_def settled_kept_def)

lemma evolves_abortVar:
  "evolves s (s\<lparr>links := (links s)(c := (links s c)\<lparr>abortVar := d\<rparr>)\<rparr>)"
  by (simp add: evolves_def settled_kept_def)

lemma evolves_makeCallback [simp]: "evolves s (makeCallback c b v s)"
proof -
  let ?env = "links s c"
  show ?thesis
  proof (cases "abortPromise (ops s (thisOp ?env)) \<noteq> None \<and> b")
    case True
    then show ?thesis by (simp add: makeCallback_def)
  next
    case guard: False
    show ?thesis
    proof (cases "if b then onSuccess ?env else onError ?env")
      case None
      with guard show ?thesis by (auto simp: makeCallback_def Let_def)
    next
      case (Some cb)
      let ?w = "wrapChainCallback c b cb v (newPromise ?env) s"
      have "permitted s (CallbackCalled c b v)"
        using guard by (auto simp: permitted_def)
      then have "evolves s (snd ?w)" by (simp add: evolves_def)
      also have "evolves (snd ?w) ((snd ?w)\<lparr>links := (links (snd ?w))(c := (links (snd ?w) c)\<lparr>abortVar := fst ?w\<rparr>)\<rparr>)"
        by (rule evolves_abortVar)
      finally show ?thesis
        using guard Some by (auto simp: makeCallback_def case_prod_unfold Let_def)
    qed
  qed
qed

lemma evolves_run_reaction [simp]: "evolves s (run_reaction r out s)"
proof (cases r)
  case (AllElement a i d)
  have 1: "evolves s (resolve_fn d Undefined (all_countdown a (all_store a i v s)))" for v
  proof -
    have "evolves s (all_store a i v s)" by simp
    also have "evolves \<dots> (all_countdown a (all_store a i v s))" by simp
    also have "evolves \<dots> (resolve_fn d Undefined (all_countdown a (all_store a i v s)))" by simp
    finally show ?thesis .
  qed
  have 2: "evolves s (resolve_fn d Undefined (reject_fn (target (alls s a)) e s))" for e
    by (rule evolves_trans [OF evolves_reject_fn evolves_resolve_fn])
  show ?thesis using 1 2 by (simp add: run_reaction_def AllElement split: pstate.split)
qed (simp_all add: run_reaction_def split: pstate.split)

lemma evolves_run_job [simp]: "evolves s (run_job j s)"
  by (simp add: run_job_def split: job.split)

section \<open>What a call of abort keeps\<close>

lemma new_calls_same [simp]: "calls s1 = calls s \<Longrightarrow> new_calls s s1 = []"
  by (simp add: new_calls_def)

lemma new_calls_append [simp]: "new_calls s (s1\<lparr>calls := calls s @ cs\<rparr>) = cs"
  by (simp add: new_calls_def)

lemma new_calls_trans:
  assumes "evolves s s1" and "evolves s1 s2"
  shows "new_calls s s2 = new_calls s s1 @ new_calls s1 s2"
proof -
  from assms obtain cs1 cs2 where "calls s1 = calls s @ cs1" "calls s2 = calls s1 @ cs2"
    by (auto simp: evolves_def)
  then show ?thesis by (simp add: new_calls_def)
qed

lemma new_calls_permitted: "evolves s s1 \<Longrightarrow> x \<in> set (new_calls s s1) \<Longrightarrow> permitted s x"
  by (auto simp: evolves_def new_calls_def)

lemma abort_keeps_refl [simp]: "abort_keeps s s"
  by (simp add: abort_keeps_def)

lemma abort_keeps_trans [trans]:
  assumes "abort_keeps s s1" and "abort_keeps s1 s2"
  shows "abort_keeps s s2"
proof -
  have "new_calls s s2 = new_calls s s1 @ new_calls s1 s2"
    using assms by (simp add: abort_keeps_def new_calls_trans)
  moreover have "evolves s s2"
    using assms evolves_trans by (auto simp: abort_keeps_def)
  ultimately show ?thesis
    using assms by (auto simp: abort_keeps_def)
qed

lemma abort_keepsI:
  "settled_kept s s1 \<Longrightarrow> ops s1 = ops s \<Longrightarrow> nextOp s1 = nextOp s \<Longrightarrow>
   links s1 = links s \<Longrightarrow> nextChain s1 = nextChain s \<Longrightarrow> calls s1 = calls s \<Longrightarrow>
   abort_keeps s s1"
  by (simp add: abort_keeps_def evolves_promiseI)

lemma abort_keeps_promise_resolve [simp]: "abort_keeps s (snd (promise_resolve v s))"
  by (rule abort_keepsI) simp_all

lemma abort_keeps_catch_silence [simp]: "abort_keeps s (snd (catch_silence p s))"
  by (rule abort_keepsI) simp_all

lemma abort_keeps_then_void [simp]: "abort_keeps s (snd (then_void p s))"
  by (rule abort_keepsI) simp_all

lemma abort_keeps_promise_all [simp]: "abort_keeps s (snd (promise_all xs s))"
  by (rule abort_keepsI) simp_all

lemma abort_keeps_reject_fn [simp]: "abort_keeps s (reject_fn p e s)"
  by (rule abort_keepsI) simp_all

lemma abort_keeps_call:
  "abortPromise (ops s a) = None \<Longrightarrow> abort_keeps s (s\<lparr>calls := calls s @ [OnAbortCalled a]\<rparr>)"
  by (simp add: abort_keeps_def evolves_calls_append permitted_def)

lemma evolves_set_abortPromise:
  assumes "abortPromise (ops s0 a) = None" and "evolves s0 s1"
  shows "evolves s0 (s1\<lparr>ops := (ops s1)(a := (ops s1 a)\<lparr>abortPromise := Some p\<rparr>)\<rparr>)"
  using assms by (auto simp: evolves_def settled_kept_def)

lemma abort_keeps_set_abortPromise:
  assumes "abortPromise (ops s0 a) = None" and "abort_keeps s0 s1"
  shows "abort_keeps s0 (s1\<lparr>ops := (ops s1)(a := (ops s1 a)\<lparr>abortPromise := Some p\<rparr>)\<rparr>)"
  using assms by (simp add: abort_keeps_def evolves_set_abortPromise new_calls_def)

lemma abort_frame:
  "abort n a s = Some (q, s1) \<Longrightarrow> abort_keeps s s1"
  "call_onAbort n f s = Some (q, s1) \<Longrightarrow> abort_keeps s s1"
  "abort_each n as s = Some (qs, s1) \<Longrightarrow> abort_keeps s s1"
proof (induction n a s and n f s and n as s arbitrary: q s1 and q s1 and qs s1
    rule: abort_call_onAbort_abort_each.induct)
  case (1 a s)
  then show ?case by simp
next
  case (2 n a s)
  show ?case
  proof (cases "abortPromise (ops s a)")
    case (Some p)
    with 2 show ?thesis by simp
  next
    case None
    let ?s0 = "s\<lparr>calls := calls s @ [OnAbortCalled a]\<rparr>"
    from "2.prems" None obtain s' where
      c: "call_onAbort n (onAbort (ops s a)) ?s0 = Some (q, s')" and
      s1: "s1 = s'\<lparr>ops := (ops s')(a := (ops s' a)\<lparr>abortPromise := Some q\<rparr>)\<rparr>"
      by (auto split: option.splits)
    have "abort_keeps s ?s0" using None by (rule abort_keeps_call)
    also have "abort_keeps ?s0 s'" using "2.IH" [OF None c] .
    finally show ?thesis
      unfolding s1 using None by (simp add: abort_keeps_set_abortPromise)
  qed
next
  case (3 n s)
  then show ?case by (auto simp: prod_eq_iff)
next
  case (4 n p s)
  then show ?case by (auto simp: prod_eq_iff)
next
  case (5 n q' s)
  then show ?case by simp
next
  case (6 n os s)
  from "6.prems" obtain ps s' where
    e: "abort_each n os s = Some (ps, s')" and
    s1: "s1 = snd (promise_all (map PromiseRef ps) s')"
    by (auto split: option.splits simp: prod_eq_iff)
  have "abort_keeps s s'" using "6.IH" [OF e] .
  also have "abort_keeps s' s1" unfolding s1 by simp
  finally show ?case .
next
  case (7 n c s)
  show ?case
  proof (cases "abortVar (links s c)")
    case AbortThis
    let ?s0 = "reject_fn (newPromise (links s c)) abortError s"
    from "7.prems" AbortThis have a: "abort n (thisOp (links s c)) ?s0 = Some (q, s1)" by simp
    have "abort_keeps s ?s0" by simp
    also have "abort_keeps ?s0 s1" using "7.IH"(1) [OF AbortThis a] .
    finally show ?thesis .
  next
    case (AbortRet r)
    with "7.IH"(2) [OF AbortRet] "7.prems" show ?thesis by simp
  next
    case (AwaitRet v)
    let ?s0 = "snd (promise_resolve v s)"
    from "7.prems" AwaitRet have s1: "s1 = snd (then_void (fst (promise_resolve v s)) ?s0)"
      by (auto simp: case_prod_unfold Let_def prod_eq_iff)
    have "abort_keeps s ?s0" by simp
    also have "abort_keeps ?s0 s1" unfolding s1 by simp
    finally show ?thesis .
  next
    case NoCleanup
    with "7.prems" show ?thesis by (auto simp: prod_eq_iff)
  qed
next
  case (8 n s)
  then show ?case by simp
next
  case (9 n a as s)
  from "9.prems" obtain p s' ps where
    a: "abort n a s = Some (p, s')" and
    e: "abort_each n as s' = Some (ps, s1)"
    by (auto split: option.splits)
  have "abort_keeps s s'" using "9.IH"(1) [OF a] .
  also have "abort_keeps s' s1" using "9.IH"(2) [OF a refl e] .
  finally show ?case .
qed

lemma abort_evolves: "abort n a s = Some (q, s1) \<Longrightarrow> evolves s s1"
  using abort_frame(1) by (simp add: abort_keeps_def)

lemma abort_caches:
  "abort n a s = Some (q, s1) \<Longrightarrow> abortPromise (ops s1 a) = Some q"
  by (cases n) (auto split: option.splits)

lemma evolves_step: "step n e s = Some s1 \<Longrightarrow> evolves s s1"
proof (cases e)
  case Microtask
  assume "step n e s = Some s1"
  with Microtask show ?thesis
    by (auto simp: step_def split: list.splits
        intro: evolves_trans [OF evolves_queue evolves_run_job])
next
  case (Abort a)
  assume "step n e s = Some s1"
  with Abort obtain q where "abort n a s = Some (q, s1)"
    by (auto simp: step_def)
  then show ?thesis by (rule abort_evolves)
qed (auto simp: step_def)

lemma evolves_run: "run n es s = Some s1 \<Longrightarrow> evolves s s1"
proof (induction es arbitrary: s)
  case Nil
  then show ?case by simp
next
  case (Cons e es)
  then obtain s' where "step n e s = Some s'" "run n es s' = Some s1"
    by (auto split: option.splits)
  then show ?case
    using Cons.IH evolves_step evolves_trans by blast
qed

section \<open>Calls of abort return on a well-founded heap\<close>

lemma callees_of_cong:
  "links s1 = links s \<Longrightarrow> callees_of s1 f = callees_of s f"
  by (simp add: callees_of_def split: abortfn.split delegate.split)

lemma chain_in_scope_cong:
  "nextChain s1 = nextChain s \<Longrightarrow> chain_in_scope s1 f = chain_in_scope s f"
  by (simp add: chain_in_scope_def split: abortfn.split)

lemma abort_wf_evolves:
  assumes "abort_wf rk s" and "evolves s s1" and "links s1 = links s"
  shows "abort_wf rk s1"
proof -
  have "nextOp s1 = nextOp s" "nextChain s1 = nextChain s" "\<And>a. onAbort (ops s1 a) = onAbort (ops s a)"
    using assms(2) by (simp_all add: evolves_def)
  then show ?thesis
    using assms(1)
    by (simp add: abort_wf_def chain_in_scope_cong [of s1 s] callees_of_cong [OF assms(3)])
qed

lemma evolves_calls: "evolves s s1 \<Longrightarrow> calls s1 = calls s @ new_calls s s1"
  by (auto simp: evolves_def new_calls_def)

lemma abort_returns:
  "abort_wf rk s \<Longrightarrow> a < nextOp s \<Longrightarrow> rk a < n \<Longrightarrow>
     \<exists>q s1. abort n a s = Some (q, s1) \<and>
       (\<forall>y. OnAbortCalled y \<in> set (new_calls s s1) \<longrightarrow> rk y \<le> rk a) \<and>
       (abortPromise (ops s a) = None \<longrightarrow> count_list (new_calls s s1) (OnAbortCalled a) = 1)"
  "abort_wf rk s \<Longrightarrow> \<forall>b\<in>set (callees_of s f). b < nextOp s \<and> rk b < n \<Longrightarrow>
     \<exists>q s1. call_onAbort n f s = Some (q, s1) \<and>
       (\<forall>y. OnAbortCalled y \<in> set (new_calls s s1) \<longrightarrow> (\<exists>b\<in>set (callees_of s f). rk y \<le> rk b))"
  "abort_wf rk s \<Longrightarrow> \<forall>b\<in>set as. b < nextOp s \<and> rk b < n \<Longrightarrow>
     \<exists>qs s1. abort_each n as s = Some (qs, s1) \<and>
       (\<forall>y. OnAbortCalled y \<in> set (new_calls s s1) \<longrightarrow> (\<exists>b\<in>set as. rk y \<le> rk b))"
proof (induction n a s and n f s and n as s rule: abort_call_onAbort_abort_each.induct)
  case (1 a s)
  then show ?case by simp
next
  case (2 n a s)
  show ?case
  proof (cases "abortPromise (ops s a)")
    case (Some p)
    then show ?thesis by simp
  next
    case None
    let ?s0 = "s\<lparr>calls := calls s @ [OnAbortCalled a]\<rparr>"
    let ?f = "onAbort (ops s a)"
    have ev0: "evolves s ?s0"
      using None by (simp add: evolves_calls_append permitted_def)
    have wf0: "abort_wf rk ?s0"
      using "2.prems"(1) ev0 by (rule abort_wf_evolves) simp
    have cs: "callees_of ?s0 ?f = callees_of s ?f" by (rule callees_of_cong) simp
    have below: "\<forall>b\<in>set (callees_of s ?f). b < nextOp s \<and> rk b < rk a"
      using "2.prems"(1,2) by (simp add: abort_wf_def)
    then have "\<forall>b\<in>set (callees_of ?s0 ?f). b < nextOp ?s0 \<and> rk b < n"
      using "2.prems"(3) by (auto simp: cs)
    from "2.IH" [OF None wf0 this] obtain q s' where
      c: "call_onAbort n ?f ?s0 = Some (q, s')" and
      b: "\<forall>y. OnAbortCalled y \<in> set (new_calls ?s0 s') \<longrightarrow> (\<exists>b\<in>set (callees_of s ?f). rk y \<le> rk b)"
      by (auto simp: cs)
    let ?s1 = "s'\<lparr>ops := (ops s')(a := (ops s' a)\<lparr>abortPromise := Some q\<rparr>)\<rparr>"
    have ev1: "evolves ?s0 s'" using abort_frame(2) [OF c] by (simp add: abort_keeps_def)
    have "new_calls s s' = new_calls s ?s0 @ new_calls ?s0 s'"
      using ev0 ev1 by (rule new_calls_trans)
    then have nc: "new_calls s ?s1 = OnAbortCalled a # new_calls ?s0 s'"
      by (simp add: new_calls_def)
    have lower: "\<forall>y. OnAbortCalled y \<in> set (new_calls ?s0 s') \<longrightarrow> rk y < rk a"
      using b below by fastforce
    then have "OnAbortCalled a \<notin> set (new_calls ?s0 s')" by auto
    then have "count_list (new_calls s ?s1) (OnAbortCalled a) = 1"
      by (simp add: nc)
    moreover have "\<forall>y. OnAbortCalled y \<in> set (new_calls s ?s1) \<longrightarrow> rk y \<le> rk a"
      using lower by (auto simp: nc dest: less_imp_le)
    moreover have "abort (Suc n) a s = Some (q, ?s1)"
      using None c by simp
    ultimately show ?thesis by blast
  qed
next
  case (3 n s)
  then show ?case by (simp add: prod_eq_iff)
next
  case (4 n p s)
  then show ?case by (simp add: prod_eq_iff)
next
  case (5 n q' s)
  then show ?case by simp
next
  case (6 n os s)
  from "6.prems" have "\<forall>b\<in>set os. b < nextOp s \<and> rk b < n"
    by (simp add: callees_of_def)
  from "6.IH" [OF "6.prems"(1) this] obtain qs s' where
    e: "abort_each n os s = Some (qs, s')" and
    b: "\<forall>y. OnAbortCalled y \<in> set (new_calls s s') \<longrightarrow> (\<exists>b\<in>set os. rk y \<le> rk b)"
    by blast
  let ?r = "promise_all (map PromiseRef qs) s'"
  have "new_calls s (snd ?r) = new_calls s s'" by (simp add: new_calls_def)
  moreover have "call_onAbort n (AllAbort os) s = Some (fst ?r, snd ?r)"
    using e by (simp add: prod_eq_iff)
  ultimately show ?case
    using b by (auto simp: callees_of_def)
next
  case (7 n c s)
  show ?case
  proof (cases "abortVar (links s c)")
    case AbortThis
    let ?s0 = "reject_fn (newPromise (links s c)) abortError s"
    let ?a = "thisOp (links s c)"
    have wf0: "abort_wf rk ?s0"
      using "7.prems"(1) by (rule abort_wf_evolves) simp_all
    have a: "?a < nextOp ?s0" "rk ?a < n"
      using "7.prems"(2) AbortThis by (simp_all add: callees_of_def)
    from "7.IH"(1) [OF AbortThis wf0 a] obtain q s1 where
      r: "abort n ?a ?s0 = Some (q, s1)" and
      b: "\<forall>y. OnAbortCalled y \<in> set (new_calls ?s0 s1) \<longrightarrow> rk y \<le> rk ?a"
      by blast
    have "new_calls s s1 = new_calls ?s0 s1" by (simp add: new_calls_def)
    with r b AbortThis show ?thesis by (simp add: callees_of_def)
  next
    case (AbortRet r)
    have a: "r < nextOp s" "rk r < n"
      using "7.prems"(2) AbortRet by (simp_all add: callees_of_def)
    from "7.IH"(2) [OF AbortRet "7.prems"(1) a] AbortRet show ?thesis
      by (auto simp: callees_of_def)
  next
    case (AwaitRet v)
    then show ?thesis by (simp add: case_prod_unfold prod_eq_iff Let_def)
  next
    case NoCleanup
    then show ?thesis by (simp add: prod_eq_iff)
  qed
next
  case (8 n s)
  then show ?case by simp
next
  case (9 n a as s)
  from "9.prems" have a: "a < nextOp s" "rk a < n" by simp_all
  from "9.IH"(1) [OF "9.prems"(1) a] obtain p s' where
    r: "abort n a s = Some (p, s')" and
    b: "\<forall>y. OnAbortCalled y \<in> set (new_calls s s') \<longrightarrow> rk y \<le> rk a"
    by blast
  have ev: "evolves s s'" "links s' = links s"
    using abort_frame(1) [OF r] by (simp_all add: abort_keeps_def)
  have wf': "abort_wf rk s'"
    using "9.prems"(1) ev by (rule abort_wf_evolves)
  have "\<forall>b\<in>set as. b < nextOp s' \<and> rk b < n"
    using "9.prems"(2) ev(1) by (simp add: evolves_def)
  from "9.IH"(2) [OF r refl wf' this] obtain ps s1 where
    e: "abort_each n as s' = Some (ps, s1)" and
    b2: "\<forall>y. OnAbortCalled y \<in> set (new_calls s' s1) \<longrightarrow> (\<exists>b\<in>set as. rk y \<le> rk b)"
    by blast
  have "evolves s' s1" using abort_frame(3) [OF e] by (simp add: abort_keeps_def)
  with ev(1) have "new_calls s s1 = new_calls s s' @ new_calls s' s1"
    by (rule new_calls_trans)
  moreover have "abort_each n (a # as) s = Some (p # ps, s1)"
    using r e by simp
  ultimately show ?case
    using b b2 by auto
qed

section \<open>chain\<close>

lemma then_reaction_promises:
  "handled (promises (then_reaction p r s) q) = (q = p \<or> handled (promises s q))"
  by (simp add: then_reaction_def split: pstate.split)

lemma catch_silence_pstate [simp]:
  "pstate (promises (snd (catch_silence p s)) q) =
     (if q = nextPromise s then Pending else pstate (promises s q))"
  "resolved (promises (snd (catch_silence p s)) q) =
     (if q = nextPromise s then False else resolved (promises s q))"
  by (simp_all add: catch_silence_def case_prod_unfold)

lemma chain_op_simps [simp]:
  "fst (chain_op a onS onE s) = nextOp s"
  "nextOp (snd (chain_op a onS onE s)) = Suc (nextOp s)"
  "nextChain (snd (chain_op a onS onE s)) = Suc (nextChain s)"
  "nextPromise (snd (chain_op a onS onE s)) = Suc (Suc (nextPromise s))"
  "calls (snd (chain_op a onS onE s)) = calls s"
  "ops (snd (chain_op a onS onE s)) =
     (ops s)(nextOp s := \<lparr>promise = nextPromise s, onAbort = ChainAbort (nextChain s),
                            abortPromise = None\<rparr>)"
  "links (snd (chain_op a onS onE s)) =
     (links s)(nextChain s := \<lparr>thisOp = a, newPromise = nextPromise s, onSuccess = onS,
                                 onError = onE, abortVar = AbortThis\<rparr>)"
  "pstate (promises (snd (chain_op a onS onE s)) (nextPromise s)) = Pending"
  "resolved (promises (snd (chain_op a onS onE s)) (nextPromise s)) = False"
  by (simp_all add: chain_op_def case_prod_unfold Let_def)

lemma settled_kept_chain_op: "settled_kept s (snd (chain_op a onS onE s))"
  by (simp add: chain_op_def case_prod_unfold Let_def settled_kept_def)

lemma reject_fn_pending:
  "pstate (promises s p) = Pending \<Longrightarrow> \<not> resolved (promises s p) \<Longrightarrow>
   pstate (promises (reject_fn p e s) p) = Rejected e"
  by (simp add: reject_fn_def settle_def mark_resolved_def)

lemma abort_wf_chain_op:
  assumes "abort_wf rk s" and "a < nextOp s"
  shows "abort_wf (rk(nextOp s := Suc (rk a))) (snd (chain_op a onS onE s))"
  unfolding abort_wf_def
proof (intro allI impI)
  fix x
  let ?s1 = "snd (chain_op a onS onE s)"
  let ?rk = "rk(nextOp s := Suc (rk a))"
  assume "x < nextOp ?s1"
  then consider "x = nextOp s" | "x < nextOp s" by fastforce
  then show "chain_in_scope ?s1 (onAbort (ops ?s1 x)) \<and>
        (\<forall>b\<in>set (callees_of ?s1 (onAbort (ops ?s1 x))). b < nextOp ?s1 \<and> ?rk b < ?rk x)"
  proof cases
    case 1
    with assms(2) show ?thesis
      by (simp add: chain_in_scope_def callees_of_def)
  next
    case 2
    with assms(1) have
      sc: "chain_in_scope s (onAbort (ops s x))" and
      cl: "\<forall>b\<in>set (callees_of s (onAbort (ops s x))). b < nextOp s \<and> rk b < rk x"
      by (simp_all add: abort_wf_def)
    have "callees_of ?s1 (onAbort (ops s x)) = callees_of s (onAbort (ops s x))"
      using sc by (auto simp: callees_of_def chain_in_scope_def split: abortfn.split delegate.split)
    with 2 sc cl show ?thesis
      by (auto simp: chain_in_scope_def split: abortfn.splits)
  qed
qed

lemma chain_abort_early:
  assumes wf: "abort_wf rk s" and a: "a < nextOp s"
    and fresh: "abortPromise (ops s a) = None"
    and ch: "chain_op a onS onE s = (b, s1)"
    and fuel: "Suc (rk a) < n"
  shows "\<exists>q s2. abort n b s1 = Some (q, s2) \<and>
           pstate (promises s2 (promise (ops s2 b))) = Rejected abortError \<and>
           count_list (new_calls s s2) (OnAbortCalled a) = 1 \<and>
           (\<forall>m es s3. run m es s2 = Some s3 \<longrightarrow>
              pstate (promises s3 (promise (ops s3 b))) = Rejected abortError \<and>
              count_list (new_calls s s3) (OnAbortCalled a) = 1 \<and>
              (\<forall>v. CallbackCalled (nextChain s) True v \<notin> set (new_calls s s3)))"
proof -
  let ?np = "nextPromise s" and ?c = "nextChain s"
  from ch have b: "b = nextOp s" and s1: "s1 = snd (chain_op a onS onE s)"
    by (simp_all add: prod_eq_iff)
  from fuel obtain k where n: "n = Suc k" and k: "rk a < k"
    by (cases n) auto
  let ?rk = "rk(nextOp s := Suc (rk a))"
  let ?s1c = "s1\<lparr>calls := calls s1 @ [OnAbortCalled b]\<rparr>"
  let ?s1r = "reject_fn ?np abortError ?s1c"
  have ab: "a \<noteq> b" using a b by simp
  have wf1: "abort_wf ?rk s1"
    unfolding s1 using wf a by (rule abort_wf_chain_op)
  have k1: "abort_keeps s1 ?s1c"
    by (rule abort_keeps_call) (simp add: s1 b)
  have k2: "abort_keeps ?s1c ?s1r" by simp
  have wfr: "abort_wf ?rk ?s1r"
    using abort_wf_evolves [OF abort_wf_evolves [OF wf1], of ?s1c ?s1r] k1 k2
    by (simp add: abort_keeps_def)
  have "a < nextOp ?s1r" "?rk a < k"
    using a k ab by (simp_all add: s1 b)
  from abort_returns(1) [OF wfr this] obtain q s' where
    r: "abort k a ?s1r = Some (q, s')" and
    cnt: "abortPromise (ops ?s1r a) = None \<longrightarrow>
            count_list (new_calls ?s1r s') (OnAbortCalled a) = 1"
    by (elim exE conjE)
  have "abortPromise (ops ?s1r a) = None"
    using fresh ab by (simp add: s1 b)
  with cnt have cnt1: "count_list (new_calls ?s1r s') (OnAbortCalled a) = 1" by simp
  let ?s2 = "s'\<lparr>ops := (ops s')(b := (ops s' b)\<lparr>abortPromise := Some q\<rparr>)\<rparr>"
  have k3: "abort_keeps ?s1r s'" using abort_frame(1) [OF r] .
  have res: "abort n b s1 = Some (q, ?s2)"
    using r by (simp add: n s1 b)
  have "pstate (promises ?s1r ?np) = Rejected abortError"
    by (rule reject_fn_pending) (simp_all add: s1)
  moreover have "?np < nextPromise ?s1r" by (simp add: s1)
  ultimately have np': "pstate (promises s' ?np) = Rejected abortError"
    using k3 by (auto simp: abort_keeps_def evolves_def settled_kept_def)
  have pb': "promise (ops s' b) = ?np"
    using k3 by (simp add: abort_keeps_def evolves_def s1 b)
  have np2: "pstate (promises ?s2 (promise (ops ?s2 b))) = Rejected abortError"
    using np' pb' by simp
  have nc1: "new_calls s ?s1r = [OnAbortCalled b]"
    by (simp add: new_calls_def s1)
  from k3 obtain cs where cs: "calls s' = calls ?s1r @ cs"
    by (auto simp: abort_keeps_def evolves_def)
  have ncr: "new_calls ?s1r s' = cs"
    by (simp add: new_calls_def cs)
  have nc2: "new_calls s ?s2 = OnAbortCalled b # cs"
    by (simp add: new_calls_def cs s1)
  have c2: "count_list (new_calls s ?s2) (OnAbortCalled a) = 1"
    using cnt1 ab by (simp add: nc2 ncr)
  have only: "\<forall>x\<in>set (new_calls s ?s2). \<exists>y. x = OnAbortCalled y"
    using k3 by (auto simp: nc2 abort_keeps_def ncr)
  have fa: "abortPromise (ops ?s2 a) = Some q"
    using abort_caches [OF r] ab by simp
  have la: "thisOp (links ?s2 ?c) = a"
    using k3 by (simp add: abort_keeps_def s1)
  have later: "pstate (promises s3 (promise (ops s3 b))) = Rejected abortError \<and>
      count_list (new_calls s s3) (OnAbortCalled a) = 1 \<and>
      (\<forall>v. CallbackCalled ?c True v \<notin> set (new_calls s s3))"
    if run: "run m es ?s2 = Some s3" for m es s3
  proof -
    have ev: "evolves ?s2 s3" using run by (rule evolves_run)
    have "?np < nextPromise ?s2"
      using k3 by (auto simp: abort_keeps_def evolves_def settled_kept_def s1)
    then have 1: "pstate (promises s3 (promise (ops s3 b))) = Rejected abortError"
      using ev np2 pb' by (auto simp: evolves_def settled_kept_def)
    from ev obtain ds where ds: "calls s3 = calls ?s2 @ ds"
      by (auto simp: evolves_def)
    have nc3: "new_calls s s3 = new_calls s ?s2 @ new_calls ?s2 s3"
      by (simp add: new_calls_def ds cs s1)
    have no_a: "OnAbortCalled a \<notin> set (new_calls ?s2 s3)"
      using new_calls_permitted [OF ev, of "OnAbortCalled a"] fa
      by (auto simp: permitted_def)
    have no_c: "CallbackCalled ?c True v \<notin> set (new_calls ?s2 s3)" for v
      using new_calls_permitted [OF ev, of "CallbackCalled ?c True v"] fa la
      by (auto simp: permitted_def)
    from no_a c2 have 2: "count_list (new_calls s s3) (OnAbortCalled a) = 1"
      by (simp add: nc3)
    from no_c only have 3: "\<forall>v. CallbackCalled ?c True v \<notin> set (new_calls s s3)"
      by (auto simp: nc3)
    from 1 2 3 show ?thesis by blast
  qed
  from res np2 c2 later show ?thesis by blast
qed

lemma leaf_heap_simps:
  "nextOp leaf_heap = 1" "nextPromise leaf_heap = 2" "nextChain leaf_heap = 0"
  "ops leaf_heap 0 = \<lparr>promise = 0, onAbort = External 1, abortPromise = None\<rparr>"
  "calls leaf_heap = []" "queue leaf_heap = []"
  by (simp_all add: leaf_heap_def empty_heap_def case_prod_unfold promise_resolve_def)

lemma abort_wf_leaf_heap: "abort_wf (\<lambda>_. 0) leaf_heap"
  by (simp add: abort_wf_def leaf_heap_simps chain_in_scope_def callees_of_def)

lemma run_without_abort:
  "\<forall>e\<in>set es. \<forall>a. e \<noteq> Abort a \<Longrightarrow> \<exists>s1. run n es s = Some s1"
proof (induction es arbitrary: s)
  case Nil
  show ?case by simp
next
  case (Cons e es)
  then have "\<exists>s'. step n e s = Some s'"
    by (cases e) (auto simp: step_def split: list.split)
  then obtain s' where "step n e s = Some s'" ..
  with Cons show ?case by simp
qed


lemma abort_cached:
  assumes "abort_wf rk s" and "a < nextOp s" and "abortPromise (ops s a) = None" and "rk a < n"
  shows "\<exists>q s1. abort n a s = Some (q, s1) \<and>
           count_list (new_calls s s1) (OnAbortCalled a) = 1 \<and>
           abortPromise (ops s1 a) = Some q \<and>
           (\<forall>q'. onAbort (ops s a) = External q' \<longrightarrow> q = q') \<and>
           (\<forall>m es s2. run m es s1 = Some s2 \<longrightarrow>
              count_list (new_calls s s2) (OnAbortCalled a) = 1 \<and>
              (\<forall>k j. abort_each (Suc k) (replicate j a) s2 = Some (replicate j q, s2)))"
proof -
  from abort_returns(1) [OF assms(1,2,4)] assms(3) obtain q s1 where
    r: "abort n a s = Some (q, s1)" and
    c: "count_list (new_calls s s1) (OnAbortCalled a) = 1"
    by auto
  have fl: "abortPromise (ops s1 a) = Some q" using r by (rule abort_caches)
  have ext: "q = q'" if "onAbort (ops s a) = External q'" for q'
    using r that assms(3) by (cases n) (auto split: option.splits)
  have e1: "evolves s s1" using r by (rule abort_evolves)
  have later: "count_list (new_calls s s2) (OnAbortCalled a) = 1 \<and>
      (\<forall>k j. abort_each (Suc k) (replicate j a) s2 = Some (replicate j q, s2))"
    if run: "run m es s1 = Some s2" for m es s2
  proof -
    have e2: "evolves s1 s2" using run by (rule evolves_run)
    have "OnAbortCalled a \<notin> set (new_calls s1 s2)"
      using new_calls_permitted [OF e2, of "OnAbortCalled a"] fl by (auto simp: permitted_def)
    then have 1: "count_list (new_calls s s2) (OnAbortCalled a) = 1"
      using c by (simp add: new_calls_trans [OF e1 e2])
    have fl2: "abortPromise (ops s2 a) = Some q"
      using e2 fl by (simp add: evolves_def)
    have "abort_each (Suc k) (replicate j a) s2 = Some (replicate j q, s2)" for k j
      by (induction j) (simp_all add: fl2)
    with 1 show ?thesis by simp
  qed
  from r c fl ext later show ?thesis by blast
qed

lemma aborted_effect:
  "pstate (promises (snd (aborted s)) (promise (ops (snd (aborted s)) (fst (aborted s))))) =
     Rejected (ErrorObj CRITICAL PLAYER OPERATION_ABORTED) \<and>
   handled (promises (snd (aborted s)) (promise (ops (snd (aborted s)) (fst (aborted s))))) \<and>
   (\<exists>q s2. abort (Suc n) (fst (aborted s)) (snd (aborted s)) = Some (q, s2) \<and>
      pstate (promises s2 q) = Fulfilled Undefined \<and>
      new_calls (snd (aborted s)) s2 = [OnAbortCalled (fst (aborted s))] \<and>
      queue s2 = queue (snd (aborted s)) \<and>
      promises s2 = (promises (snd (aborted s)))(q :=
        \<lparr>pstate = Fulfilled Undefined, resolved = True, handled = False, reactions = []\<rparr>))"
  by (simp add: aborted_def promise_reject_def promise_resolve_def catch_silence_def
      new_promise_def new_operation_def then_reaction_def abortError_def new_calls_def
      case_prod_unfold)

section \<open>Registered reactions are not lost\<close>

lemma grows_refl [simp]: "grows p s s"
  by (simp add: grows_def)

lemma grows_trans:
  assumes "grows p s s1" and "grows p s1 s2" and "p < nextPromise s"
  shows "grows p s s2"
proof -
  have k1: "settled_kept s s1" and k2: "settled_kept s1 s2"
    using assms by (simp_all add: grows_def)
  have p1: "p < nextPromise s1" using k1 assms(3) by (simp add: settled_kept_def)
  have keep: "pstate (promises s1 p) \<noteq> Pending \<Longrightarrow> pstate (promises s2 p) = pstate (promises s1 p)"
    using k2 p1 by (simp add: settled_kept_def)
  have q: "set (queue s) \<subseteq> set (queue s1)" "set (queue s1) \<subseteq> set (queue s2)"
    using assms by (simp_all add: grows_def)
  have "if pstate (promises s2 p) = Pending then r \<in> set (reactions (promises s2 p))
        else ReactionJob r (pstate (promises s2 p)) \<in> set (queue s2)"
    if pend: "pstate (promises s p) = Pending" and r: "r \<in> set (reactions (promises s p))" for r
  proof (cases "pstate (promises s1 p) = Pending")
    case True
    with assms(1) pend r have "r \<in> set (reactions (promises s1 p))"
      by (simp add: grows_def)
    with assms(2) True show ?thesis by (simp add: grows_def)
  next
    case False
    with assms(1) pend r have "ReactionJob r (pstate (promises s1 p)) \<in> set (queue s1)"
      by (auto simp: grows_def)
    with q(2) keep [OF False] False show ?thesis by auto
  qed
  with k1 k2 q show ?thesis
    unfolding grows_def using settled_kept_trans by blast
qed

lemma growsI:
  "settled_kept s s1 \<Longrightarrow> queue s1 = queue s \<Longrightarrow>
   pstate (promises s1 p) = pstate (promises s p) \<Longrightarrow>
   set (reactions (promises s p)) \<subseteq> set (reactions (promises s1 p)) \<Longrightarrow> grows p s s1"
  by (auto simp: grows_def)

lemma grows_new_promise [simp]:
  "p < nextPromise s \<Longrightarrow> grows p s (snd (new_promise st res s))"
  by (rule growsI) simp_all

lemma grows_settle [simp]: "out \<noteq> Pending \<Longrightarrow> grows p s (settle q out s)"
  unfolding grows_def
  by (intro conjI settled_kept_settle) (auto simp: settle_def)

lemma grows_mark_resolved [simp]: "grows p s (mark_resolved q s)"
  by (rule growsI) simp_all

lemma grows_enqueue [simp]: "grows p s (s\<lparr>queue := queue s @ js\<rparr>)"
  by (auto simp: grows_def settled_kept_def)

lemma grows_resolution [simp]: "grows p s (resolution q v s)"
  by (simp add: resolution_def split: val.split)

lemma grows_resolve_fn [simp]: "p < nextPromise s \<Longrightarrow> grows p s (resolve_fn q v s)"
  unfolding resolve_fn_def
  by (simp add: grows_trans [OF grows_mark_resolved grows_resolution])

lemma grows_reject_fn [simp]: "p < nextPromise s \<Longrightarrow> grows p s (reject_fn q e s)"
  unfolding reject_fn_def
  by (simp add: grows_trans [OF grows_mark_resolved grows_settle])

lemma grows_then_reaction [simp]: "grows p s (then_reaction q r s)"
  by (auto simp: grows_def then_reaction_def settled_kept_def split: pstate.split)

lemma grows_promise_resolve [simp]:
  "p < nextPromise s \<Longrightarrow> grows p s (snd (promise_resolve v s))"
  by (simp add: promise_resolve_def split: val.split)

lemma grows_catch_silence [simp]:
  "p < nextPromise s \<Longrightarrow> grows p s (snd (catch_silence q s))"
  unfolding catch_silence_def case_prod_unfold
  by (simp add: grows_trans [OF grows_new_promise grows_then_reaction])

lemma grows_then_void [simp]:
  "p < nextPromise s \<Longrightarrow> grows p s (snd (then_void q s))"
  unfolding then_void_def case_prod_unfold
  by (simp add: grows_trans [OF grows_new_promise grows_then_reaction])

lemma grows_other:
  "promises s1 = promises s \<Longrightarrow> nextPromise s1 = nextPromise s \<Longrightarrow> queue s1 = queue s \<Longrightarrow>
   grows p s s1"
  by (simp add: grows_def settled_kept_def)

lemma all_begin_promises [simp]:
  "promises (snd (all_begin s)) =
     (promises s)(nextPromise s := \<lparr>pstate = Pending, resolved = False, handled = False, reactions = []\<rparr>)"
  by (simp add: all_begin_def case_prod_unfold)

lemma grows_all_begin [simp]: "p < nextPromise s \<Longrightarrow> grows p s (snd (all_begin s))"
  by (rule growsI) simp_all

lemma grows_all_element [simp]:
  assumes "p < nextPromise s"
  shows "grows p s (all_element a i x s)"
proof -
  let ?s1 = "snd (promise_resolve x s)"
  let ?s2 = "?s1\<lparr>alls := (alls ?s1)(a := (alls ?s1 a)
                  \<lparr>vals := vals (alls ?s1 a) @ [Undefined],
                   remaining := Suc (remaining (alls ?s1 a))\<rparr>)\<rparr>"
  let ?s3 = "snd (new_promise Pending False ?s2)"
  let ?s4 = "then_reaction (fst (promise_resolve x s))
      (AllElement a i (fst (new_promise Pending False ?s2))) ?s3"
  have 1: "grows p s ?s1" using assms by simp
  have p1: "p < nextPromise ?s1"
    using 1 assms by (simp add: grows_def settled_kept_def)
  have 2: "grows p ?s1 ?s2" by (rule grows_other) simp_all
  have 3: "grows p ?s2 ?s3" using p1 by simp
  have 4: "grows p ?s3 ?s4" by simp
  have "grows p s ?s4"
    using grows_trans [OF grows_trans [OF grows_trans [OF 1 2 assms] 3 assms] 4 assms] .
  then show ?thesis
    unfolding all_element_def case_prod_unfold Let_def .
qed

lemma grows_next: "grows p s s1 \<Longrightarrow> p < nextPromise s \<Longrightarrow> p < nextPromise s1"
  by (simp add: grows_def settled_kept_def)

lemma grows_all_loop [simp]: "p < nextPromise s \<Longrightarrow> grows p s (all_loop a i xs s)"
proof (induction xs arbitrary: i s)
  case Nil
  show ?case by simp
next
  case (Cons x xs)
  have 1: "grows p s (all_element a i x s)" using Cons.prems by simp
  have "grows p (all_element a i x s) (all_loop a (Suc i) xs (all_element a i x s))"
    using grows_next [OF 1 Cons.prems] by (rule Cons.IH)
  with 1 have "grows p s (all_loop a (Suc i) xs (all_element a i x s))"
    using Cons.prems by (rule grows_trans)
  then show ?case by simp
qed

lemma grows_all_countdown [simp]:
  assumes "p < nextPromise s"
  shows "grows p s (all_countdown a s)"
proof -
  let ?s1 = "s\<lparr>alls := (alls s)(a := (alls s a)\<lparr>remaining := remaining (alls s a) - 1\<rparr>)\<rparr>"
  have 1: "grows p s ?s1" by (rule grows_other) simp_all
  have "grows p ?s1 (resolve_fn (target (alls ?s1 a)) (Array (vals (alls ?s1 a))) ?s1)"
    using assms by simp
  with 1 have "grows p s (resolve_fn (target (alls ?s1 a)) (Array (vals (alls ?s1 a))) ?s1)"
    using assms by (rule grows_trans)
  with 1 show ?thesis
    unfolding all_countdown_def Let_def by (simp only: if_split) simp
qed

lemma grows_all_store [simp]: "grows p s (all_store a i v s)"
  by (rule grows_other) simp_all

lemma grows_promise_all [simp]:
  assumes "p < nextPromise s"
  shows "grows p s (snd (promise_all xs s))"
proof -
  let ?s1 = "snd (all_begin s)"
  let ?s2 = "all_loop (nextAll s) 0 xs ?s1"
  have 1: "grows p s ?s1" using assms by simp
  have 2: "grows p ?s1 ?s2" using grows_next [OF 1 assms] by simp
  have 12: "grows p s ?s2" using 1 2 assms by (rule grows_trans)
  have "grows p ?s2 (all_countdown (nextAll s) ?s2)"
    using grows_next [OF 12 assms] by simp
  with 12 have "grows p s (all_countdown (nextAll s) ?s2)" using assms by (rule grows_trans)
  then show ?thesis by (simp add: promise_all_def case_prod_unfold)
qed

lemma grows_wrapChainCallback [simp]:
  assumes "p < nextPromise s"
  shows "grows p s (snd (wrapChainCallback c b cb v np s))"
proof -
  let ?s0 = "s\<lparr>calls := calls s @ [CallbackCalled c b v]\<rparr>"
  have 0: "grows p s ?s0" by (rule grows_other) simp_all
  have "grows p s (resolve_fn np w ?s0)" for w
    using 0 _ assms by (rule grows_trans) (simp add: assms)
  moreover have "grows p s (reject_fn np e ?s0)" for e
    using 0 _ assms by (rule grows_trans) (simp add: assms)
  ultimately show ?thesis
    by (simp add: wrapChainCallback_unfold split: cbresult.split val.split)
qed

lemma makeCallback_aborted:
  "abortPromise (ops s (thisOp (links s c))) \<noteq> None \<Longrightarrow>
   makeCallback c True v s = reject_fn (newPromise (links s c)) abortError s"
  by (simp add: makeCallback_def)

lemma makeCallback_pass:
  "b \<longrightarrow> abortPromise (ops s (thisOp (links s c))) = None \<Longrightarrow>
   (if b then onSuccess (links s c) else onError (links s c)) = None \<Longrightarrow>
   makeCallback c b v s =
     (if b then resolve_fn (newPromise (links s c)) v s
      else reject_fn (newPromise (links s c)) v s)"
  by (auto simp: makeCallback_def Let_def)

lemma makeCallback_call:
  "b \<longrightarrow> abortPromise (ops s (thisOp (links s c))) = None \<Longrightarrow>
   (if b then onSuccess (links s c) else onError (links s c)) = Some cb \<Longrightarrow>
   makeCallback c b v s =
     (let w = wrapChainCallback c b cb v (newPromise (links s c)) s
      in (snd w)\<lparr>links := (links (snd w))(c := (links (snd w) c)\<lparr>abortVar := fst w\<rparr>)\<rparr>)"
  by (auto simp: makeCallback_def Let_def case_prod_unfold)

lemma grows_makeCallback [simp]:
  assumes "p < nextPromise s"
  shows "grows p s (makeCallback c b v s)"
proof (cases "abortPromise (ops s (thisOp (links s c))) \<noteq> None \<and> b")
  case True
  then show ?thesis using assms by (simp add: makeCallback_aborted)
next
  case guard: False
  show ?thesis
  proof (cases "if b then onSuccess (links s c) else onError (links s c)")
    case None
    have "makeCallback c b v s =
        (if b then resolve_fn (newPromise (links s c)) v s
         else reject_fn (newPromise (links s c)) v s)"
      using guard None by (intro makeCallback_pass) auto
    then show ?thesis using assms by simp
  next
    case (Some cb)
    let ?w = "wrapChainCallback c b cb v (newPromise (links s c)) s"
    let ?s2 = "(snd ?w)\<lparr>links := (links (snd ?w))(c := (links (snd ?w) c)\<lparr>abortVar := fst ?w\<rparr>)\<rparr>"
    have 2: "grows p s (snd ?w)" using assms by simp
    have 3: "grows p (snd ?w) ?s2" by (rule grows_other) simp_all
    have "grows p s ?s2"
      using grows_trans [OF 2 3 assms] .
    moreover have "makeCallback c b v s = ?s2"
      using guard Some makeCallback_call [of b s c cb v] by (auto simp: Let_def)
    ultimately show ?thesis by simp
  qed
qed

lemma grows_run_reaction [simp]:
  assumes "p < nextPromise s"
  shows "grows p s (run_reaction r out s)"
proof (cases r)
  case (AllElement a i d)
  have 1: "grows p s (resolve_fn d Undefined (all_countdown a (all_store a i v s)))" for v
  proof -
    have a: "grows p s (all_store a i v s)" by simp
    have b: "grows p (all_store a i v s) (all_countdown a (all_store a i v s))"
      using assms by simp
    have ab: "grows p s (all_countdown a (all_store a i v s))"
      using a b assms by (rule grows_trans)
    have "grows p (all_countdown a (all_store a i v s))
        (resolve_fn d Undefined (all_countdown a (all_store a i v s)))"
      using assms by simp
    with ab show ?thesis using assms by (rule grows_trans)
  qed
  have 2: "grows p s (resolve_fn d Undefined (reject_fn (target (alls s a)) e s))" for e
  proof -
    have a: "grows p s (reject_fn (target (alls s a)) e s)" using assms by simp
    have "grows p (reject_fn (target (alls s a)) e s)
        (resolve_fn d Undefined (reject_fn (target (alls s a)) e s))"
      using assms by simp
    with a show ?thesis using assms by (rule grows_trans)
  qed
  show ?thesis using 1 2 by (simp add: run_reaction_def AllElement split: pstate.split)
qed (use assms in \<open>simp_all add: run_reaction_def split: pstate.split\<close>)

lemma grows_run_job [simp]: "p < nextPromise s \<Longrightarrow> grows p s (run_job j s)"
  by (simp add: run_job_def split: job.split)

lemma grows_abort:
  "abort n a s = Some (q, s1) \<Longrightarrow> p < nextPromise s \<Longrightarrow> grows p s s1"
  "call_onAbort n f s = Some (q, s1) \<Longrightarrow> p < nextPromise s \<Longrightarrow> grows p s s1"
  "abort_each n as s = Some (qs, s1) \<Longrightarrow> p < nextPromise s \<Longrightarrow> grows p s s1"
proof (induction n a s and n f s and n as s arbitrary: q s1 and q s1 and qs s1
    rule: abort_call_onAbort_abort_each.induct)
  case (1 a s)
  then show ?case by simp
next
  case (2 n a s)
  show ?case
  proof (cases "abortPromise (ops s a)")
    case (Some p')
    with 2 show ?thesis by simp
  next
    case None
    let ?s0 = "s\<lparr>calls := calls s @ [OnAbortCalled a]\<rparr>"
    from "2.prems" None obtain s' where
      c: "call_onAbort n (onAbort (ops s a)) ?s0 = Some (q, s')" and
      s1: "s1 = s'\<lparr>ops := (ops s')(a := (ops s' a)\<lparr>abortPromise := Some q\<rparr>)\<rparr>"
      by (auto split: option.splits)
    have 1: "grows p s ?s0" by (rule grows_other) simp_all
    have 2: "grows p ?s0 s'" using "2.IH" [OF None c] "2.prems"(2) by simp
    have 3: "grows p s' s1" unfolding s1 by (rule grows_other) simp_all
    show ?thesis
      using grows_trans [OF grows_trans [OF 1 2 "2.prems"(2)] 3 "2.prems"(2)] .
  qed
next
  case (3 n s)
  then show ?case by (auto simp: prod_eq_iff)
next
  case (4 n p' s)
  then show ?case by (auto simp: prod_eq_iff)
next
  case (5 n q' s)
  then show ?case by simp
next
  case (6 n os s)
  from "6.prems" obtain ps s' where
    e: "abort_each n os s = Some (ps, s')" and
    s1: "s1 = snd (promise_all (map PromiseRef ps) s')"
    by (auto split: option.splits simp: prod_eq_iff)
  have 1: "grows p s s'" using "6.IH" [OF e "6.prems"(2)] .
  have "grows p s' s1" unfolding s1 using grows_next [OF 1 "6.prems"(2)] by simp
  with 1 show ?case using "6.prems"(2) by (rule grows_trans)
next
  case (7 n c s)
  show ?case
  proof (cases "abortVar (links s c)")
    case AbortThis
    let ?s0 = "reject_fn (newPromise (links s c)) abortError s"
    from "7.prems" AbortThis have a: "abort n (thisOp (links s c)) ?s0 = Some (q, s1)" by simp
    have 1: "grows p s ?s0" using "7.prems"(2) by simp
    have "grows p ?s0 s1" using "7.IH"(1) [OF AbortThis a] "7.prems"(2) by simp
    with 1 show ?thesis using "7.prems"(2) by (rule grows_trans)
  next
    case (AbortRet r)
    with "7.IH"(2) [OF AbortRet] "7.prems" show ?thesis by simp
  next
    case (AwaitRet v)
    let ?s0 = "snd (promise_resolve v s)"
    from "7.prems" AwaitRet have s1: "s1 = snd (then_void (fst (promise_resolve v s)) ?s0)"
      by (auto simp: case_prod_unfold Let_def prod_eq_iff)
    have 1: "grows p s ?s0" using "7.prems"(2) by simp
    have "grows p ?s0 s1" unfolding s1 using grows_next [OF 1 "7.prems"(2)] by simp
    with 1 show ?thesis using "7.prems"(2) by (rule grows_trans)
  next
    case NoCleanup
    with "7.prems" show ?thesis by (auto simp: prod_eq_iff)
  qed
next
  case (8 n s)
  then show ?case by simp
next
  case (9 n a as s)
  from "9.prems" obtain p' s' ps where
    a: "abort n a s = Some (p', s')" and
    e: "abort_each n as s' = Some (ps, s1)"
    by (auto split: option.splits)
  have 1: "grows p s s'" using "9.IH"(1) [OF a "9.prems"(2)] .
  have "grows p s' s1" using "9.IH"(2) [OF a refl e] grows_next [OF 1 "9.prems"(2)] by simp
  with 1 show ?case using "9.prems"(2) by (rule grows_trans)
qed

section \<open>Attached handlers run\<close>

lemma awaiting_grows:
  assumes "awaiting r p s" and "grows p s s1" and "p < nextPromise s"
  shows "awaiting r p s1"
proof (cases "pstate (promises s p) = Pending")
  case True
  with assms(1,2) show ?thesis by (auto simp: awaiting_def grows_def)
next
  case False
  with assms(2,3) have "pstate (promises s1 p) = pstate (promises s p)"
    by (simp add: grows_def settled_kept_def)
  with False assms(1,2) show ?thesis by (auto simp: awaiting_def grows_def)
qed

lemma step_next: "step n e s = Some s1 \<Longrightarrow> p < nextPromise s \<Longrightarrow> p < nextPromise s1"
  using evolves_step [of n e s s1] by (simp add: evolves_def settled_kept_def)

lemma awaiting_step:
  assumes "awaiting r p s" and "p < nextPromise s" and "step n e s = Some s1"
  shows "awaiting r p s1 \<or>
    (\<exists>js. pstate (promises s p) \<noteq> Pending \<and>
       queue s = ReactionJob r (pstate (promises s p)) # js \<and>
       s1 = run_reaction r (pstate (promises s p)) (s\<lparr>queue := js\<rparr>))"
proof (cases e)
  case Microtask
  show ?thesis
  proof (cases "queue s")
    case Nil
    with Microtask assms show ?thesis by (simp add: step_def)
  next
    case (Cons j js)
    let ?s0 = "s\<lparr>queue := js\<rparr>"
    from Microtask Cons assms(3) have s1: "s1 = run_job j ?s0" by (simp add: step_def)
    have g: "grows p ?s0 s1" unfolding s1 using assms(2) by simp
    show ?thesis
    proof (cases "j = ReactionJob r (pstate (promises s p)) \<and> pstate (promises s p) \<noteq> Pending")
      case True
      then show ?thesis by (simp add: s1 run_job_def Cons)
    next
      case False
      with assms(1) Cons have "awaiting r p ?s0" by (auto simp: awaiting_def)
      from awaiting_grows [OF this g] assms(2) show ?thesis by simp
    qed
  qed
next
  case (Resolve q v)
  with assms(3) have "grows p s s1" using assms(2) by (auto simp: step_def)
  from awaiting_grows [OF assms(1) this assms(2)] show ?thesis ..
next
  case (Reject q v)
  with assms(3) have "grows p s s1" using assms(2) by (auto simp: step_def)
  from awaiting_grows [OF assms(1) this assms(2)] show ?thesis ..
next
  case (Abort a)
  with assms(3) obtain q where "abort n a s = Some (q, s1)" by (auto simp: step_def)
  then have "grows p s s1" using assms(2) by (rule grows_abort)
  from awaiting_grows [OF assms(1) this assms(2)] show ?thesis ..
qed

lemma awaiting_final:
  "awaiting r p s \<Longrightarrow> queue s = [] \<Longrightarrow> pstate (promises s p) = Pending"
  by (auto simp: awaiting_def split: if_splits)

text \<open>
  Along a run that ends with an empty queue and \<open>p\<close> settled, handlers attached to
  \<open>p\<close> have run, with the outcome of \<open>p\<close>, in a state of the run.
\<close>

lemma awaiting_run:
  assumes "run n es s = Some s3" and "awaiting r p s" and "p < nextPromise s"
    and "queue s3 = []" and "pstate (promises s3 p) \<noteq> Pending"
  shows "\<exists>s' js. evolves s s' \<and> queue s' = ReactionJob r (pstate (promises s3 p)) # js \<and>
           evolves (run_reaction r (pstate (promises s3 p)) (s'\<lparr>queue := js\<rparr>)) s3"
  using assms
proof (induction es arbitrary: s)
  case Nil
  then show ?case using awaiting_final [of r p s] by simp
next
  case (Cons e es)
  from Cons.prems(1) obtain s1 where
    st: "step n e s = Some s1" and rn: "run n es s1 = Some s3"
    by (auto split: option.splits)
  have p1: "p < nextPromise s1" using st Cons.prems(3) by (rule step_next)
  have e01: "evolves s s1" using st by (rule evolves_step)
  from awaiting_step [OF Cons.prems(2,3) st] show ?case
  proof
    assume "awaiting r p s1"
    from Cons.IH [OF rn this p1 Cons.prems(4,5)] obtain s' js where
      "evolves s1 s'" "queue s' = ReactionJob r (pstate (promises s3 p)) # js"
      "evolves (run_reaction r (pstate (promises s3 p)) (s'\<lparr>queue := js\<rparr>)) s3"
      by blast
    with e01 show ?thesis using evolves_trans by blast
  next
    assume "\<exists>js. pstate (promises s p) \<noteq> Pending \<and>
       queue s = ReactionJob r (pstate (promises s p)) # js \<and>
       s1 = run_reaction r (pstate (promises s p)) (s\<lparr>queue := js\<rparr>)"
    then obtain js where f: "pstate (promises s p) \<noteq> Pending"
      "queue s = ReactionJob r (pstate (promises s p)) # js"
      "s1 = run_reaction r (pstate (promises s p)) (s\<lparr>queue := js\<rparr>)"
      by blast
    have "evolves s s3" using Cons.prems(1) by (rule evolves_run)
    with f(1) Cons.prems(3) have same: "pstate (promises s3 p) = pstate (promises s p)"
      by (simp add: evolves_def settled_kept_def)
    have "evolves s1 s3" using rn by (rule evolves_run)
    with f same have "evolves s s \<and> queue s = ReactionJob r (pstate (promises s3 p)) # js \<and>
           evolves (run_reaction r (pstate (promises s3 p)) (s\<lparr>queue := js\<rparr>)) s3"
      by simp
    then show ?thesis by blast
  qed
qed

section \<open>The error continuation of a chain\<close>

lemma then_reaction_awaiting: "awaiting r p (then_reaction p r s)"
  by (cases "pstate (promises s p)") (simp_all add: awaiting_def then_reaction_def)

lemma awaiting_cong:
  "promises s1 = promises s \<Longrightarrow> queue s1 = queue s \<Longrightarrow> awaiting r p s1 = awaiting r p s"
  by (simp add: awaiting_def)

lemma chain_op_awaiting:
  "awaiting (ChainReact (nextChain s)) (promise (ops s a)) (snd (chain_op a onS onE s))"
proof -
  let ?s2 = "snd (catch_silence (nextPromise s) (snd (new_promise Pending False s)))"
  let ?s3 = "?s2\<lparr>links := (links ?s2)(nextChain ?s2 :=
                    \<lparr>thisOp = a, newPromise = nextPromise s, onSuccess = onS, onError = onE,
                     abortVar = AbortThis\<rparr>),
                  nextChain := Suc (nextChain ?s2)\<rparr>"
  let ?s4 = "then_reaction (promise (ops s a)) (ChainReact (nextChain s)) ?s3"
  have "promises (snd (chain_op a onS onE s)) = promises ?s4"
    "queue (snd (chain_op a onS onE s)) = queue ?s4"
    by (simp_all add: chain_op_def case_prod_unfold Let_def)
  then have "awaiting (ChainReact (nextChain s)) (promise (ops s a)) (snd (chain_op a onS onE s)) =
      awaiting (ChainReact (nextChain s)) (promise (ops s a)) ?s4"
    by (rule awaiting_cong)
  then show ?thesis using then_reaction_awaiting by simp
qed

lemma chain_abort_effect:
  assumes "chain_op a onS onE s = (b, s1)" and "abort n b s1 = Some (q, s2)"
  shows "pstate (promises s2 (nextPromise s)) = Rejected abortError"
    and "promise (ops s2 b) = nextPromise s"
    and "abortPromise (ops s2 a) \<noteq> None"
    and "abort_keeps s1 s2"
proof -
  let ?np = "nextPromise s" and ?c = "nextChain s"
  from assms(1) have b: "b = nextOp s" and s1: "s1 = snd (chain_op a onS onE s)"
    by (simp_all add: prod_eq_iff)
  let ?s1c = "s1\<lparr>calls := calls s1 @ [OnAbortCalled b]\<rparr>"
  let ?s1r = "reject_fn ?np abortError ?s1c"
  from assms(2) obtain k where n: "n = Suc k" by (cases n) auto
  from assms(2) obtain s' where
    r: "abort k a ?s1r = Some (q, s')" and
    s2: "s2 = s'\<lparr>ops := (ops s')(b := (ops s' b)\<lparr>abortPromise := Some q\<rparr>)\<rparr>"
    by (auto simp: n s1 b split: option.splits)
  have k3: "abort_keeps ?s1r s'" using abort_frame(1) [OF r] .
  have "pstate (promises ?s1r ?np) = Rejected abortError"
    by (rule reject_fn_pending) (simp_all add: s1)
  moreover have "?np < nextPromise ?s1r" by (simp add: s1)
  ultimately have "pstate (promises s' ?np) = Rejected abortError"
    using k3 by (auto simp: abort_keeps_def evolves_def settled_kept_def)
  then show "pstate (promises s2 ?np) = Rejected abortError" by (simp add: s2)
  show "promise (ops s2 b) = ?np"
    using k3 by (simp add: abort_keeps_def evolves_def s1 b s2)
  show "abortPromise (ops s2 a) \<noteq> None"
    using abort_caches [OF r] by (simp add: s2)
  show "abort_keeps s1 s2" using assms(2) by (rule abort_frame(1))
qed

lemma chain_abort_then:
  assumes "chain_op a onS onE s = (b, s1)" and "run n (Abort b # es) s1 = Some s3"
  shows "pstate (promises s3 (promise (ops s3 b))) = Rejected abortError"
    and "\<forall>v. CallbackCalled (nextChain s) True v \<notin> set (new_calls s s3)"
proof -
  let ?np = "nextPromise s" and ?c = "nextChain s"
  from assms(1) have b: "b = nextOp s" and s1: "s1 = snd (chain_op a onS onE s)"
    by (simp_all add: prod_eq_iff)
  from assms(2) obtain q s2 where
    a: "abort n b s1 = Some (q, s2)" and rn: "run n es s2 = Some s3"
    by (auto simp: step_def split: option.splits)
  note eff = chain_abort_effect [OF assms(1) a]
  have ev: "evolves s2 s3" using rn by (rule evolves_run)
  have e12: "evolves s1 s2" using eff(4) by (simp add: abort_keeps_def)
  have "?np < nextPromise s2"
    using e12 by (simp add: evolves_def settled_kept_def s1)
  with ev eff(1,2) show "pstate (promises s3 (promise (ops s3 b))) = Rejected abortError"
    by (simp add: evolves_def settled_kept_def)
  have la: "thisOp (links s2 ?c) = a"
    using eff(4) by (simp add: abort_keeps_def s1)
  have no2: "CallbackCalled ?c True v \<notin> set (new_calls s2 s3)" for v
    using new_calls_permitted [OF ev, of "CallbackCalled ?c True v"] eff(3) la
    by (auto simp: permitted_def)
  have no1: "CallbackCalled ?c True v \<notin> set (new_calls s1 s2)" for v
    using eff(4) by (auto simp: abort_keeps_def)
  have "new_calls s s3 = new_calls s1 s3" by (simp add: new_calls_def s1)
  also have "\<dots> = new_calls s1 s2 @ new_calls s2 s3" using e12 ev by (rule new_calls_trans)
  finally show "\<forall>v. CallbackCalled ?c True v \<notin> set (new_calls s s3)"
    using no1 no2 by simp
qed

lemma chain_error_called:
  assumes "promise (ops s a) < nextPromise s"
    and "chain_op a onS (Some cb) s = (b, s1)"
    and "run n es s1 = Some s3"
    and "queue s3 = []"
    and "pstate (promises s3 (promise (ops s a))) = Rejected e"
  shows "CallbackCalled (nextChain s) False e \<in> set (new_calls s s3)"
proof -
  let ?c = "nextChain s" and ?ap = "promise (ops s a)"
  from assms(2) have s1: "s1 = snd (chain_op a onS (Some cb) s)"
    by (simp add: prod_eq_iff)
  have aw: "awaiting (ChainReact ?c) ?ap s1" unfolding s1 by (rule chain_op_awaiting)
  have ap1: "?ap < nextPromise s1" using assms(1) by (simp add: s1)
  from awaiting_run [OF assms(3) aw ap1 assms(4)] assms(5) obtain s' js where
    e1: "evolves s1 s'" and
    e2: "evolves (run_reaction (ChainReact ?c) (Rejected e) (s'\<lparr>queue := js\<rparr>)) s3"
    by auto
  let ?t = "s'\<lparr>queue := js\<rparr>"
  let ?t' = "run_reaction (ChainReact ?c) (Rejected e) ?t"
  have "onError (links s' ?c) = Some cb"
    using e1 by (simp add: evolves_def s1)
  then have "makeCallback ?c False e ?t =
     (let w = wrapChainCallback ?c False cb e (newPromise (links ?t ?c)) ?t
      in (snd w)\<lparr>links := (links (snd w))(?c := (links (snd w) ?c)\<lparr>abortVar := fst w\<rparr>)\<rparr>)"
    by (intro makeCallback_call) simp_all
  then have c': "calls ?t' = calls s' @ [CallbackCalled ?c False e]"
    by (simp add: run_reaction_def Let_def)
  from e1 obtain cs1 where cs1: "calls s' = calls s1 @ cs1" by (auto simp: evolves_def)
  from e2 obtain cs3 where cs3: "calls s3 = calls ?t' @ cs3" by (auto simp: evolves_def)
  show ?thesis
    by (simp add: new_calls_def cs3 c' cs1 s1)
qed

section \<open>Handlers that are attached once\<close>

lemma filter_job_of_map [simp]:
  "filter (job_of r) (map (\<lambda>r'. ReactionJob r' out) rs) =
     map (\<lambda>r'. ReactionJob r' out) (filter (\<lambda>x. x = r) rs)"
  by (induction rs) (simp_all add: job_of_def)

lemma filter_eq_Nil_notin: "filter (\<lambda>x. x = r) rs = [] \<longleftrightarrow> r \<notin> set rs"
  by (induction rs) auto

lemma filter_eq_single_in: "filter (\<lambda>x. x = r) rs = [r] \<Longrightarrow> r \<in> set rs"
  by (metis filter_eq_Nil_notin list.distinct(1))

lemma sole_awaiting: "sole r p s \<Longrightarrow> awaiting r p s"
proof -
  assume s: "sole r p s"
  show ?thesis
  proof (cases "pstate (promises s p) = Pending")
    case True
    with s show ?thesis by (auto simp: sole_def awaiting_def dest: filter_eq_single_in)
  next
    case False
    with s have "filter (job_of r) (queue s) = [ReactionJob r (pstate (promises s p))]"
      by (simp add: sole_def)
    then have "ReactionJob r (pstate (promises s p)) \<in> set (filter (job_of r) (queue s))"
      by simp
    with False show ?thesis by (simp add: awaiting_def)
  qed
qed

subsection \<open>Settling\<close>

lemma settle_other:
  "q \<noteq> p \<Longrightarrow> promises (settle q out s) p = promises s p"
  by (simp add: settle_def)

lemma sole_settle:
  assumes "sole r p s" and "out \<noteq> Pending"
  shows "sole r p (settle q out s)"
proof (cases "pstate (promises s q) = Pending")
  case False
  then show ?thesis using assms by (simp add: settle_def)
next
  case pend: True
  show ?thesis
  proof (cases "q = p")
    case True
    with pend assms show ?thesis
      by (simp add: sole_def settle_def)
  next
    case False
    with assms(1) have "r \<notin> set (reactions (promises s q))" by (simp add: sole_def)
    then have "filter (\<lambda>x. x = r) (reactions (promises s q)) = []"
      by (simp add: filter_eq_Nil_notin)
    with False pend assms show ?thesis
      by (simp add: sole_def settle_def)
  qed
qed

lemma gone_settle: "gone r s \<Longrightarrow> gone r (settle q out s)"
  by (auto simp: gone_def settle_def filter_eq_Nil_notin)

lemma touches_cong:
  "links s1 = links s \<Longrightarrow> alls s1 = alls s \<Longrightarrow> touches s1 r t = touches s r t"
  by (simp add: touches_def split: reaction.split)

lemma job_touches_cong:
  "links s1 = links s \<Longrightarrow> alls s1 = alls s \<Longrightarrow> job_touches s1 j t = job_touches s j t"
  by (simp add: job_touches_def touches_cong [of s1 s] split: job.split)

lemma reserved_settle:
  assumes "reserved t r s"
  shows "reserved t r (settle q out s)"
proof -
  have tc: "touches (settle q out s) r' t = touches s r' t" for r'
    by (rule touches_cong) simp_all
  have jc: "job_touches (settle q out s) j t = job_touches s j t" for j
    by (rule job_touches_cong) simp_all
  show ?thesis
    using assms unfolding reserved_def tc jc
    by (auto simp: settle_def job_touches_def job_of_def)
qed

subsection \<open>Promises that a step does not name\<close>

lemma settle_untouched [simp]:
  "q \<noteq> t \<Longrightarrow> promises (settle q out s) t = promises s t"
  by (simp add: settle_def)

lemma mark_resolved_untouched [simp]:
  "q \<noteq> t \<Longrightarrow> promises (mark_resolved q s) t = promises s t"
  by (simp add: mark_resolved_def)

lemma resolution_untouched [simp]:
  "q \<noteq> t \<Longrightarrow> promises (resolution q v s) t = promises s t"
  by (simp add: resolution_def split: val.split)

lemma resolve_fn_untouched [simp]:
  "q \<noteq> t \<Longrightarrow> promises (resolve_fn q v s) t = promises s t"
  by (simp add: resolve_fn_def)

lemma reject_fn_untouched [simp]:
  "q \<noteq> t \<Longrightarrow> promises (reject_fn q e s) t = promises s t"
  by (simp add: reject_fn_def)

lemma all_countdown_untouched [simp]:
  "target (alls s a) \<noteq> t \<Longrightarrow> promises (all_countdown a s) t = promises s t"
  by (simp add: all_countdown_def Let_def)

lemma all_store_target [simp]: "target (alls (all_store a i v s) b) = target (alls s b)"
  by (simp add: all_store_def)

lemma all_countdown_target [simp]: "target (alls (all_countdown a s) b) = target (alls s b)"
  by (simp add: all_countdown_def Let_def)

lemma all_store_queue [simp]: "queue (all_store a i v s) = queue s"
  by (simp add: all_store_def)

subsection \<open>One more registration, one more job\<close>

lemma sole_mark_resolved: "sole r p s \<Longrightarrow> sole r p (mark_resolved q s)"
  by (simp add: sole_def)

lemma sole_enqueue:
  "sole r p s \<Longrightarrow> \<not> job_of r j \<Longrightarrow> sole r p (s\<lparr>queue := queue s @ [j]\<rparr>)"
  by (simp add: sole_def)

lemma sole_resolution: "sole r p s \<Longrightarrow> sole r p (resolution q v s)"
  by (cases v) (simp_all add: resolution_def sole_settle sole_enqueue job_of_def)

lemma sole_resolve_fn: "sole r p s \<Longrightarrow> sole r p (resolve_fn q v s)"
  by (simp add: resolve_fn_def sole_resolution sole_mark_resolved)

lemma sole_reject_fn: "sole r p s \<Longrightarrow> sole r p (reject_fn q e s)"
  by (simp add: reject_fn_def sole_settle sole_mark_resolved)

lemma sole_then_reaction:
  "sole r p s \<Longrightarrow> r' \<noteq> r \<Longrightarrow> sole r p (then_reaction q r' s)"
  by (cases "pstate (promises s q)") (auto simp: sole_def then_reaction_def job_of_def)

lemma sole_other:
  "promises s1 = promises s \<Longrightarrow> queue s1 = queue s \<Longrightarrow> sole r p s1 = sole r p s"
  by (simp add: sole_def)

lemma sole_all_store: "sole r p s \<Longrightarrow> sole r p (all_store a i v s)"
  by (simp add: sole_other [of "all_store a i v s" s])

lemma sole_all_countdown: "sole r p s \<Longrightarrow> sole r p (all_countdown a s)"
proof -
  assume s: "sole r p s"
  let ?s1 = "s\<lparr>alls := (alls s)(a := (alls s a)\<lparr>remaining := remaining (alls s a) - 1\<rparr>)\<rparr>"
  have 1: "sole r p ?s1" using s by (simp add: sole_def)
  then have "sole r p (resolve_fn (target (alls ?s1 a)) (Array (vals (alls ?s1 a))) ?s1)"
    by (rule sole_resolve_fn)
  with 1 show ?thesis
    unfolding all_countdown_def Let_def by (simp only: if_split) simp
qed

lemma sole_wrapChainCallback:
  assumes "sole r p s"
  shows "sole r p (snd (wrapChainCallback c b cb v np s))"
proof -
  have "sole r p (s\<lparr>calls := calls s @ [CallbackCalled c b v]\<rparr>)"
    using assms by (simp add: sole_def)
  then show ?thesis
    by (simp add: wrapChainCallback_unfold sole_resolve_fn sole_reject_fn
        split: cbresult.split val.split)
qed

lemma makeCallback_forms:
  "makeCallback c b v s = reject_fn (newPromise (links s c)) abortError s \<or>
   makeCallback c b v s = resolve_fn (newPromise (links s c)) v s \<or>
   makeCallback c b v s = reject_fn (newPromise (links s c)) v s \<or>
   (\<exists>cb. makeCallback c b v s =
      (let w = wrapChainCallback c b cb v (newPromise (links s c)) s
       in (snd w)\<lparr>links := (links (snd w))(c := (links (snd w) c)\<lparr>abortVar := fst w\<rparr>)\<rparr>))"
proof (cases "abortPromise (ops s (thisOp (links s c))) \<noteq> None \<and> b")
  case True
  then show ?thesis by (simp add: makeCallback_aborted)
next
  case guard: False
  show ?thesis
  proof (cases "if b then onSuccess (links s c) else onError (links s c)")
    case None
    have "makeCallback c b v s =
        (if b then resolve_fn (newPromise (links s c)) v s
         else reject_fn (newPromise (links s c)) v s)"
      using guard None by (intro makeCallback_pass) auto
    then show ?thesis by (cases b) simp_all
  next
    case (Some cb)
    have "makeCallback c b v s =
      (let w = wrapChainCallback c b cb v (newPromise (links s c)) s
       in (snd w)\<lparr>links := (links (snd w))(c := (links (snd w) c)\<lparr>abortVar := fst w\<rparr>)\<rparr>)"
      using guard Some by (intro makeCallback_call) auto
    then show ?thesis by blast
  qed
qed

lemma sole_makeCallback: "sole r p s \<Longrightarrow> sole r p (makeCallback c b v s)"
proof -
  assume s: "sole r p s"
  have "sole r p ((snd (wrapChainCallback c b cb v np s))\<lparr>links := f\<rparr>)" for cb np f
    using sole_wrapChainCallback [OF s, of c b cb v np] by (simp add: sole_def)
  then show ?thesis
    using makeCallback_forms [of c b v s] s
    by (auto simp: sole_reject_fn sole_resolve_fn Let_def)
qed

lemma sole_run_reaction:
  assumes "sole r p s"
  shows "sole r p (run_reaction r' out s)"
proof (cases r')
  case (ChainReact c)
  then show ?thesis using assms by (simp add: run_reaction_def sole_makeCallback split: pstate.split)
next
  case (CatchSilence d)
  then show ?thesis using assms by (simp add: run_reaction_def sole_resolve_fn split: pstate.split)
next
  case (ThenVoid d)
  then show ?thesis using assms by (simp add: run_reaction_def sole_resolve_fn)
next
  case (AllElement a i d)
  then show ?thesis using assms
    by (simp add: run_reaction_def sole_resolve_fn sole_reject_fn sole_all_countdown sole_all_store
        split: pstate.split)
next
  case (Adopt t)
  then show ?thesis using assms
    by (simp add: run_reaction_def sole_resolution sole_settle split: pstate.split)
qed

lemma sole_run_job:
  "sole r p s \<Longrightarrow> \<forall>t. r \<noteq> Adopt t \<Longrightarrow> sole r p (run_job j s)"
  by (cases j) (auto simp: run_job_def sole_run_reaction intro: sole_then_reaction)

subsection \<open>Handlers that are gone stay gone\<close>

lemma gone_mark_resolved: "gone r s \<Longrightarrow> gone r (mark_resolved q s)"
  by (simp add: gone_def)

lemma gone_resolution: "gone r s \<Longrightarrow> gone r (resolution q v s)"
  by (cases v) (simp_all add: resolution_def gone_settle, simp add: gone_def job_of_def)

lemma gone_resolve_fn: "gone r s \<Longrightarrow> gone r (resolve_fn q v s)"
  by (simp add: resolve_fn_def gone_resolution gone_mark_resolved)

lemma gone_reject_fn: "gone r s \<Longrightarrow> gone r (reject_fn q e s)"
  by (simp add: reject_fn_def gone_settle gone_mark_resolved)

lemma gone_then_reaction: "gone r s \<Longrightarrow> r' \<noteq> r \<Longrightarrow> gone r (then_reaction q r' s)"
  by (cases "pstate (promises s q)") (auto simp: gone_def then_reaction_def job_of_def)

lemma gone_all_countdown: "gone r s \<Longrightarrow> gone r (all_countdown a s)"
proof -
  assume s: "gone r s"
  let ?s1 = "s\<lparr>alls := (alls s)(a := (alls s a)\<lparr>remaining := remaining (alls s a) - 1\<rparr>)\<rparr>"
  have 1: "gone r ?s1" using s by (simp add: gone_def)
  then have "gone r (resolve_fn (target (alls ?s1 a)) (Array (vals (alls ?s1 a))) ?s1)"
    by (rule gone_resolve_fn)
  with 1 show ?thesis
    unfolding all_countdown_def Let_def by (simp only: if_split) simp
qed

lemma gone_wrapChainCallback:
  assumes "gone r s"
  shows "gone r (snd (wrapChainCallback c b cb v np s))"
proof -
  have "gone r (s\<lparr>calls := calls s @ [CallbackCalled c b v]\<rparr>)"
    using assms by (simp add: gone_def)
  then show ?thesis
    by (simp add: wrapChainCallback_unfold gone_resolve_fn gone_reject_fn
        split: cbresult.split val.split)
qed

lemma gone_makeCallback: "gone r s \<Longrightarrow> gone r (makeCallback c b v s)"
proof -
  assume s: "gone r s"
  have "gone r ((snd (wrapChainCallback c b cb v np s))\<lparr>links := f\<rparr>)" for cb np f
    using gone_wrapChainCallback [OF s, of c b cb v np] by (simp add: gone_def)
  then show ?thesis
    using makeCallback_forms [of c b v s] s
    by (auto simp: gone_reject_fn gone_resolve_fn Let_def)
qed

lemma gone_run_reaction:
  assumes "gone r s"
  shows "gone r (run_reaction r' out s)"
proof (cases r')
  case (ChainReact c)
  then show ?thesis using assms by (simp add: run_reaction_def gone_makeCallback split: pstate.split)
next
  case (CatchSilence d)
  then show ?thesis using assms by (simp add: run_reaction_def gone_resolve_fn split: pstate.split)
next
  case (ThenVoid d)
  then show ?thesis using assms by (simp add: run_reaction_def gone_resolve_fn)
next
  case (AllElement a i d)
  have "gone r (all_store a i v s)" for v using assms by (simp add: gone_def all_store_def)
  then show ?thesis using assms AllElement
    by (simp add: run_reaction_def gone_resolve_fn gone_reject_fn gone_all_countdown
        split: pstate.split)
next
  case (Adopt t)
  then show ?thesis using assms
    by (simp add: run_reaction_def gone_resolution gone_settle split: pstate.split)
qed

lemma gone_run_job:
  "gone r s \<Longrightarrow> \<forall>t. r \<noteq> Adopt t \<Longrightarrow> gone r (run_job j s)"
  by (cases j) (auto simp: run_job_def gone_run_reaction intro: gone_then_reaction)

lemma gone_step:
  assumes "gone r s" and "\<forall>t. r \<noteq> Adopt t" and "step n e s = Some s1" and "\<forall>a. e \<noteq> Abort a"
  shows "gone r s1"
proof (cases e)
  case Microtask
  show ?thesis
  proof (cases "queue s")
    case Nil
    with Microtask assms show ?thesis by (simp add: step_def)
  next
    case (Cons j js)
    with assms(1) have "gone r (s\<lparr>queue := js\<rparr>)"
      by (auto simp: gone_def split: if_splits)
    from gone_run_job [OF this assms(2), of j] Microtask Cons assms(3) show ?thesis
      by (auto simp: step_def)
  qed
next
  case (Resolve q v)
  with assms show ?thesis by (auto simp: step_def gone_resolve_fn)
next
  case (Reject q v)
  with assms show ?thesis by (auto simp: step_def gone_reject_fn)
next
  case (Abort a)
  with assms(4) show ?thesis by simp
qed

text \<open>Only the handlers of a chain write its variable.\<close>

lemma run_job_links:
  "\<not> job_of (ChainReact c) j \<Longrightarrow> links (run_job j s) c = links s c"
proof (cases j)
  case (ThenableJob t q)
  then show ?thesis by (simp add: run_job_def)
next
  case (ReactionJob r out)
  assume "\<not> job_of (ChainReact c) j"
  with ReactionJob have ne: "r \<noteq> ChainReact c" by (simp add: job_of_def)
  show ?thesis
  proof (cases r)
    case (ChainReact c')
    with ne have c': "c' \<noteq> c" by simp
    have "links (makeCallback c' b v s) c = links s c" for b v
      using makeCallback_forms [of c' b v s] c' by (auto simp: Let_def)
    then show ?thesis
      by (simp add: ReactionJob ChainReact run_job_def run_reaction_def split: pstate.split)
  qed (simp_all add: ReactionJob run_job_def run_reaction_def split: pstate.split)
qed

lemma step_ops:
  "step n e s = Some s1 \<Longrightarrow> \<forall>a. e \<noteq> Abort a \<Longrightarrow> ops s1 = ops s"
proof (cases e)
  case Microtask
  have "ops (makeCallback c b v t) = ops t" for c b v t
    using makeCallback_forms [of c b v t] by (auto simp: Let_def)
  then have "ops (run_job j t) = ops t" for j t
    by (simp add: run_job_def run_reaction_def split: job.split reaction.split pstate.split)
  moreover assume "step n e s = Some s1"
  ultimately show ?thesis using Microtask
    by (auto simp: step_def split: list.splits)
qed (auto simp: step_def)

lemma gone_run:
  assumes "run n es s = Some s3" and "gone (ChainReact c) s" and "\<forall>e\<in>set es. \<forall>a. e \<noteq> Abort a"
  shows "links s3 c = links s c \<and> ops s3 = ops s \<and> gone (ChainReact c) s3"
  using assms
proof (induction es arbitrary: s)
  case Nil
  then show ?case by simp
next
  case (Cons e es)
  from Cons.prems(1) obtain s1 where
    st: "step n e s = Some s1" and rn: "run n es s1 = Some s3"
    by (auto split: option.splits)
  have na: "\<forall>a. e \<noteq> Abort a" using Cons.prems(3) by simp
  have g1: "gone (ChainReact c) s1"
    using gone_step [OF Cons.prems(2) _ st na] by simp
  have o1: "ops s1 = ops s" using st na by (rule step_ops)
  have l1: "links s1 c = links s c"
  proof (cases e)
    case Microtask
    show ?thesis
    proof (cases "queue s")
      case Nil
      with Microtask st show ?thesis by (simp add: step_def)
    next
      case (Cons j js)
      with Cons.prems(2) have "\<not> job_of (ChainReact c) j"
        using \<open>gone (ChainReact c) s\<close> by (auto simp: gone_def split: if_splits)
      from run_job_links [OF this] Microtask Cons st show ?thesis
        by (auto simp: step_def)
    qed
  qed (use st na in \<open>auto simp: step_def\<close>)
  from Cons.IH [OF rn g1] Cons.prems(3) o1 l1 show ?case by simp
qed

subsection \<open>A promise reserved for its handlers\<close>

lemma touches_static:
  "(\<And>c. newPromise (links s1 c) = newPromise (links s c)) \<Longrightarrow>
   (\<And>a. target (alls s1 a) = target (alls s a)) \<Longrightarrow> touches s1 r t = touches s r t"
  by (simp add: touches_def split: reaction.split)

lemma reservedI:
  assumes "reserved t r s"
    and "\<And>c. newPromise (links s1 c) = newPromise (links s c)"
    and "\<And>a. target (alls s1 a) = target (alls s a)"
    and "\<And>q r'. r' \<in> set (reactions (promises s1 q)) \<Longrightarrow>
           r' \<in> set (reactions (promises s q)) \<or> \<not> touches s r' t"
    and "\<And>j. j \<in> set (queue s1) \<Longrightarrow>
           j \<in> set (queue s) \<or> \<not> job_touches s j t \<or>
           (\<exists>q r' out. j = ReactionJob r' out \<and> r' \<in> set (reactions (promises s q)))"
  shows "reserved t r s1"
proof -
  have tc: "touches s1 r' t = touches s r' t" for r'
    using assms(2,3) by (rule touches_static)
  have jc: "job_touches s1 j t = job_touches s j t" for j
    by (simp add: job_touches_def tc split: job.split)
  show ?thesis
    unfolding reserved_def tc jc
  proof (intro conjI allI ballI impI)
    fix q r'
    assume "r' \<in> set (reactions (promises s1 q))" "touches s r' t"
    with assms(4) [of r' q] assms(1) show "r' = r" by (auto simp: reserved_def)
  next
    fix j
    assume j: "j \<in> set (queue s1)" and jt: "job_touches s j t"
    from assms(5) [OF j] jt consider "j \<in> set (queue s)"
      | q r' out where "j = ReactionJob r' out" "r' \<in> set (reactions (promises s q))"
      by blast
    then show "job_of r j"
    proof cases
      case 1
      with assms(1) jt show ?thesis by (simp add: reserved_def)
    next
      case 2
      with jt have "touches s r' t" by (simp add: job_touches_def)
      with 2 assms(1) have "r' = r" by (auto simp: reserved_def)
      with 2 show ?thesis by (simp add: job_of_def)
    qed
  qed
qed

lemma reserved_settle': "reserved t r s \<Longrightarrow> reserved t r (settle q out s)"
  by (rule reserved_settle)

lemma reserved_mark_resolved: "reserved t r s \<Longrightarrow> reserved t r (mark_resolved q s)"
  by (erule reservedI) (auto simp: mark_resolved_def split: if_splits)

lemma reserved_enqueue:
  "reserved t r s \<Longrightarrow> \<not> job_touches s j t \<Longrightarrow> reserved t r (s\<lparr>queue := queue s @ [j]\<rparr>)"
  by (erule reservedI) auto

lemma reserved_resolution:
  "reserved t r s \<Longrightarrow> q \<noteq> t \<Longrightarrow> reserved t r (resolution q v s)"
  by (cases v)
     (simp_all add: resolution_def reserved_settle reserved_enqueue job_touches_def)

lemma reserved_resolve_fn:
  "reserved t r s \<Longrightarrow> q \<noteq> t \<Longrightarrow> reserved t r (resolve_fn q v s)"
  by (simp add: resolve_fn_def reserved_resolution reserved_mark_resolved)

lemma reserved_reject_fn:
  "reserved t r s \<Longrightarrow> reserved t r (reject_fn q e s)"
  by (simp add: reject_fn_def reserved_settle reserved_mark_resolved)

lemma reserved_then_reaction:
  "reserved t r s \<Longrightarrow> \<not> touches s r' t \<Longrightarrow> reserved t r (then_reaction q r' s)"
  by (erule reservedI)
     (auto simp: then_reaction_def job_touches_def split: pstate.splits if_splits)

lemma reserved_other:
  "reserved t r s \<Longrightarrow> promises s1 = promises s \<Longrightarrow> queue s1 = queue s \<Longrightarrow>
   (\<And>c. newPromise (links s1 c) = newPromise (links s c)) \<Longrightarrow>
   (\<And>a. target (alls s1 a) = target (alls s a)) \<Longrightarrow> reserved t r s1"
  by (erule reservedI) simp_all

lemma reserved_all_countdown:
  assumes "reserved t r s" and "target (alls s a) \<noteq> t"
  shows "reserved t r (all_countdown a s)"
proof -
  let ?s1 = "s\<lparr>alls := (alls s)(a := (alls s a)\<lparr>remaining := remaining (alls s a) - 1\<rparr>)\<rparr>"
  have 1: "reserved t r ?s1" using assms(1) by (rule reserved_other) simp_all
  then have "reserved t r (resolve_fn (target (alls ?s1 a)) (Array (vals (alls ?s1 a))) ?s1)"
    using assms(2) by (intro reserved_resolve_fn) simp_all
  with 1 show ?thesis
    unfolding all_countdown_def Let_def by (simp only: if_split) simp
qed

lemma reserved_wrapChainCallback:
  assumes "reserved t r s" and "np \<noteq> t"
  shows "reserved t r (snd (wrapChainCallback c b cb v np s))"
proof -
  have "reserved t r (s\<lparr>calls := calls s @ [CallbackCalled c b v]\<rparr>)"
    using assms(1) by (rule reserved_other) simp_all
  then show ?thesis
    using assms(2)
    by (simp add: wrapChainCallback_unfold reserved_resolve_fn reserved_reject_fn
        split: cbresult.split val.split)
qed

lemma reserved_makeCallback:
  assumes "reserved t r s" and "newPromise (links s c) \<noteq> t"
  shows "reserved t r (makeCallback c b v s)"
proof -
  let ?np = "newPromise (links s c)"
  have "reserved t r ((snd (wrapChainCallback c b cb v ?np s))
      \<lparr>links := (links (snd (wrapChainCallback c b cb v ?np s)))
         (c := (links (snd (wrapChainCallback c b cb v ?np s)) c)\<lparr>abortVar := d\<rparr>)\<rparr>)" for cb d
    using reserved_wrapChainCallback [OF assms(1) assms(2), of c b cb v]
    by (rule reserved_other) simp_all
  then show ?thesis
    using makeCallback_forms [of c b v s] assms
    by (auto simp: reserved_reject_fn reserved_resolve_fn Let_def)
qed

lemma reserved_run_reaction:
  assumes "reserved t r s" and "\<not> touches s r' t"
  shows "reserved t r (run_reaction r' out s)"
proof (cases r')
  case (ChainReact c)
  then show ?thesis using assms
    by (simp add: run_reaction_def reserved_makeCallback touches_def split: pstate.split)
next
  case (CatchSilence d)
  then show ?thesis using assms
    by (simp add: run_reaction_def reserved_resolve_fn touches_def split: pstate.split)
next
  case (ThenVoid d)
  then show ?thesis using assms by (simp add: run_reaction_def reserved_resolve_fn touches_def)
next
  case (AllElement a i d)
  with assms(2) have d: "d \<noteq> t" and tg: "target (alls s a) \<noteq> t"
    by (simp_all add: touches_def)
  have "reserved t r (all_store a i v s)" for v
    using assms(1) by (rule reserved_other) simp_all
  then have "reserved t r (all_countdown a (all_store a i v s))" for v
    using tg by (intro reserved_all_countdown) simp_all
  then show ?thesis using assms AllElement d
    by (simp add: run_reaction_def reserved_resolve_fn reserved_reject_fn split: pstate.split)
next
  case (Adopt t')
  then show ?thesis using assms
    by (simp add: run_reaction_def reserved_resolution reserved_settle touches_def
        split: pstate.split)
qed

lemma reserved_run_job:
  "reserved t r s \<Longrightarrow> \<not> job_touches s j t \<Longrightarrow> reserved t r (run_job j s)"
  by (cases j)
     (auto simp: run_job_def job_touches_def touches_def
       intro: reserved_run_reaction reserved_then_reaction)

subsection \<open>A job leaves alone the promises it does not name\<close>

lemma wrapChainCallback_untouched:
  "np \<noteq> t \<Longrightarrow> promises (snd (wrapChainCallback c b cb v np s)) t = promises s t"
  by (simp add: wrapChainCallback_unfold split: cbresult.split val.split)

lemma makeCallback_untouched:
  "newPromise (links s c) \<noteq> t \<Longrightarrow> promises (makeCallback c b v s) t = promises s t"
  using makeCallback_forms [of c b v s]
  by (auto simp: Let_def wrapChainCallback_untouched)

lemma then_reaction_untouched:
  "q \<noteq> t \<Longrightarrow> promises (then_reaction q r s) t = promises s t"
  by (simp add: then_reaction_def split: pstate.split)

lemma run_job_untouched:
  "\<not> job_touches s j t \<Longrightarrow>
   pstate (promises (run_job j s) t) = pstate (promises s t) \<and>
   resolved (promises (run_job j s) t) = resolved (promises s t)"
  by (cases j)
     (auto simp: run_job_def run_reaction_def job_touches_def touches_def makeCallback_untouched
       split: reaction.split pstate.split)

section \<open>Until the handlers run, their promise is pending\<close>

lemma sole_head:
  assumes "sole r p s" and "queue s = j # js"
  shows "(\<not> job_of r j \<and> sole r p (s\<lparr>queue := js\<rparr>)) \<or>
         (pstate (promises s p) \<noteq> Pending \<and> j = ReactionJob r (pstate (promises s p)) \<and>
          gone r (s\<lparr>queue := js\<rparr>))"
proof (cases "job_of r j")
  case False
  with assms show ?thesis by (auto simp: sole_def)
next
  case True
  with assms have "pstate (promises s p) \<noteq> Pending"
    by (auto simp: sole_def split: if_splits)
  moreover from this True assms have "j = ReactionJob r (pstate (promises s p))"
    "filter (job_of r) js = []"
    by (simp_all add: sole_def)
  moreover from assms(1) \<open>pstate (promises s p) \<noteq> Pending\<close>
  have "r \<notin> set (reactions (promises s q))" for q
    by (cases "q = p") (simp_all add: sole_def)
  ultimately show ?thesis by (simp add: gone_def)
qed

lemma reserved_dequeue:
  "reserved t r s \<Longrightarrow> queue s = j # js \<Longrightarrow> reserved t r (s\<lparr>queue := js\<rparr>)"
  by (erule reservedI) auto

lemma guarded_step:
  assumes "sole r p s" and "reserved t r s"
    and "pstate (promises s t) = Pending" and "\<not> resolved (promises s t)"
    and "\<forall>t'. r \<noteq> Adopt t'" and "quiet t e" and "step n e s = Some s1"
  shows "(sole r p s1 \<and> reserved t r s1 \<and>
          pstate (promises s1 t) = Pending \<and> \<not> resolved (promises s1 t)) \<or>
         (\<exists>js. pstate (promises s p) \<noteq> Pending \<and>
            queue s = ReactionJob r (pstate (promises s p)) # js \<and>
            s1 = run_reaction r (pstate (promises s p)) (s\<lparr>queue := js\<rparr>) \<and>
            gone r (s\<lparr>queue := js\<rparr>))"
proof (cases e)
  case Microtask
  show ?thesis
  proof (cases "queue s")
    case Nil
    with Microtask assms show ?thesis by (simp add: step_def)
  next
    case (Cons j js)
    let ?s0 = "s\<lparr>queue := js\<rparr>"
    from Microtask Cons assms(7) have s1: "s1 = run_job j ?s0" by (simp add: step_def)
    from sole_head [OF assms(1) Cons] show ?thesis
    proof
      assume a: "\<not> job_of r j \<and> sole r p ?s0"
      with assms(2) Cons have "\<not> job_touches s j t" by (auto simp: reserved_def)
      then have nt: "\<not> job_touches ?s0 j t"
        by (simp add: job_touches_cong [of ?s0 s])
      have "reserved t r ?s0" using assms(2) Cons by (rule reserved_dequeue)
      then have "reserved t r s1" unfolding s1 using nt by (rule reserved_run_job)
      moreover have "sole r p s1" unfolding s1 using a assms(5) by (simp add: sole_run_job)
      moreover have "pstate (promises s1 t) = Pending" "\<not> resolved (promises s1 t)"
        unfolding s1 using run_job_untouched [OF nt] assms(3,4) by simp_all
      ultimately show ?thesis by simp
    next
      assume "pstate (promises s p) \<noteq> Pending \<and> j = ReactionJob r (pstate (promises s p)) \<and>
          gone r ?s0"
      then show ?thesis using Cons by (simp add: s1 run_job_def)
    qed
  qed
next
  case (Resolve q v)
  with assms show ?thesis
    by (auto simp: step_def quiet_def sole_resolve_fn reserved_resolve_fn)
next
  case (Reject q v)
  with assms show ?thesis
    by (auto simp: step_def quiet_def sole_reject_fn reserved_reject_fn)
next
  case (Abort a)
  with assms(6) show ?thesis by (simp add: quiet_def)
qed

lemma quiet_no_abort: "quiet t e \<Longrightarrow> \<forall>a. e \<noteq> Abort a"
  by (auto simp: quiet_def)

text \<open>
  Along a run of quiet events, either the handlers have not run and their promise is
  pending, or they ran in a state of the run where their promise was pending.
\<close>

lemma guarded_cases:
  assumes "run n es s = Some s3" and "\<forall>e\<in>set es. quiet t e"
    and "sole r p s" and "reserved t r s"
    and "pstate (promises s t) = Pending" and "\<not> resolved (promises s t)"
    and "\<forall>t'. r \<noteq> Adopt t'"
  shows "(sole r p s3 \<and> pstate (promises s3 t) = Pending \<and> ops s3 = ops s) \<or>
         (\<exists>s' js es'. evolves s s' \<and> ops s' = ops s \<and>
            pstate (promises s' p) \<noteq> Pending \<and>
            queue s' = ReactionJob r (pstate (promises s' p)) # js \<and>
            pstate (promises s' t) = Pending \<and> \<not> resolved (promises s' t) \<and>
            gone r (s'\<lparr>queue := js\<rparr>) \<and>
            run n es' (run_reaction r (pstate (promises s' p)) (s'\<lparr>queue := js\<rparr>)) = Some s3 \<and>
            (\<forall>e\<in>set es'. quiet t e))"
  using assms
proof (induction es arbitrary: s)
  case Nil
  then show ?case by simp
next
  case (Cons e es)
  from Cons.prems(1) obtain s1 where
    st: "step n e s = Some s1" and rn: "run n es s1 = Some s3"
    by (auto split: option.splits)
  have q: "quiet t e" "\<forall>e\<in>set es. quiet t e" using Cons.prems(2) by simp_all
  have e01: "evolves s s1" using st by (rule evolves_step)
  have o01: "ops s1 = ops s" using st quiet_no_abort [OF q(1)] by (rule step_ops)
  from guarded_step [OF Cons.prems(3,4,5,6,7) q(1) st] show ?case
  proof (elim disjE conjE exE)
    assume g: "sole r p s1" "reserved t r s1" "pstate (promises s1 t) = Pending"
      "\<not> resolved (promises s1 t)"
    from Cons.IH [OF rn q(2) g Cons.prems(7)] show ?thesis
    proof (elim disjE conjE exE)
      assume "sole r p s3" "pstate (promises s3 t) = Pending" "ops s3 = ops s1"
      then show ?thesis using o01 by simp
    next
      fix s' js es'
      assume a: "evolves s1 s'" "ops s' = ops s1" "pstate (promises s' p) \<noteq> Pending"
        "queue s' = ReactionJob r (pstate (promises s' p)) # js"
        "pstate (promises s' t) = Pending" "\<not> resolved (promises s' t)"
        "gone r (s'\<lparr>queue := js\<rparr>)"
        "run n es' (run_reaction r (pstate (promises s' p)) (s'\<lparr>queue := js\<rparr>)) = Some s3"
        "\<forall>e\<in>set es'. quiet t e"
      have "evolves s s'" using e01 a(1) by (rule evolves_trans)
      moreover have "ops s' = ops s" using a(2) o01 by simp
      ultimately show ?thesis using a(3-9) by blast
    qed
  next
    fix js
    assume f: "pstate (promises s p) \<noteq> Pending"
      "queue s = ReactionJob r (pstate (promises s p)) # js"
      "s1 = run_reaction r (pstate (promises s p)) (s\<lparr>queue := js\<rparr>)"
      "gone r (s\<lparr>queue := js\<rparr>)"
    have "evolves s s \<and> ops s = ops s \<and> pstate (promises s p) \<noteq> Pending \<and>
        queue s = ReactionJob r (pstate (promises s p)) # js \<and>
        pstate (promises s t) = Pending \<and> \<not> resolved (promises s t) \<and>
        gone r (s\<lparr>queue := js\<rparr>) \<and>
        run n es (run_reaction r (pstate (promises s p)) (s\<lparr>queue := js\<rparr>)) = Some s3 \<and>
        (\<forall>e\<in>set es. quiet t e)"
      using f rn q(2) Cons.prems(5,6) by simp
    then show ?thesis by blast
  qed
qed

text \<open>With the queue empty and \<open>p\<close> settled at the end, they ran.\<close>

lemma guarded_run:
  assumes "run n es s = Some s3" and "\<forall>e\<in>set es. quiet t e"
    and "sole r p s" and "reserved t r s"
    and "pstate (promises s t) = Pending" and "\<not> resolved (promises s t)"
    and "\<forall>t'. r \<noteq> Adopt t'" and "p < nextPromise s"
    and "queue s3 = []" and "pstate (promises s3 p) \<noteq> Pending"
  shows "\<exists>s' js es'. evolves s s' \<and> ops s' = ops s \<and>
           queue s' = ReactionJob r (pstate (promises s3 p)) # js \<and>
           pstate (promises s' t) = Pending \<and> \<not> resolved (promises s' t) \<and>
           gone r (s'\<lparr>queue := js\<rparr>) \<and>
           run n es' (run_reaction r (pstate (promises s3 p)) (s'\<lparr>queue := js\<rparr>)) = Some s3 \<and>
           (\<forall>e\<in>set es'. quiet t e)"
proof -
  from guarded_cases [OF assms(1-7)] show ?thesis
  proof (elim disjE conjE exE)
    assume "sole r p s3"
    then have "awaiting r p s3" by (rule sole_awaiting)
    from awaiting_final [OF this assms(9)] assms(10) show ?thesis by simp
  next
    fix s' js es'
    assume a: "evolves s s'" "ops s' = ops s" "pstate (promises s' p) \<noteq> Pending"
      "queue s' = ReactionJob r (pstate (promises s' p)) # js"
      "pstate (promises s' t) = Pending" "\<not> resolved (promises s' t)"
      "gone r (s'\<lparr>queue := js\<rparr>)"
      "run n es' (run_reaction r (pstate (promises s' p)) (s'\<lparr>queue := js\<rparr>)) = Some s3"
      "\<forall>e\<in>set es'. quiet t e"
    let ?t = "run_reaction r (pstate (promises s' p)) (s'\<lparr>queue := js\<rparr>)"
    have p': "p < nextPromise s'"
      using a(1) assms(8) by (simp add: evolves_def settled_kept_def)
    have "evolves (s'\<lparr>queue := js\<rparr>) ?t" by simp
    moreover have "evolves ?t s3" using a(8) by (rule evolves_run)
    ultimately have "evolves (s'\<lparr>queue := js\<rparr>) s3" by (rule evolves_trans)
    with a(3) p' have "pstate (promises s3 p) = pstate (promises s' p)"
      by (simp add: evolves_def settled_kept_def)
    with a show ?thesis by auto
  qed
qed

section \<open>A chain on a heap without dangling references\<close>

lemma no_dangling_gone:
  "no_dangling s \<Longrightarrow> gone (ChainReact (nextChain s)) s"
  "no_dangling s \<Longrightarrow> gone (CatchSilence (nextPromise s)) s"
  by (fastforce simp: no_dangling_def gone_def in_scope_def job_of_def filter_empty_conv
      split: job.splits)+

lemma no_dangling_reserved:
  assumes "no_dangling s"
  shows "reserved (nextPromise s) r s"
proof -
  have "\<not> touches s r' (nextPromise s)" if "in_scope s r'" for r'
    using that by (cases r') (auto simp: in_scope_def touches_def)
  then show ?thesis
    using assms
    by (fastforce simp: reserved_def no_dangling_def job_touches_def split: job.splits)
qed

lemma sole_then_reaction_new:
  assumes "gone r s"
  shows "sole r p (then_reaction p r s)"
proof (cases "pstate (promises s p)")
  case Pending
  with assms show ?thesis
    by (auto simp: sole_def gone_def then_reaction_def filter_eq_Nil_notin)
next
  case (Fulfilled v)
  with assms show ?thesis
    by (auto simp: sole_def gone_def then_reaction_def job_of_def)
next
  case (Rejected e)
  with assms show ?thesis
    by (auto simp: sole_def gone_def then_reaction_def job_of_def)
qed

lemma gone_new_promise: "gone r s \<Longrightarrow> gone r (snd (new_promise st res s))"
  by (simp add: gone_def)

lemma gone_catch_silence:
  "gone r s \<Longrightarrow> r \<noteq> CatchSilence (nextPromise s) \<Longrightarrow> gone r (snd (catch_silence p s))"
  unfolding catch_silence_def case_prod_unfold
  by (simp add: gone_then_reaction gone_new_promise)

lemma chain_op_sole:
  assumes "no_dangling s"
  shows "sole (ChainReact (nextChain s)) (promise (ops s a)) (snd (chain_op a onS onE s))"
proof -
  let ?r = "ChainReact (nextChain s)"
  let ?s1 = "snd (new_promise Pending False s)"
  let ?s2 = "snd (catch_silence (nextPromise s) ?s1)"
  let ?s3 = "?s2\<lparr>links := (links ?s2)(nextChain ?s2 :=
                    \<lparr>thisOp = a, newPromise = nextPromise s, onSuccess = onS, onError = onE,
                     abortVar = AbortThis\<rparr>),
                  nextChain := Suc (nextChain ?s2)\<rparr>"
  let ?s4 = "then_reaction (promise (ops s a)) ?r ?s3"
  have "gone ?r ?s1" using no_dangling_gone(1) [OF assms] by (rule gone_new_promise)
  then have "gone ?r ?s2" by (rule gone_catch_silence) simp
  then have "gone ?r ?s3" by (simp add: gone_def)
  then have "sole ?r (promise (ops s a)) ?s4" by (rule sole_then_reaction_new)
  moreover have "promises (snd (chain_op a onS onE s)) = promises ?s4"
    "queue (snd (chain_op a onS onE s)) = queue ?s4"
    by (simp_all add: chain_op_def case_prod_unfold Let_def)
  ultimately show ?thesis by (simp add: sole_def)
qed

lemma chain_op_reactions:
  "r' \<in> set (reactions (promises (snd (chain_op a onS onE s)) q)) \<Longrightarrow>
   r' = ChainReact (nextChain s) \<or> r' = CatchSilence (Suc (nextPromise s)) \<or>
   r' \<in> set (reactions (promises s q))"
  by (auto simp: chain_op_def case_prod_unfold Let_def catch_silence_def then_reaction_def
      new_promise_def new_operation_def split: pstate.splits if_splits)

lemma chain_op_queue:
  "j \<in> set (queue (snd (chain_op a onS onE s))) \<Longrightarrow>
   j \<in> set (queue s) \<or> (\<exists>out. j = ReactionJob (ChainReact (nextChain s)) out)"
  by (auto simp: chain_op_def case_prod_unfold Let_def catch_silence_def then_reaction_def
      new_promise_def new_operation_def split: pstate.splits if_splits)

lemma chain_op_alls [simp]: "alls (snd (chain_op a onS onE s)) = alls s"
  by (simp add: chain_op_def case_prod_unfold Let_def)

lemma chain_op_reserved:
  assumes "no_dangling s"
  shows "reserved (nextPromise s) (ChainReact (nextChain s)) (snd (chain_op a onS onE s))"
proof -
  let ?r = "ChainReact (nextChain s)" and ?np = "nextPromise s"
  let ?s1 = "snd (chain_op a onS onE s)"
  have t: "touches ?s1 r' ?np \<longrightarrow> r' = ?r" if "in_scope s r'" for r'
    using that by (cases r') (auto simp: in_scope_def touches_def)
  show ?thesis
    unfolding reserved_def
  proof (intro conjI allI ballI impI)
    fix q r'
    assume a: "r' \<in> set (reactions (promises ?s1 q))" "touches ?s1 r' ?np"
    from chain_op_reactions [OF a(1)] show "r' = ?r"
    proof (elim disjE)
      assume "r' = CatchSilence (Suc ?np)"
      with a(2) show ?thesis by (simp add: touches_def)
    next
      assume "r' \<in> set (reactions (promises s q))"
      with assms have "in_scope s r'" by (auto simp: no_dangling_def)
      with t a(2) show ?thesis by blast
    qed
  next
    fix j
    assume a: "j \<in> set (queue ?s1)" "job_touches ?s1 j ?np"
    from chain_op_queue [OF a(1)] show "job_of ?r j"
    proof (elim disjE exE)
      assume j: "j \<in> set (queue s)"
      show ?thesis
      proof (cases j)
        case (ReactionJob r' out)
        with j assms have "in_scope s r'" by (auto simp: no_dangling_def)
        with t a(2) ReactionJob show ?thesis by (auto simp: job_touches_def job_of_def)
      next
        case (ThenableJob t q)
        with j assms a(2) show ?thesis by (auto simp: no_dangling_def job_touches_def)
      qed
    qed (simp add: job_of_def)
  qed
qed

section \<open>What the success continuation makes of the result\<close>

lemma reject_fn_pending':
  "pstate (promises s p) = Pending \<Longrightarrow> \<not> resolved (promises s p) \<Longrightarrow>
   pstate (promises (reject_fn p e s) p) = Rejected e"
  by (rule reject_fn_pending)

lemma resolve_fn_plain:
  "\<not> thenable v \<Longrightarrow> pstate (promises s p) = Pending \<Longrightarrow> \<not> resolved (promises s p) \<Longrightarrow>
   pstate (promises (resolve_fn p v s) p) = Fulfilled v"
  by (cases v) (simp_all add: resolve_fn_def resolution_def settle_def mark_resolved_def thenable_def)

text \<open>
  The state in which the handlers of the chain run, when nothing was aborted: the
  promise of the chain is pending, and the upstream operation has no abort promise.
\<close>

lemma chain_fires:
  assumes "no_dangling s" and "promise (ops s a) < nextPromise s"
    and "chain_op a onS onE s = (b, s1)"
    and "run n es s1 = Some s3" and "\<forall>e\<in>set es. quiet (nextPromise s) e"
    and "queue s3 = []" and "pstate (promises s3 (promise (ops s a))) = out" and "out \<noteq> Pending"
  shows "\<exists>t es'. evolves s1 t \<and> ops t = ops s1 \<and>
           pstate (promises t (nextPromise s)) = Pending \<and>
           \<not> resolved (promises t (nextPromise s)) \<and>
           gone (ChainReact (nextChain s)) t \<and>
           run n es' (run_reaction (ChainReact (nextChain s)) out t) = Some s3 \<and>
           (\<forall>e\<in>set es'. quiet (nextPromise s) e)"
proof -
  let ?np = "nextPromise s" and ?c = "nextChain s" and ?ap = "promise (ops s a)"
  from assms(3) have s1: "s1 = snd (chain_op a onS onE s)" by (simp add: prod_eq_iff)
  have so: "sole (ChainReact ?c) ?ap s1" unfolding s1 using assms(1) by (rule chain_op_sole)
  have re: "reserved ?np (ChainReact ?c) s1" unfolding s1 using assms(1) by (rule chain_op_reserved)
  have pn: "pstate (promises s1 ?np) = Pending" "\<not> resolved (promises s1 ?np)"
    by (simp_all add: s1)
  have ap: "?ap < nextPromise s1" using assms(2) by (simp add: s1)
  from guarded_run [OF assms(4,5) so re pn _ ap assms(6)] assms(7,8) obtain s' js es' where
    g: "evolves s1 s'" "ops s' = ops s1"
      "pstate (promises s' ?np) = Pending" "\<not> resolved (promises s' ?np)"
      "gone (ChainReact ?c) (s'\<lparr>queue := js\<rparr>)"
      "run n es' (run_reaction (ChainReact ?c) out (s'\<lparr>queue := js\<rparr>)) = Some s3"
      "\<forall>e\<in>set es'. quiet ?np e"
    by auto
  have "evolves s1 (s'\<lparr>queue := js\<rparr>)"
    using g(1) evolves_queue by (rule evolves_trans)
  with g show ?thesis
    by (intro exI [of _ "s'\<lparr>queue := js\<rparr>"] exI [of _ es']) simp
qed

lemma chain_op_link:
  "chain_op a onS onE s = (b, s1) \<Longrightarrow> evolves s1 t \<Longrightarrow>
   thisOp (links t (nextChain s)) = a \<and> newPromise (links t (nextChain s)) = nextPromise s \<and>
   onSuccess (links t (nextChain s)) = onS \<and> onError (links t (nextChain s)) = onE \<and>
   promise (ops t b) = nextPromise s \<and> onAbort (ops t b) = ChainAbort (nextChain s) \<and>
   nextPromise s < nextPromise t"
  by (auto simp: evolves_def prod_eq_iff settled_kept_def)

lemma chain_op_upstream_flag:
  "chain_op a onS onE s = (b, s1) \<Longrightarrow> abortPromise (ops s a) = None \<Longrightarrow>
   abortPromise (ops s1 a) = None \<and> abortPromise (ops s1 b) = None"
  by (auto simp: prod_eq_iff)

lemma kept_to_end:
  assumes "run n es t = Some s3" and "pstate (promises t p) \<noteq> Pending" and "p < nextPromise t"
  shows "pstate (promises s3 p) = pstate (promises t p)"
  using evolves_run [OF assms(1)] assms(2,3) by (simp add: evolves_def settled_kept_def)

lemma chain_success_result:
  assumes "no_dangling s" and "promise (ops s a) < nextPromise s"
    and "abortPromise (ops s a) = None"
    and "chain_op a onS onE s = (b, s1)"
    and "run n es s1 = Some s3" and "\<forall>e\<in>set es. quiet (nextPromise s) e"
    and "queue s3 = []" and "pstate (promises s3 (promise (ops s a))) = Fulfilled v"
  shows "(onS = None \<longrightarrow> \<not> thenable v \<longrightarrow>
            pstate (promises s3 (promise (ops s3 b))) = Fulfilled v) \<and>
         (\<forall>f w. onS = Some f \<longrightarrow> f v = Return w \<longrightarrow> plain w \<longrightarrow>
            pstate (promises s3 (promise (ops s3 b))) = Fulfilled w)"
proof -
  let ?np = "nextPromise s" and ?c = "nextChain s"
  from chain_fires [OF assms(1,2,4,5,6,7,8)] obtain t es' where
    t: "evolves s1 t" "ops t = ops s1"
      "pstate (promises t ?np) = Pending" "\<not> resolved (promises t ?np)" and
    rn: "run n es' (run_reaction (ChainReact ?c) (Fulfilled v) t) = Some s3"
    by auto
  note lk = chain_op_link [OF assms(4) t(1)]
  have fl: "abortPromise (ops t (thisOp (links t ?c))) = None"
    using chain_op_upstream_flag [OF assms(4,3)] lk t(2) by simp
  have pb: "promise (ops s3 b) = ?np"
    using chain_op_link [OF assms(4) evolves_run [OF assms(5)]] by simp
  let ?t' = "makeCallback ?c True v t"
  have rn': "run n es' ?t' = Some s3" using rn by (simp add: run_reaction_def)
  have np': "?np < nextPromise ?t'" using lk by (simp add: grows_next [OF grows_makeCallback])
  have 1: "pstate (promises s3 ?np) = Fulfilled v" if "onS = None" "\<not> thenable v"
  proof -
    have "?t' = resolve_fn ?np v t"
      using makeCallback_pass [of True t ?c v] fl lk that(1) by simp
    then have "pstate (promises ?t' ?np) = Fulfilled v"
      using resolve_fn_plain [OF that(2) t(3,4)] by simp
    with kept_to_end [OF rn' _ np'] show ?thesis by simp
  qed
  have 2: "pstate (promises s3 ?np) = Fulfilled w" if "onS = Some f" "f v = Return w" "plain w" for f w
  proof -
    let ?t0 = "t\<lparr>calls := calls t @ [CallbackCalled ?c True v]\<rparr>"
    have nt: "\<not> thenable w" using that(3) by (cases w) (simp_all add: plain_def thenable_def)
    have w: "wrapChainCallback ?c True f v ?np t = (AwaitRet w, resolve_fn ?np w ?t0)"
      using that(2,3) by (cases w) (simp_all add: wrapChainCallback_unfold plain_def)
    have "?t' = (resolve_fn ?np w ?t0)\<lparr>links := (links (resolve_fn ?np w ?t0))
        (?c := (links (resolve_fn ?np w ?t0) ?c)\<lparr>abortVar := AwaitRet w\<rparr>)\<rparr>"
      using makeCallback_call [of True t ?c f v] fl lk that(1) by (simp add: w Let_def)
    moreover have "pstate (promises (resolve_fn ?np w ?t0) ?np) = Fulfilled w"
      using t(3,4) by (intro resolve_fn_plain [OF nt]) simp_all
    ultimately have "pstate (promises ?t' ?np) = Fulfilled w" by simp
    with kept_to_end [OF rn' _ np'] show ?thesis by simp
  qed
  from 1 2 show ?thesis by (simp add: pb)
qed

lemma chain_throw_result:
  assumes "no_dangling s" and "promise (ops s a) < nextPromise s"
    and "abortPromise (ops s a) = None"
    and "chain_op a (Some f) onE s = (b, s1)"
    and "run n es s1 = Some s3" and "\<forall>e\<in>set es. quiet (nextPromise s) e"
    and "queue s3 = []" and "pstate (promises s3 (promise (ops s a))) = Fulfilled v"
    and "f v = Throw boom"
  shows "pstate (promises s3 (promise (ops s3 b))) = Rejected boom \<and>
         (\<exists>q s4. abort (Suc k) b s3 = Some (q, s4) \<and>
            pstate (promises s4 q) = Fulfilled Undefined \<and>
            new_calls s3 s4 = [OnAbortCalled b] \<and> queue s4 = queue s3 \<and>
            promises s4 = (promises s3)(q :=
              \<lparr>pstate = Fulfilled Undefined, resolved = True, handled = False, reactions = []\<rparr>))"
proof -
  let ?np = "nextPromise s" and ?c = "nextChain s"
  from chain_fires [OF assms(1,2,4,5,6,7,8)] obtain t es' where
    t: "evolves s1 t" "ops t = ops s1"
      "pstate (promises t ?np) = Pending" "\<not> resolved (promises t ?np)"
      "gone (ChainReact ?c) t" and
    rn: "run n es' (run_reaction (ChainReact ?c) (Fulfilled v) t) = Some s3" and
    qt: "\<forall>e\<in>set es'. quiet ?np e"
    by auto
  note lk = chain_op_link [OF assms(4) t(1)]
  have fl: "abortPromise (ops t (thisOp (links t ?c))) = None"
    using chain_op_upstream_flag [OF assms(4,3)] lk t(2) by simp
  have pb: "promise (ops s3 b) = ?np" "onAbort (ops s3 b) = ChainAbort ?c"
    using chain_op_link [OF assms(4) evolves_run [OF assms(5)]] by simp_all
  let ?t' = "makeCallback ?c True v t"
  let ?t0 = "t\<lparr>calls := calls t @ [CallbackCalled ?c True v]\<rparr>"
  have rn': "run n es' ?t' = Some s3" using rn by (simp add: run_reaction_def)
  have np': "?np < nextPromise ?t'" using lk by (simp add: grows_next [OF grows_makeCallback])
  have w: "wrapChainCallback ?c True f v ?np t = (NoCleanup, reject_fn ?np boom ?t0)"
    using assms(9) by (simp add: wrapChainCallback_unfold)
  have t': "?t' = (reject_fn ?np boom ?t0)\<lparr>links := (links (reject_fn ?np boom ?t0))
      (?c := (links (reject_fn ?np boom ?t0) ?c)\<lparr>abortVar := NoCleanup\<rparr>)\<rparr>"
    using makeCallback_call [of True t ?c f v] fl lk by (simp add: w Let_def)
  have "pstate (promises (reject_fn ?np boom ?t0) ?np) = Rejected boom"
    using t(3,4) by (intro reject_fn_pending) simp_all
  then have "pstate (promises ?t' ?np) = Rejected boom" by (simp add: t')
  with kept_to_end [OF rn' _ np'] have res: "pstate (promises s3 ?np) = Rejected boom" by simp
  have g': "gone (ChainReact ?c) ?t'"
    using gone_makeCallback [OF t(5)] .
  have na: "\<forall>e\<in>set es'. \<forall>a. e \<noteq> Abort a" using qt quiet_no_abort by blast
  from gone_run [OF rn' g' na] have
    l3: "links s3 ?c = links ?t' ?c" and o3: "ops s3 = ops ?t'"
    by simp_all
  have av: "abortVar (links s3 ?c) = NoCleanup" by (simp add: l3 t')
  have "ops ?t' = ops t" by (simp add: t')
  then have fb: "abortPromise (ops s3 b) = None"
    using chain_op_upstream_flag [OF assms(4,3)] t(2) o3 by simp
  have "\<exists>q s4. abort (Suc k) b s3 = Some (q, s4) \<and>
            pstate (promises s4 q) = Fulfilled Undefined \<and>
            new_calls s3 s4 = [OnAbortCalled b] \<and> queue s4 = queue s3 \<and>
            promises s4 = (promises s3)(q :=
              \<lparr>pstate = Fulfilled Undefined, resolved = True, handled = False, reactions = []\<rparr>)"
    using fb pb(2) av
    by (simp add: promise_resolve_def new_promise_def new_calls_def)
  with res pb(1) show ?thesis by simp
qed

section \<open>An operation that cannot be aborted\<close>

lemma reserved_then_reaction_own:
  "reserved t r s \<Longrightarrow> reserved t r (then_reaction q r s)"
  unfolding reserved_def
proof (intro conjI allI ballI impI)
  fix q' r'
  assume a: "(\<forall>q. \<forall>r'\<in>set (reactions (promises s q)). touches s r' t \<longrightarrow> r' = r) \<and>
      (\<forall>j\<in>set (queue s). job_touches s j t \<longrightarrow> job_of r j)"
    and b: "r' \<in> set (reactions (promises (then_reaction q r s) q'))"
      "touches (then_reaction q r s) r' t"
  have "touches s r' t" using b(2) by (simp add: touches_static [of "then_reaction q r s" s])
  moreover from b(1) have "r' = r \<or> r' \<in> set (reactions (promises s q'))"
    by (auto simp: then_reaction_def split: pstate.splits if_splits)
  ultimately show "r' = r" using a by blast
next
  fix j
  assume a: "(\<forall>q. \<forall>r'\<in>set (reactions (promises s q)). touches s r' t \<longrightarrow> r' = r) \<and>
      (\<forall>j\<in>set (queue s). job_touches s j t \<longrightarrow> job_of r j)"
    and b: "j \<in> set (queue (then_reaction q r s))" "job_touches (then_reaction q r s) j t"
  have "job_touches s j t"
    using b(2) by (simp add: job_touches_cong [of "then_reaction q r s" s])
  moreover from b(1) have "job_of r j \<or> j \<in> set (queue s)"
    by (auto simp: then_reaction_def job_of_def split: pstate.splits)
  ultimately show "job_of r j" using a by blast
qed

lemma reserved_new_promise:
  "reserved t r s \<Longrightarrow> reserved t r (snd (new_promise st res s))"
  by (erule reservedI) (auto split: if_splits)

lemma catch_silence_guard:
  assumes "no_dangling s" and "p < nextPromise s"
  shows "sole (CatchSilence (nextPromise s)) p (snd (catch_silence p s))"
    and "reserved (nextPromise s) (CatchSilence (nextPromise s)) (snd (catch_silence p s))"
    and "pstate (promises (snd (catch_silence p s)) (nextPromise s)) = Pending"
    and "\<not> resolved (promises (snd (catch_silence p s)) (nextPromise s))"
proof -
  let ?d = "nextPromise s"
  let ?s1 = "snd (new_promise Pending False s)"
  have cs: "snd (catch_silence p s) = then_reaction p (CatchSilence ?d) ?s1"
    by (simp add: catch_silence_def case_prod_unfold)
  have "gone (CatchSilence ?d) ?s1"
    using no_dangling_gone(2) [OF assms(1)] by (rule gone_new_promise)
  then show "sole (CatchSilence ?d) p (snd (catch_silence p s))"
    unfolding cs by (rule sole_then_reaction_new)
  have "reserved ?d (CatchSilence ?d) ?s1"
    using no_dangling_reserved [OF assms(1)] by (rule reserved_new_promise)
  then show "reserved ?d (CatchSilence ?d) (snd (catch_silence p s))"
    unfolding cs by (rule reserved_then_reaction_own)
  show "pstate (promises (snd (catch_silence p s)) ?d) = Pending"
    "\<not> resolved (promises (snd (catch_silence p s)) ?d)"
    by simp_all
qed

lemma guard_cong:
  assumes "promises s1 = promises s" and "queue s1 = queue s" and "links s1 = links s"
    and "alls s1 = alls s"
  shows "sole r p s1 = sole r p s" and "reserved t r s1 = reserved t r s"
proof -
  show "sole r p s1 = sole r p s" using assms by (simp add: sole_def)
  have "touches s1 r' t = touches s r' t" for r'
    using assms by (simp add: touches_cong [of s1 s])
  moreover have "job_touches s1 j t = job_touches s j t" for j
    using assms by (simp add: job_touches_cong [of s1 s])
  ultimately show "reserved t r s1 = reserved t r s"
    using assms by (simp add: reserved_def)
qed

lemma notAbortable_abort:
  assumes "notAbortable p s = (a, s1)"
  shows "promise (ops s1 a) = p"
    and "abort (Suc k) a s1 =
      Some (nextPromise s,
        (snd (catch_silence p (s1\<lparr>calls := calls s1 @ [OnAbortCalled a]\<rparr>)))
          \<lparr>ops := (ops s1)(a := (ops s1 a)\<lparr>abortPromise := Some (nextPromise s)\<rparr>)\<rparr>)"
  using assms
  by (auto simp: notAbortable_def new_operation_def prod_eq_iff case_prod_unfold)

lemma in_scope_cong:
  "nextChain s1 = nextChain s \<Longrightarrow> links s1 = links s \<Longrightarrow> nextPromise s1 = nextPromise s \<Longrightarrow>
   nextAll s1 = nextAll s \<Longrightarrow> alls s1 = alls s \<Longrightarrow> in_scope s1 r = in_scope s r"
  by (simp add: in_scope_def split: reaction.split)

lemma no_dangling_cong:
  assumes "nextChain s1 = nextChain s" and "links s1 = links s"
    and "nextPromise s1 = nextPromise s" and "nextAll s1 = nextAll s" and "alls s1 = alls s"
    and "promises s1 = promises s" and "queue s1 = queue s"
  shows "no_dangling s1 = no_dangling s"
proof -
  have "in_scope s1 r = in_scope s r" for r
    using assms(1-5) by (rule in_scope_cong)
  then show ?thesis
    using assms by (simp add: no_dangling_def cong: job.case_cong)
qed

lemma notAbortable_outcome:
  assumes "no_dangling s" and "p < nextPromise s"
    and "notAbortable p s = (a, s1)" and "abort (Suc k) a s1 = Some (d, s2)"
    and "run n es s2 = Some s3" and "\<forall>e\<in>set es. quiet d e"
  shows "(pstate (promises s3 d) = Pending \<and> (queue s3 = [] \<longrightarrow> pstate (promises s3 p) = Pending)) \<or>
         (\<exists>v. pstate (promises s3 p) = Fulfilled v \<and>
              (thenable v \<or> pstate (promises s3 d) = Fulfilled v)) \<or>
         (\<exists>e. pstate (promises s3 p) = Rejected e \<and> pstate (promises s3 d) = Fulfilled Undefined)"
proof -
  let ?r = "CatchSilence d"
  let ?s0 = "s\<lparr>calls := calls s @ [OnAbortCalled a]\<rparr>"
  from assms(3) have s1: "s1 = snd (new_operation p (CatchOf p) s)" and a: "a = nextOp s"
    by (simp_all add: notAbortable_def prod_eq_iff)
  from assms(4) notAbortable_abort(2) [OF assms(3), of k] have
    d: "d = nextPromise s" and
    s2: "s2 = (snd (catch_silence p (s1\<lparr>calls := calls s1 @ [OnAbortCalled a]\<rparr>)))
          \<lparr>ops := (ops s1)(a := (ops s1 a)\<lparr>abortPromise := Some (nextPromise s)\<rparr>)\<rparr>"
    by simp_all
  let ?sc = "s1\<lparr>calls := calls s1 @ [OnAbortCalled a]\<rparr>"
  have "no_dangling ?sc = no_dangling s"
    by (rule no_dangling_cong) (simp_all add: s1)
  with assms(1) have nd: "no_dangling ?sc" by simp
  have pc: "p < nextPromise ?sc" "nextPromise ?sc = d" using assms(2) by (simp_all add: s1 d)
  note g = catch_silence_guard [OF nd pc(1), unfolded pc(2)]
  have cong: "promises s2 = promises (snd (catch_silence p ?sc))"
    "queue s2 = queue (snd (catch_silence p ?sc))"
    "links s2 = links (snd (catch_silence p ?sc))"
    "alls s2 = alls (snd (catch_silence p ?sc))"
    by (simp_all add: s2)
  have so: "sole ?r p s2" and re: "reserved d ?r s2"
    using g(1,2) guard_cong [OF cong] by simp_all
  have pd: "pstate (promises s2 d) = Pending" "\<not> resolved (promises s2 d)"
    using g(3,4) by (simp_all add: cong)
  have p2: "p < nextPromise s2" using assms(2) by (simp add: s2 s1)
  have na: "\<forall>t'. ?r \<noteq> Adopt t'" by simp
  from guarded_cases [OF assms(5,6) so re pd na] show ?thesis
  proof (elim disjE conjE exE)
    assume "sole ?r p s3" and pend: "pstate (promises s3 d) = Pending"
    then have "awaiting ?r p s3" using sole_awaiting by simp
    then have "queue s3 = [] \<longrightarrow> pstate (promises s3 p) = Pending"
      using awaiting_final by blast
    with pend show ?thesis by simp
  next
    fix s' js es'
    assume f: "evolves s2 s'" "pstate (promises s' p) \<noteq> Pending"
      "pstate (promises s' d) = Pending" "\<not> resolved (promises s' d)"
      "run n es' (run_reaction ?r (pstate (promises s' p)) (s'\<lparr>queue := js\<rparr>)) = Some s3"
    let ?t = "s'\<lparr>queue := js\<rparr>"
    let ?t' = "run_reaction ?r (pstate (promises s' p)) ?t"
    have p': "p < nextPromise s'" "d < nextPromise s'"
      using f(1) p2 by (simp_all add: evolves_def settled_kept_def s2 s1 d)
    have "evolves ?t ?t'" by simp
    then have n': "p < nextPromise ?t'" "d < nextPromise ?t'"
      using p' by (simp_all add: evolves_def settled_kept_def)
    have pt: "pstate (promises ?t' p) = pstate (promises s' p)"
      using \<open>evolves ?t ?t'\<close> f(2) p'(1) by (simp add: evolves_def settled_kept_def)
    have p3: "pstate (promises s3 p) = pstate (promises s' p)"
      using kept_to_end [OF f(5) _ n'(1)] pt f(2) by simp
    show ?thesis
    proof (cases "pstate (promises s' p)")
      case Pending
      with f(2) show ?thesis by simp
    next
      case (Fulfilled v)
      show ?thesis
      proof (cases "thenable v")
        case True
        with Fulfilled p3 show ?thesis by simp
      next
        case False
        have "pstate (promises (resolve_fn d v ?t) d) = Fulfilled v"
          using f(3,4) by (intro resolve_fn_plain [OF False]) simp_all
        then have "pstate (promises ?t' d) = Fulfilled v"
          by (simp add: Fulfilled run_reaction_def)
        with kept_to_end [OF f(5) _ n'(2)] Fulfilled p3 show ?thesis by simp
      qed
    next
      case (Rejected e)
      have "pstate (promises (resolve_fn d Undefined ?t) d) = Fulfilled Undefined"
        using f(3,4) by (intro resolve_fn_plain) (simp_all add: thenable_def)
      then have "pstate (promises ?t' d) = Fulfilled Undefined"
        by (simp add: Rejected run_reaction_def)
      with kept_to_end [OF f(5) _ n'(2)] Rejected p3 show ?thesis by simp
    qed
  qed
qed

section \<open>Examples\<close>

lemmas heap_defs =
  new_promise_def settle_def resolution_def mark_resolved_def resolve_fn_def reject_fn_def
  then_reaction_def promise_resolve_def promise_reject_def catch_silence_def then_void_def
  new_operation_def chain_op_def leaf_heap_def empty_heap_def step_def run_job_def
  run_reaction_def makeCallback_def wrapChainCallback_def invoke_def throwing_def double_def abortError_def
  all_begin_def all_element_def all_countdown_def all_store_def promise_all_def
  completed_def failed_def notAbortable_def all_op_def
  case_prod_unfold Let_def

lemma no_dangling_empty_reactions:
  "(\<And>q. reactions (promises s q) = []) \<Longrightarrow> queue s = [] \<Longrightarrow> no_dangling s"
  by (simp add: no_dangling_def)

lemma completed_no_dangling: "no_dangling (snd (completed (Num k) empty_heap))"
  by (rule no_dangling_empty_reactions) (simp_all add: heap_defs)

lemma completed_heap:
  "promise (ops (snd (completed (Num k) empty_heap)) 0) = 0"
  "nextPromise (snd (completed (Num k) empty_heap)) = 1"
  "nextOp (snd (completed (Num k) empty_heap)) = 1"
  "nextChain (snd (completed (Num k) empty_heap)) = 0"
  "abortPromise (ops (snd (completed (Num k) empty_heap)) 0) = None"
  by (simp_all add: heap_defs)

lemma double_run:
  "\<exists>s3. run 1 [Microtask, Microtask]
       (snd (chain_op 0 (Some double) None (snd (completed (Num 2) empty_heap)))) = Some s3 \<and>
     queue s3 = [] \<and> pstate (promises s3 0) = Fulfilled (Num 2)"
  by (simp add: heap_defs)

lemma throwing_run:
  "\<exists>s3. run 1 [Microtask, Microtask]
       (snd (chain_op 0 (Some (throwing (Num 7))) None (snd (completed (Num 1) empty_heap)))) = Some s3 \<and>
     queue s3 = [] \<and> pstate (promises s3 0) = Fulfilled (Num 1)"
  by (simp add: heap_defs)

lemma error_run:
  "\<exists>s3. run 2 [Abort 1, Reject 0 (Num 5), Microtask, Microtask]
       (snd (chain_op 0 None (Some (throwing (Num 7))) leaf_heap)) = Some s3 \<and>
     queue s3 = [] \<and> pstate (promises s3 0) = Rejected (Num 5)"
  by (simp add: heap_defs numeral_2_eq_2)

lemma pending_no_dangling: "no_dangling pending_heap"
  by (rule no_dangling_empty_reactions) (simp_all add: pending_heap_def heap_defs)

lemma pending_heap:
  "nextPromise pending_heap = 1" "nextOp pending_heap = 0"
  by (simp_all add: pending_heap_def heap_defs)

lemma notAbortable_run:
  "\<exists>s2 s3. abort 1 0 (snd (notAbortable 0 pending_heap)) = Some (1, s2) \<and>
     run 1 [Resolve 0 (Num 3), Microtask] s2 = Some s3 \<and>
     queue s3 = [] \<and> pstate (promises s3 0) = Fulfilled (Num 3)"
  by (simp add: heap_defs pending_heap_def)

lemma notAbortable_run_rejected:
  "\<exists>s2 s3. abort 1 0 (snd (notAbortable 0 pending_heap)) = Some (1, s2) \<and>
     run 1 [Reject 0 (Num 3), Microtask] s2 = Some s3 \<and>
     queue s3 = [] \<and> pstate (promises s3 0) = Rejected (Num 3)"
  by (simp add: heap_defs pending_heap_def)

section \<open>The one outcome of a chain\<close>



lemma leaf_no_dangling: "no_dangling leaf_heap"
  by (rule no_dangling_empty_reactions) (simp_all add: heap_defs)


section \<open>An abort that comes later, while the upstream promise is pending\<close>

lemma run_append:
  "run n (es @ es') s = (case run n es s of None \<Rightarrow> None | Some s1 \<Rightarrow> run n es' s1)"
  by (induction es arbitrary: s) (simp_all split: option.split)

lemma makeCallback_calls:
  "calls (makeCallback c b v s) = calls s \<or>
   calls (makeCallback c b v s) = calls s @ [CallbackCalled c b v]"
  using makeCallback_forms [of c b v s] by (auto simp: Let_def)

lemma new_calls_eq: "calls s1 = calls s @ cs \<Longrightarrow> new_calls s s1 = cs"
  by (simp add: new_calls_def)

lemma run_job_calls:
  assumes "\<not> job_of (ChainReact c) j"
  shows "CallbackCalled c b v \<notin> set (new_calls s (run_job j s))"
proof (cases j)
  case (ThenableJob t q)
  then show ?thesis by (simp add: run_job_def)
next
  case (ReactionJob r out)
  show ?thesis
  proof (cases r)
    case (ChainReact c')
    with assms ReactionJob have ne: "c' \<noteq> c" by (simp add: job_of_def)
    have "CallbackCalled c b v \<notin> set (new_calls s (makeCallback c' b' v' s))" for b' v'
      using makeCallback_calls [of c' b' v' s] ne
      by (auto simp: new_calls_eq [of _ s "[]"] new_calls_eq [of _ s "[CallbackCalled c' b' v']"])
    then show ?thesis
      using ReactionJob ChainReact by (simp add: run_job_def run_reaction_def split: pstate.split)
  next
    case (AllElement a i d)
    then show ?thesis using ReactionJob
      by (simp add: run_job_def run_reaction_def split: pstate.split)
  qed (use ReactionJob in \<open>simp_all add: run_job_def run_reaction_def resolution_def
        split: pstate.split val.split\<close>)
qed

lemma waits_step:
  assumes so: "sole (ChainReact c) p s" and re: "reserved t (ChainReact c) s"
    and pt: "pstate (promises s t) = Pending" "\<not> resolved (promises s t)"
    and qu: "quiet t e" and st: "step n e s = Some s1"
    and pp: "pstate (promises s p) = Pending"
  shows "sole (ChainReact c) p s1 \<and> reserved t (ChainReact c) s1 \<and>
         pstate (promises s1 t) = Pending \<and> \<not> resolved (promises s1 t) \<and>
         links s1 c = links s c \<and> ops s1 = ops s \<and>
         (\<forall>b v. CallbackCalled c b v \<notin> set (new_calls s s1))"
proof -
  have g: "sole (ChainReact c) p s1 \<and> reserved t (ChainReact c) s1 \<and>
          pstate (promises s1 t) = Pending \<and> \<not> resolved (promises s1 t)"
    using guarded_step [OF so re pt _ qu st] pp by auto
  have o: "ops s1 = ops s" using st quiet_no_abort [OF qu] by (rule step_ops)
  have "links s1 c = links s c \<and> (\<forall>b v. CallbackCalled c b v \<notin> set (new_calls s s1))"
  proof (cases e)
    case Microtask
    show ?thesis
    proof (cases "queue s")
      case Nil
      with Microtask st show ?thesis by (simp add: step_def)
    next
      case (Cons j js)
      let ?s0 = "s\<lparr>queue := js\<rparr>"
      from Microtask Cons st have s1: "s1 = run_job j ?s0" by (simp add: step_def)
      from sole_head [OF so Cons] pp have nj: "\<not> job_of (ChainReact c) j" by auto
      have "new_calls s s1 = new_calls ?s0 (run_job j ?s0)" by (simp add: new_calls_def s1)
      with run_job_calls [OF nj, of _ _ ?s0] run_job_links [OF nj, of ?s0]
      show ?thesis by (simp add: s1)
    qed
  next
    case (Resolve q v)
    with st show ?thesis by (auto simp: step_def)
  next
    case (Reject q v)
    with st show ?thesis by (auto simp: step_def)
  next
    case (Abort a)
    with qu show ?thesis by (simp add: quiet_def)
  qed
  with g o show ?thesis by simp
qed

lemma waits_run:
  assumes "run n es s = Some s2" and "\<forall>e\<in>set es. quiet t e"
    and "sole (ChainReact c) p s" and "reserved t (ChainReact c) s"
    and "pstate (promises s t) = Pending" and "\<not> resolved (promises s t)"
    and "p < nextPromise s" and "pstate (promises s2 p) = Pending"
  shows "pstate (promises s2 t) = Pending \<and> \<not> resolved (promises s2 t) \<and>
         links s2 c = links s c \<and> ops s2 = ops s \<and>
         (\<forall>b v. CallbackCalled c b v \<notin> set (new_calls s s2))"
  using assms
proof (induction es arbitrary: s)
  case Nil
  then show ?case by simp
next
  case (Cons e es)
  from Cons.prems(1) obtain s1 where
    st: "step n e s = Some s1" and rn: "run n es s1 = Some s2"
    by (auto split: option.splits)
  have q: "quiet t e" "\<forall>e\<in>set es. quiet t e" using Cons.prems(2) by simp_all
  have pp: "pstate (promises s p) = Pending"
  proof (rule ccontr)
    assume "pstate (promises s p) \<noteq> Pending"
    from kept_to_end [OF Cons.prems(1) this Cons.prems(7)] this Cons.prems(8)
    show False by simp
  qed
  from waits_step [OF Cons.prems(3,4,5,6) q(1) st pp] have
    w: "sole (ChainReact c) p s1" "reserved t (ChainReact c) s1"
      "pstate (promises s1 t) = Pending" "\<not> resolved (promises s1 t)"
      "links s1 c = links s c" "ops s1 = ops s"
      "\<forall>b v. CallbackCalled c b v \<notin> set (new_calls s s1)"
    by simp_all
  have e1: "evolves s s1" using st by (rule evolves_step)
  have e2: "evolves s1 s2" using rn by (rule evolves_run)
  have p1: "p < nextPromise s1"
    using e1 Cons.prems(7) by (simp add: evolves_def settled_kept_def)
  from Cons.IH [OF rn q(2) w(1,2,3,4) p1 Cons.prems(8)] have
    r: "pstate (promises s2 t) = Pending" "\<not> resolved (promises s2 t)"
      "links s2 c = links s1 c" "ops s2 = ops s1"
      "\<forall>b v. CallbackCalled c b v \<notin> set (new_calls s1 s2)"
    by simp_all
  have "new_calls s s2 = new_calls s s1 @ new_calls s1 s2" using e1 e2 by (rule new_calls_trans)
  with w r show ?case by simp
qed

lemma chain_abort_effect_later:
  assumes lk: "thisOp (links s2 c) = a" "newPromise (links s2 c) = np"
      "abortVar (links s2 c) = AbortThis"
    and ob: "onAbort (ops s2 b) = ChainAbort c" "abortPromise (ops s2 b) = None"
    and pn: "pstate (promises s2 np) = Pending" "\<not> resolved (promises s2 np)"
      "np < nextPromise s2"
    and ab: "abort n b s2 = Some (q, s2')"
  shows "pstate (promises s2' np) = Rejected abortError"
    and "abortPromise (ops s2' a) \<noteq> None"
    and "abort_keeps s2 s2'"
proof -
  let ?sc = "s2\<lparr>calls := calls s2 @ [OnAbortCalled b]\<rparr>"
  let ?sr = "reject_fn np abortError ?sc"
  from ab obtain k where n: "n = Suc k" by (cases n) auto
  from ab ob lk obtain s' where
    r: "abort k a ?sr = Some (q, s')" and
    s2': "s2' = s'\<lparr>ops := (ops s')(b := (ops s' b)\<lparr>abortPromise := Some q\<rparr>)\<rparr>"
    by (auto simp: n split: option.splits)
  have k3: "abort_keeps ?sr s'" using abort_frame(1) [OF r] .
  have "pstate (promises ?sr np) = Rejected abortError"
    by (rule reject_fn_pending) (simp_all add: pn)
  moreover have "np < nextPromise ?sr" using pn(3) by simp
  ultimately have "pstate (promises s' np) = Rejected abortError"
    using k3 by (auto simp: abort_keeps_def evolves_def settled_kept_def)
  then show "pstate (promises s2' np) = Rejected abortError" by (simp add: s2')
  show "abortPromise (ops s2' a) \<noteq> None"
    using abort_caches [OF r] by (simp add: s2')
  show "abort_keeps s2 s2'" using ab by (rule abort_frame(1))
qed

lemma chain_abort_later:
  assumes nd: "no_dangling s" and ap: "promise (ops s a) < nextPromise s"
    and ch: "chain_op a onS onE s = (b, s1)"
    and r0: "run n es0 s1 = Some s2" and q0: "\<forall>e\<in>set es0. quiet (nextPromise s) e"
    and pend: "pstate (promises s2 (promise (ops s a))) = Pending"
    and r1: "run n (Abort b # es) s2 = Some s3"
  shows "pstate (promises s3 (promise (ops s3 b))) = Rejected abortError"
    and "\<forall>v. CallbackCalled (nextChain s) True v \<notin> set (new_calls s s3)"
proof -
  let ?np = "nextPromise s" and ?c = "nextChain s" and ?ap = "promise (ops s a)"
  from ch have b: "b = nextOp s" and s1: "s1 = snd (chain_op a onS onE s)"
    by (simp_all add: prod_eq_iff)
  have so: "sole (ChainReact ?c) ?ap s1" unfolding s1 using nd by (rule chain_op_sole)
  have re: "reserved ?np (ChainReact ?c) s1" unfolding s1 using nd by (rule chain_op_reserved)
  have pn: "pstate (promises s1 ?np) = Pending" "\<not> resolved (promises s1 ?np)"
    by (simp_all add: s1)
  have ap1: "?ap < nextPromise s1" using ap by (simp add: s1)
  from waits_run [OF r0 q0 so re pn ap1 pend] have
    w: "pstate (promises s2 ?np) = Pending" "\<not> resolved (promises s2 ?np)"
      "links s2 ?c = links s1 ?c" "ops s2 = ops s1"
      "\<forall>b v. CallbackCalled ?c b v \<notin> set (new_calls s1 s2)"
    by simp_all
  from r1 obtain q s2' where
    a: "abort n b s2 = Some (q, s2')" and rn: "run n es s2' = Some s3"
    by (auto simp: step_def split: option.splits)
  have e01: "evolves s1 s2" using r0 by (rule evolves_run)
  have np2: "?np < nextPromise s2"
    using e01 by (simp add: evolves_def settled_kept_def s1)
  have lk: "thisOp (links s2 ?c) = a" "newPromise (links s2 ?c) = ?np"
    "abortVar (links s2 ?c) = AbortThis"
    by (simp_all add: w(3) s1)
  have ob: "onAbort (ops s2 b) = ChainAbort ?c" "abortPromise (ops s2 b) = None"
    by (simp_all add: w(4) s1 b)
  note eff = chain_abort_effect_later [OF lk ob w(1,2) np2 a]
  have e12: "evolves s2 s2'" using eff(3) by (simp add: abort_keeps_def)
  have ev: "evolves s2' s3" using rn by (rule evolves_run)
  have "?np < nextPromise s2'"
    using e12 np2 by (simp add: evolves_def settled_kept_def)
  with ev eff(1) have "pstate (promises s3 ?np) = Rejected abortError"
    by (simp add: evolves_def settled_kept_def)
  moreover have "promise (ops s3 b) = ?np"
    using evolves_trans [OF e01 evolves_trans [OF e12 ev]] by (simp add: evolves_def s1 b)
  ultimately show "pstate (promises s3 (promise (ops s3 b))) = Rejected abortError" by simp
  have la: "thisOp (links s2' ?c) = a"
    using eff(3) lk(1) by (simp add: abort_keeps_def)
  have no3: "CallbackCalled ?c True v \<notin> set (new_calls s2' s3)" for v
    using new_calls_permitted [OF ev, of "CallbackCalled ?c True v"] eff(2) la
    by (auto simp: permitted_def)
  have no2: "CallbackCalled ?c True v \<notin> set (new_calls s2 s2')" for v
    using eff(3) by (auto simp: abort_keeps_def)
  have "new_calls s s3 = new_calls s1 s3" by (simp add: new_calls_def s1)
  also have "\<dots> = new_calls s1 s2 @ new_calls s2 s3"
    using e01 evolves_trans [OF e12 ev] by (rule new_calls_trans)
  also have "new_calls s2 s3 = new_calls s2 s2' @ new_calls s2' s3"
    using e12 ev by (rule new_calls_trans)
  finally show "\<forall>v. CallbackCalled ?c True v \<notin> set (new_calls s s3)"
    using w(5) no2 no3 by simp
qed

lemma later_run:
  "\<exists>s2 s3. run 2 [Microtask, Resolve 1 (Num 3)]
       (snd (chain_op 0 None (Some (throwing (Num 7))) leaf_heap)) = Some s2 \<and>
     pstate (promises s2 0) = Pending \<and>
     run 2 [Abort 1, Reject 0 (Num 5), Microtask, Microtask] s2 = Some s3 \<and>
     queue s3 = [] \<and> pstate (promises s3 0) = Rejected (Num 5)"
  by (simp add: heap_defs numeral_2_eq_2)

section \<open>Promise.all\<close>

subsection \<open>What may settle the result stays what it is\<close>

lemma allowed_static:
  assumes "\<And>c. newPromise (links s1 c) = newPromise (links s c)"
    and "\<And>b. target (alls s1 b) = target (alls s b)"
  shows "allowed a ds r s1 x = allowed a ds r s x"
  by (simp add: allowed_def touches_static [OF assms])

lemma job_allowed_static:
  assumes "\<And>c. newPromise (links s1 c) = newPromise (links s c)"
    and "\<And>b. target (alls s1 b) = target (alls s b)"
  shows "job_allowed a ds r s1 j = job_allowed a ds r s j"
  by (simp add: job_allowed_def allowed_static [OF assms] split: job.split)

lemma closedI:
  assumes "all_closed a ds r s"
    and "\<And>c. newPromise (links s1 c) = newPromise (links s c)"
    and "\<And>b. target (alls s1 b) = target (alls s b)"
    and "\<And>q x. x \<in> set (reactions (promises s1 q)) \<Longrightarrow>
           (\<exists>q'. x \<in> set (reactions (promises s q'))) \<or> allowed a ds r s x"
    and "\<And>j. j \<in> set (queue s1) \<Longrightarrow>
           j \<in> set (queue s) \<or> job_allowed a ds r s j \<or>
           (\<exists>q x out. j = ReactionJob x out \<and> x \<in> set (reactions (promises s q)))"
  shows "all_closed a ds r s1"
proof -
  have ac: "allowed a ds r s1 x = allowed a ds r s x" for x
    using assms(2,3) by (rule allowed_static)
  have jc: "job_allowed a ds r s1 j = job_allowed a ds r s j" for j
    using assms(2,3) by (rule job_allowed_static)
  show ?thesis
    unfolding all_closed_def ac jc
  proof (intro conjI allI ballI)
    fix q x
    assume "x \<in> set (reactions (promises s1 q))"
    with assms(4) [of x q] assms(1) show "allowed a ds r s x"
      by (auto simp: all_closed_def)
  next
    fix j
    assume j: "j \<in> set (queue s1)"
    from assms(5) [OF j] consider "j \<in> set (queue s)" | "job_allowed a ds r s j"
      | q x out where "j = ReactionJob x out" "x \<in> set (reactions (promises s q))"
      by blast
    then show "job_allowed a ds r s j"
    proof cases
      case 1
      with assms(1) show ?thesis by (simp add: all_closed_def)
    next
      case 2
      then show ?thesis .
    next
      case 3
      with assms(1) show ?thesis by (auto simp: all_closed_def job_allowed_def)
    qed
  qed
qed

lemma closed_settle: "all_closed a ds r s \<Longrightarrow> all_closed a ds r (settle q out s)"
  by (erule closedI) (auto simp: settle_def split: if_splits)

lemma closed_mark_resolved: "all_closed a ds r s \<Longrightarrow> all_closed a ds r (mark_resolved q s)"
  by (erule closedI) (auto simp: mark_resolved_def split: if_splits)

lemma closed_enqueue:
  "all_closed a ds r s \<Longrightarrow> job_allowed a ds r s j \<Longrightarrow>
   all_closed a ds r (s\<lparr>queue := queue s @ [j]\<rparr>)"
  by (erule closedI) auto

lemma closed_resolution:
  "all_closed a ds r s \<Longrightarrow> q \<noteq> r \<or> \<not> thenable v \<Longrightarrow> all_closed a ds r (resolution q v s)"
  by (cases v)
     (auto simp: resolution_def closed_settle closed_enqueue job_allowed_def thenable_def)

lemma closed_resolve_fn:
  "all_closed a ds r s \<Longrightarrow> q \<noteq> r \<or> \<not> thenable v \<Longrightarrow> all_closed a ds r (resolve_fn q v s)"
  by (simp add: resolve_fn_def closed_resolution closed_mark_resolved)

lemma closed_reject_fn: "all_closed a ds r s \<Longrightarrow> all_closed a ds r (reject_fn q e s)"
  by (simp add: reject_fn_def closed_settle closed_mark_resolved)

lemma closed_then_reaction:
  "all_closed a ds r s \<Longrightarrow> allowed a ds r s x \<Longrightarrow> all_closed a ds r (then_reaction q x s)"
  by (erule closedI)
     (auto simp: then_reaction_def job_allowed_def split: pstate.splits if_splits)

lemma closed_other:
  "all_closed a ds r s \<Longrightarrow> promises s1 = promises s \<Longrightarrow> queue s1 = queue s \<Longrightarrow>
   (\<And>c. newPromise (links s1 c) = newPromise (links s c)) \<Longrightarrow>
   (\<And>b. target (alls s1 b) = target (alls s b)) \<Longrightarrow> all_closed a ds r s1"
  by (erule closedI) auto

lemma closed_dequeue:
  "all_closed a ds r s \<Longrightarrow> queue s = j # js \<Longrightarrow> all_closed a ds r (s\<lparr>queue := js\<rparr>)"
  by (erule closedI) auto

lemma closed_all_countdown:
  assumes "all_closed a ds r s"
  shows "all_closed a ds r (all_countdown b s)"
proof -
  let ?s1 = "s\<lparr>alls := (alls s)(b := (alls s b)\<lparr>remaining := remaining (alls s b) - 1\<rparr>)\<rparr>"
  have 1: "all_closed a ds r ?s1" using assms by (rule closed_other) simp_all
  then have "all_closed a ds r
      (resolve_fn (target (alls ?s1 b)) (Array (vals (alls ?s1 b))) ?s1)"
    by (rule closed_resolve_fn) (simp add: thenable_def)
  with 1 show ?thesis
    unfolding all_countdown_def Let_def by (simp only: if_split) simp
qed

lemma closed_all_store: "all_closed a ds r s \<Longrightarrow> all_closed a ds r (all_store b i v s)"
  by (erule closed_other) (simp_all add: all_store_def)

lemma closed_wrapChainCallback:
  assumes "all_closed a ds r s" and "np \<noteq> r"
  shows "all_closed a ds r (snd (wrapChainCallback c b cb v np s))"
proof -
  have "all_closed a ds r (s\<lparr>calls := calls s @ [CallbackCalled c b v]\<rparr>)"
    using assms(1) by (rule closed_other) simp_all
  then show ?thesis
    using assms(2)
    by (simp add: wrapChainCallback_unfold closed_resolve_fn closed_reject_fn
        split: cbresult.split val.split)
qed

lemma closed_makeCallback:
  assumes "all_closed a ds r s" and "newPromise (links s c) \<noteq> r"
  shows "all_closed a ds r (makeCallback c b v s)"
proof -
  let ?np = "newPromise (links s c)"
  have "all_closed a ds r ((snd (wrapChainCallback c b cb v ?np s))
      \<lparr>links := (links (snd (wrapChainCallback c b cb v ?np s)))
         (c := (links (snd (wrapChainCallback c b cb v ?np s)) c)\<lparr>abortVar := d\<rparr>)\<rparr>)" for cb d
    using closed_wrapChainCallback [OF assms(1) assms(2), of c b cb v]
    by (rule closed_other) simp_all
  then show ?thesis
    using makeCallback_forms [of c b v s] assms
    by (auto simp: closed_reject_fn closed_resolve_fn Let_def)
qed

lemma closed_run_reaction:
  assumes "all_closed a ds r s" and "\<not> touches s x r \<or> (\<exists>b i d. x = AllElement b i d)"
  shows "all_closed a ds r (run_reaction x out s)"
proof (cases x)
  case (ChainReact c)
  then show ?thesis using assms
    by (simp add: run_reaction_def closed_makeCallback touches_def split: pstate.split)
next
  case (CatchSilence d)
  then show ?thesis using assms
    by (simp add: run_reaction_def closed_resolve_fn touches_def split: pstate.split)
next
  case (ThenVoid d)
  then show ?thesis using assms by (simp add: run_reaction_def closed_resolve_fn touches_def)
next
  case (AllElement b i d)
  have u: "\<not> thenable Undefined" by (simp add: thenable_def)
  have "all_closed a ds r (resolve_fn d Undefined (all_countdown b (all_store b i v s)))" for v
    using assms(1) u by (intro closed_resolve_fn closed_all_countdown closed_all_store) simp_all
  moreover have "all_closed a ds r (resolve_fn d Undefined (reject_fn t e s))" for t e
    using assms(1) u by (intro closed_resolve_fn closed_reject_fn) simp_all
  ultimately show ?thesis using assms(1) AllElement
    by (simp add: run_reaction_def split: pstate.split)
next
  case (Adopt t')
  then show ?thesis using assms
    by (simp add: run_reaction_def closed_resolution closed_settle touches_def
        split: pstate.split)
qed

lemma closed_run_job:
  "all_closed a ds r s \<Longrightarrow> \<not> job_touches s j r \<Longrightarrow> all_closed a ds r (run_job j s)"
  by (cases j)
     (auto simp: run_job_def job_touches_def touches_def allowed_def of_all_def
       intro: closed_run_reaction closed_then_reaction)

subsection \<open>What a job does to an aggregate\<close>

lemma all_countdown_alls:
  "alls (all_countdown b s) = (alls s)(b := (alls s b)\<lparr>remaining := remaining (alls s b) - 1\<rparr>)"
  by (simp add: all_countdown_def Let_def)

lemma resolve_fn_promises_alls:
  "promises (resolve_fn p v (s\<lparr>alls := X\<rparr>)) = promises (resolve_fn p v s)"
  by (cases v) (simp_all add: resolve_fn_def resolution_def settle_def mark_resolved_def)

lemma all_countdown_promises:
  "promises (all_countdown b s) =
     (if remaining (alls s b) - 1 = 0
      then promises (resolve_fn (target (alls s b)) (Array (vals (alls s b))) s)
      else promises s)"
  by (simp add: all_countdown_def Let_def resolve_fn_promises_alls)

lemma resolve_fn_noop: "resolved (promises s p) \<Longrightarrow> resolve_fn p v s = s"
  by (simp add: resolve_fn_def)

lemma reject_fn_noop: "resolved (promises s p) \<Longrightarrow> reject_fn p e s = s"
  by (simp add: reject_fn_def)

lemma resolve_fn_resolved: "resolved (promises (resolve_fn p v s) p)"
  by (cases v) (simp_all add: resolve_fn_def resolution_def settle_def mark_resolved_def)

lemma reject_fn_resolved: "resolved (promises (reject_fn p e s) p)"
  by (simp add: reject_fn_def settle_def mark_resolved_def)

lemma makeCallback_alls: "alls (makeCallback c b v s) = alls s"
  using makeCallback_forms [of c b v s] by (auto simp: Let_def)

lemma run_reaction_alls:
  "\<not> of_all a x \<Longrightarrow> alls (run_reaction x out s) a = alls s a"
  by (cases x)
     (simp_all add: run_reaction_def makeCallback_alls all_countdown_alls all_store_def
       of_all_def resolution_def split: pstate.split val.split)

lemma run_job_alls:
  "\<not> (\<exists>x out. j = ReactionJob x out \<and> of_all a x) \<Longrightarrow> alls (run_job j s) a = alls s a"
  by (cases j) (simp_all add: run_job_def run_reaction_alls)

lemma gone_dequeue: "gone x s \<Longrightarrow> queue s = j # js \<Longrightarrow> gone x (s\<lparr>queue := js\<rparr>)"
  by (auto simp: gone_def split: if_splits)

lemma sole_not_gone: "sole x p s \<Longrightarrow> \<not> gone x s"
  by (auto simp: sole_def gone_def filter_eq_Nil_notin dest: filter_eq_single_in
      split: if_splits)

lemma elt_inject [simp]: "elt a ds i = elt a ds k \<longleftrightarrow> i = k"
  by (auto simp: elt_def)

lemma elt_not_adopt [simp]: "elt a ds i \<noteq> Adopt t"
  by (simp add: elt_def)

lemma all_inv_frame:
  assumes inv: "all_inv a ps ds r F E s"
    and ev: "settled_kept s s1"
    and al: "alls s1 a = alls s a"
    and cl: "all_closed a ds r s1"
    and rr: "pstate (promises s1 r) = pstate (promises s r)"
      "resolved (promises s1 r) = resolved (promises s r)"
    and so: "\<And>i. i < length ps \<Longrightarrow> sole (elt a ds i) (ps ! i) s \<Longrightarrow>
               sole (elt a ds i) (ps ! i) s1"
    and go: "\<And>i. i < length ps \<Longrightarrow> gone (elt a ds i) s \<Longrightarrow> gone (elt a ds i) s1"
  shows "all_inv a ps ds r F E s1"
proof -
  have np: "nextPromise s \<le> nextPromise s1" using ev by (simp add: settled_kept_def)
  have kept: "pstate (promises s1 (ps ! i)) = pstate (promises s (ps ! i))"
    if "i < length ps" "pstate (promises s (ps ! i)) \<noteq> Pending" for i
  proof -
    from inv that(1) have "ps ! i < nextPromise s" by (simp add: all_inv_def)
    with ev that(2) show ?thesis by (simp add: settled_kept_def)
  qed
  have old: "if i \<in> F then gone (elt a ds i) s \<and>
             pstate (promises s (ps ! i)) = Fulfilled (vals (alls s a) ! i)
        else if i \<in> E then gone (elt a ds i) s \<and>
             (\<exists>e. pstate (promises s (ps ! i)) = Rejected e)
        else sole (elt a ds i) (ps ! i) s" if "i < length ps" for i
    using inv that by (simp add: all_inv_def)
  have 1: "length ds = length ps" "F \<subseteq> {..<length ps}" "E \<subseteq> {..<length ps}"
    "\<forall>d\<in>set ds. d \<noteq> r" "F \<inter> E = {}"
    using inv by (simp_all add: all_inv_def)
  have 2: "r < nextPromise s1" "\<forall>p\<in>set ps. p < nextPromise s1"
    using inv np by (auto simp: all_inv_def)
  have 3: "target (alls s1 a) = r" "length (vals (alls s1 a)) = length ps"
    "remaining (alls s1 a) = length ps - card F"
    using inv al by (simp_all add: all_inv_def)
  have 4: "\<forall>i<length ps.
        if i \<in> F then gone (elt a ds i) s1 \<and>
             pstate (promises s1 (ps ! i)) = Fulfilled (vals (alls s1 a) ! i)
        else if i \<in> E then gone (elt a ds i) s1 \<and>
             (\<exists>e. pstate (promises s1 (ps ! i)) = Rejected e)
        else sole (elt a ds i) (ps ! i) s1"
  proof (intro allI impI)
    fix i assume i: "i < length ps"
    show "if i \<in> F then gone (elt a ds i) s1 \<and>
             pstate (promises s1 (ps ! i)) = Fulfilled (vals (alls s1 a) ! i)
        else if i \<in> E then gone (elt a ds i) s1 \<and>
             (\<exists>e. pstate (promises s1 (ps ! i)) = Rejected e)
        else sole (elt a ds i) (ps ! i) s1"
      using old [OF i] kept [OF i] so [OF i] go [OF i] al by (auto split: if_splits)
  qed
  have ek: "pstate (promises s1 (ps ! i)) = pstate (promises s (ps ! i))" if "i \<in> E" for i
  proof -
    from that 1(3) have i: "i < length ps" by auto
    with old [OF i] that have "pstate (promises s (ps ! i)) \<noteq> Pending"
      by (auto split: if_splits)
    with i show ?thesis by (rule kept)
  qed
  have 5: "if E \<noteq> {} then resolved (promises s1 r) \<and>
           (\<exists>i\<in>E. pstate (promises s1 r) = pstate (promises s1 (ps ! i)))
      else if F = {..<length ps} then resolved (promises s1 r) \<and>
           pstate (promises s1 r) = Fulfilled (Array (vals (alls s1 a)))
      else \<not> resolved (promises s1 r) \<and> pstate (promises s1 r) = Pending"
  proof -
    from inv have "if E \<noteq> {} then resolved (promises s r) \<and>
           (\<exists>i\<in>E. pstate (promises s r) = pstate (promises s (ps ! i)))
      else if F = {..<length ps} then resolved (promises s r) \<and>
           pstate (promises s r) = Fulfilled (Array (vals (alls s a)))
      else \<not> resolved (promises s r) \<and> pstate (promises s r) = Pending"
      by (simp add: all_inv_def)
    then show ?thesis using rr al ek by (auto split: if_splits)
  qed
  show ?thesis
    unfolding all_inv_def using 1 2 3 cl 4 5 by blast
qed

subsection \<open>The jobs of other handlers\<close>

lemma all_inv_resolve:
  assumes "all_inv a ps ds r F E s" and "q \<noteq> r"
  shows "all_inv a ps ds r F E (resolve_fn q v s)"
  using assms(1)
proof (rule all_inv_frame)
  show "all_closed a ds r (resolve_fn q v s)"
    using assms by (intro closed_resolve_fn) (simp_all add: all_inv_def)
qed (use assms(2) in \<open>simp_all add: sole_resolve_fn gone_resolve_fn\<close>)

lemma all_inv_reject:
  assumes "all_inv a ps ds r F E s" and "q \<noteq> r"
  shows "all_inv a ps ds r F E (reject_fn q e s)"
  using assms(1)
proof (rule all_inv_frame)
  show "all_closed a ds r (reject_fn q e s)"
    using assms by (intro closed_reject_fn) (simp_all add: all_inv_def)
qed (use assms(2) in \<open>simp_all add: sole_reject_fn gone_reject_fn\<close>)

lemma all_inv_foreign:
  assumes inv: "all_inv a ps ds r F E s" and q: "queue s = j # js"
    and nj: "\<forall>i<length ps. \<not> job_of (elt a ds i) j"
  shows "all_inv a ps ds r F E (run_job j (s\<lparr>queue := js\<rparr>))"
proof -
  let ?s0 = "s\<lparr>queue := js\<rparr>"
  from inv have cl: "all_closed a ds r s" and len: "length ds = length ps"
    by (simp_all add: all_inv_def)
  from cl q have ja: "job_allowed a ds r s j" by (simp add: all_closed_def)
  have nt: "\<not> job_touches s j r" and na: "\<not> (\<exists>x out. j = ReactionJob x out \<and> of_all a x)"
    using ja nj len by (auto simp: job_allowed_def allowed_def job_touches_def job_of_def
        split: job.splits)
  have nt0: "\<not> job_touches ?s0 j r" using nt by (simp add: job_touches_cong [of ?s0 s])
  have "step 0 Microtask s = Some (run_job j ?s0)" using q by (simp add: step_def)
  then have ev: "evolves s (run_job j ?s0)" by (rule evolves_step)
  show ?thesis
    using inv
  proof (rule all_inv_frame)
    show "settled_kept s (run_job j ?s0)" using ev by (simp add: evolves_def)
    show "alls (run_job j ?s0) a = alls s a" using run_job_alls [OF na, of ?s0] by simp
    show "all_closed a ds r (run_job j ?s0)"
      using closed_dequeue [OF cl q] nt0 by (rule closed_run_job)
    show "pstate (promises (run_job j ?s0) r) = pstate (promises s r)"
      "resolved (promises (run_job j ?s0) r) = resolved (promises s r)"
      using run_job_untouched [OF nt0] by simp_all
  next
    fix i assume i: "i < length ps" and "sole (elt a ds i) (ps ! i) s"
    from sole_head [OF this(2) q] nj i have "sole (elt a ds i) (ps ! i) ?s0"
      by (auto simp: job_of_def)
    then show "sole (elt a ds i) (ps ! i) (run_job j ?s0)" by (simp add: sole_run_job)
  next
    fix i assume "gone (elt a ds i) s"
    then have "gone (elt a ds i) ?s0" using q by (rule gone_dequeue)
    then show "gone (elt a ds i) (run_job j ?s0)" by (simp add: gone_run_job)
  qed
qed

subsection \<open>The job of an element\<close>

lemma all_invI:
  assumes "length ds = length ps" and "F \<subseteq> {..<length ps}" and "E \<subseteq> {..<length ps}"
    and "F \<inter> E = {}" and "r < nextPromise s" and "\<forall>p\<in>set ps. p < nextPromise s" and "\<forall>d\<in>set ds. d \<noteq> r"
    and "target (alls s a) = r" and "length (vals (alls s a)) = length ps"
    and "remaining (alls s a) = length ps - card F"
    and "all_closed a ds r s"
    and "\<forall>i<length ps.
        if i \<in> F then gone (elt a ds i) s \<and>
             pstate (promises s (ps ! i)) = Fulfilled (vals (alls s a) ! i)
        else if i \<in> E then gone (elt a ds i) s \<and>
             (\<exists>e. pstate (promises s (ps ! i)) = Rejected e)
        else sole (elt a ds i) (ps ! i) s"
    and "if E \<noteq> {} then resolved (promises s r) \<and>
           (\<exists>i\<in>E. pstate (promises s r) = pstate (promises s (ps ! i)))
      else if F = {..<length ps} then resolved (promises s r) \<and>
           pstate (promises s r) = Fulfilled (Array (vals (alls s a)))
      else \<not> resolved (promises s r) \<and> pstate (promises s r) = Pending"
  shows "all_inv a ps ds r F E s"
  unfolding all_inv_def using assms by (intro conjI)

lemma all_inv_own:
  assumes inv: "all_inv a ps ds r F E s"
    and q: "queue s = ReactionJob (elt a ds i) out # js" and i: "i < length ps"
  shows "\<exists>F' E'. all_inv a ps ds r F' E' (run_reaction (elt a ds i) out (s\<lparr>queue := js\<rparr>))"
proof -
  let ?s0 = "s\<lparr>queue := js\<rparr>"
  let ?s1 = "run_reaction (elt a ds i) out ?s0"
  let ?n = "length ps"
  have old: "if k \<in> F then gone (elt a ds k) s \<and>
             pstate (promises s (ps ! k)) = Fulfilled (vals (alls s a) ! k)
        else if k \<in> E then gone (elt a ds k) s \<and>
             (\<exists>e. pstate (promises s (ps ! k)) = Rejected e)
        else sole (elt a ds k) (ps ! k) s" if "k < ?n" for k
    using inv that by (simp add: all_inv_def)
  have 1: "length ds = ?n" "F \<subseteq> {..<?n}" "E \<subseteq> {..<?n}" "\<forall>d\<in>set ds. d \<noteq> r"
    "r < nextPromise s" "\<forall>p\<in>set ps. p < nextPromise s" "target (alls s a) = r"
    "length (vals (alls s a)) = ?n" "remaining (alls s a) = ?n - card F"
    "all_closed a ds r s" "F \<inter> E = {}"
    using inv by (simp_all add: all_inv_def)
  have rst: "if E \<noteq> {} then resolved (promises s r) \<and>
           (\<exists>i\<in>E. pstate (promises s r) = pstate (promises s (ps ! i)))
      else if F = {..<?n} then resolved (promises s r) \<and>
           pstate (promises s r) = Fulfilled (Array (vals (alls s a)))
      else \<not> resolved (promises s r) \<and> pstate (promises s r) = Pending"
    using inv by (simp add: all_inv_def)
  have ng: "\<not> gone (elt a ds i) s" using q by (simp add: gone_def job_of_def)
  with old [OF i] have iF: "i \<notin> F" "i \<notin> E" and so: "sole (elt a ds i) (ps ! i) s"
    by (auto split: if_splits)
  from sole_head [OF so q] have out: "out = pstate (promises s (ps ! i))" "out \<noteq> Pending"
    and g0: "gone (elt a ds i) ?s0"
    by (auto simp: job_of_def)
  have "step 0 Microtask s = Some ?s1" using q by (simp add: step_def run_job_def)
  then have "evolves s ?s1" by (rule evolves_step)
  then have sk: "settled_kept s ?s1" by (simp add: evolves_def)
  have kept: "pstate (promises ?s1 (ps ! k)) = pstate (promises s (ps ! k))"
    if "k < ?n" "pstate (promises s (ps ! k)) \<noteq> Pending" for k
  proof -
    from 1(6) that(1) have "ps ! k < nextPromise s" by simp
    with sk that(2) show ?thesis by (simp add: settled_kept_def)
  qed
  have 2: "r < nextPromise ?s1" "\<forall>p\<in>set ps. p < nextPromise ?s1"
    using 1(5,6) sk by (auto simp: settled_kept_def)
  have cl1: "all_closed a ds r ?s1"
    using closed_dequeue [OF 1(10) q] by (rule closed_run_reaction) (simp add: elt_def)
  have so1: "sole (elt a ds k) (ps ! k) ?s1"
    if "k \<noteq> i" "sole (elt a ds k) (ps ! k) s" for k
  proof -
    from sole_head [OF that(2) q] that(1) have "sole (elt a ds k) (ps ! k) ?s0"
      by (auto simp: job_of_def)
    then show ?thesis by (rule sole_run_reaction)
  qed
  have go1: "gone (elt a ds k) ?s1" if "gone (elt a ds k) s" for k
    using gone_dequeue [OF that q] by (rule gone_run_reaction)
  have gi: "gone (elt a ds i) ?s1" using g0 by (rule gone_run_reaction)
  have di: "ds ! i \<noteq> r" using 1(1,4) i by simp
  have fin: "finite F" using 1(2) by (rule finite_subset) simp
  have nfull: "F \<noteq> {..<?n}" using iF(1) i by auto
  have ek: "pstate (promises ?s1 (ps ! k)) = pstate (promises s (ps ! k))" if "k \<in> E" for k
  proof -
    from that 1(3) have k: "k < ?n" by auto
    with old [OF k] that have "pstate (promises s (ps ! k)) \<noteq> Pending"
      by (auto split: if_splits)
    with k show ?thesis by (rule kept)
  qed
  show ?thesis
  proof (cases out)
    case Pending
    with out(2) show ?thesis by simp
  next
    case (Fulfilled v)
    let ?vs = "(vals (alls s a))[i := v]"
    have s1: "?s1 = resolve_fn (ds ! i) Undefined (all_countdown a (all_store a i v ?s0))"
      by (simp add: Fulfilled elt_def run_reaction_def)
    have al1: "alls ?s1 a = (alls s a)\<lparr>vals := ?vs, remaining := remaining (alls s a) - 1\<rparr>"
      by (simp add: s1 all_countdown_alls all_store_def)
    have pr: "promises ?s1 r =
        (if remaining (alls s a) - 1 = 0
         then promises (resolve_fn r (Array ?vs) (all_store a i v ?s0)) r
         else promises s r)"
      using di 1(7) by (simp add: s1 all_countdown_promises all_store_def)
    have cnt: "card (insert i F) = Suc (card F)" using fin iF by simp
    have sub: "insert i F \<subseteq> {..<?n}" using i 1(2) by simp
    have dj: "insert i F \<inter> E = {}" using iF 1(11) by simp
    have le: "card (insert i F) \<le> ?n" using card_mono [OF finite_lessThan sub] by simp
    have 3: "target (alls ?s1 a) = r" "length (vals (alls ?s1 a)) = ?n"
      "remaining (alls ?s1 a) = ?n - card (insert i F)"
      using al1 1(7,8,9) cnt by simp_all
    have full: "remaining (alls s a) - 1 = 0 \<longleftrightarrow> insert i F = {..<?n}"
    proof
      assume "remaining (alls s a) - 1 = 0"
      with 1(9) have "?n - Suc (card F) = 0" by simp
      with le cnt have "card (insert i F) = card {..<?n}" by simp
      with finite_lessThan sub show "insert i F = {..<?n}" by (rule card_subset_eq)
    next
      assume "insert i F = {..<?n}"
      then have "card (insert i F) = ?n" by simp
      with cnt 1(9) show "remaining (alls s a) - 1 = 0" by simp
    qed
    have 4: "\<forall>k<?n.
        if k \<in> insert i F then gone (elt a ds k) ?s1 \<and>
             pstate (promises ?s1 (ps ! k)) = Fulfilled (vals (alls ?s1 a) ! k)
        else if k \<in> E then gone (elt a ds k) ?s1 \<and>
             (\<exists>e. pstate (promises ?s1 (ps ! k)) = Rejected e)
        else sole (elt a ds k) (ps ! k) ?s1"
    proof (intro allI impI)
      fix k assume k: "k < ?n"
      show "if k \<in> insert i F then gone (elt a ds k) ?s1 \<and>
             pstate (promises ?s1 (ps ! k)) = Fulfilled (vals (alls ?s1 a) ! k)
        else if k \<in> E then gone (elt a ds k) ?s1 \<and>
             (\<exists>e. pstate (promises ?s1 (ps ! k)) = Rejected e)
        else sole (elt a ds k) (ps ! k) ?s1"
      proof (cases "k = i")
        case True
        have "pstate (promises ?s1 (ps ! i)) = Fulfilled v"
          using kept [OF i] out Fulfilled by simp
        then show ?thesis using True gi al1 i 1(8) by simp
      next
        case False
        then have "vals (alls ?s1 a) ! k = vals (alls s a) ! k" using al1 by simp
        then show ?thesis
          using False old [OF k] kept [OF k] so1 [OF False] go1 [of k]
          by (auto split: if_splits)
      qed
    qed
    have 5: "if E \<noteq> {} then resolved (promises ?s1 r) \<and>
           (\<exists>k\<in>E. pstate (promises ?s1 r) = pstate (promises ?s1 (ps ! k)))
      else if insert i F = {..<?n} then resolved (promises ?s1 r) \<and>
           pstate (promises ?s1 r) = Fulfilled (Array (vals (alls ?s1 a)))
      else \<not> resolved (promises ?s1 r) \<and> pstate (promises ?s1 r) = Pending"
    proof (cases "E = {}")
      case False
      with rst have res: "resolved (promises s r)" and
        ex: "\<exists>k\<in>E. pstate (promises s r) = pstate (promises s (ps ! k))"
        by simp_all
      have "resolve_fn r (Array ?vs) (all_store a i v ?s0) = all_store a i v ?s0"
        using res by (intro resolve_fn_noop) simp
      with pr have "promises ?s1 r = promises s r" by simp
      with res ex ek False show ?thesis by auto
    next
      case True
      with rst nfull have un: "\<not> resolved (promises s r)" "pstate (promises s r) = Pending"
        by simp_all
      show ?thesis
      proof (cases "insert i F = {..<?n}")
        case full': True
        with full pr have p: "promises ?s1 r =
            promises (resolve_fn r (Array ?vs) (all_store a i v ?s0)) r"
          by simp
        have "pstate (promises (resolve_fn r (Array ?vs) (all_store a i v ?s0)) r) =
            Fulfilled (Array ?vs)"
          using un by (intro resolve_fn_plain) (simp_all add: thenable_def)
        with p True full' al1 show ?thesis by (simp add: resolve_fn_resolved)
      next
        case False
        with full pr have "promises ?s1 r = promises s r" by simp
        with un True False show ?thesis by simp
      qed
    qed
    have "all_inv a ps ds r (insert i F) E ?s1"
      using 1(1) sub 1(3) dj 2 1(4) 3 cl1 4 5 by (rule all_invI)
    then show ?thesis by blast
  next
    case (Rejected e)
    have s1: "?s1 = resolve_fn (ds ! i) Undefined (reject_fn r e ?s0)"
      using 1(7) by (simp add: Rejected elt_def run_reaction_def)
    have al1: "alls ?s1 a = alls s a" by (simp add: s1)
    have pr: "promises ?s1 r = promises (reject_fn r e ?s0) r"
      using di by (simp add: s1)
    have sub: "insert i E \<subseteq> {..<?n}" using i 1(3) by simp
    have dj: "F \<inter> insert i E = {}" using iF 1(11) by simp
    have 3: "target (alls ?s1 a) = r" "length (vals (alls ?s1 a)) = ?n"
      "remaining (alls ?s1 a) = ?n - card F"
      using al1 1(7,8,9) by simp_all
    have pi: "pstate (promises ?s1 (ps ! i)) = Rejected e"
      using kept [OF i] out Rejected by simp
    have 4: "\<forall>k<?n.
        if k \<in> F then gone (elt a ds k) ?s1 \<and>
             pstate (promises ?s1 (ps ! k)) = Fulfilled (vals (alls ?s1 a) ! k)
        else if k \<in> insert i E then gone (elt a ds k) ?s1 \<and>
             (\<exists>e. pstate (promises ?s1 (ps ! k)) = Rejected e)
        else sole (elt a ds k) (ps ! k) ?s1"
    proof (intro allI impI)
      fix k assume k: "k < ?n"
      show "if k \<in> F then gone (elt a ds k) ?s1 \<and>
             pstate (promises ?s1 (ps ! k)) = Fulfilled (vals (alls ?s1 a) ! k)
        else if k \<in> insert i E then gone (elt a ds k) ?s1 \<and>
             (\<exists>e. pstate (promises ?s1 (ps ! k)) = Rejected e)
        else sole (elt a ds k) (ps ! k) ?s1"
      proof (cases "k = i")
        case True
        then show ?thesis using iF gi pi by simp
      next
        case False
        then show ?thesis
          using old [OF k] kept [OF k] so1 [OF False] go1 [of k] al1
          by (auto split: if_splits)
      qed
    qed
    have 5: "if insert i E \<noteq> {} then resolved (promises ?s1 r) \<and>
           (\<exists>k\<in>insert i E. pstate (promises ?s1 r) = pstate (promises ?s1 (ps ! k)))
      else if F = {..<?n} then resolved (promises ?s1 r) \<and>
           pstate (promises ?s1 r) = Fulfilled (Array (vals (alls ?s1 a)))
      else \<not> resolved (promises ?s1 r) \<and> pstate (promises ?s1 r) = Pending"
    proof (cases "E = {}")
      case False
      with rst have res: "resolved (promises s r)" and
        ex: "\<exists>k\<in>E. pstate (promises s r) = pstate (promises s (ps ! k))"
        by simp_all
      have "reject_fn r e ?s0 = ?s0" using res by (intro reject_fn_noop) simp
      with pr have "promises ?s1 r = promises s r" by simp
      with res ex ek show ?thesis by auto
    next
      case True
      with rst nfull have un: "\<not> resolved (promises s r)" "pstate (promises s r) = Pending"
        by simp_all
      have "pstate (promises (reject_fn r e ?s0) r) = Rejected e"
        using un by (intro reject_fn_pending) simp_all
      with pr pi show ?thesis by (simp add: reject_fn_resolved)
    qed
    have "all_inv a ps ds r F (insert i E) ?s1"
      using 1(1,2) sub dj 2 1(4) 3 cl1 4 5 by (rule all_invI)
    then show ?thesis by blast
  qed
qed

subsection \<open>Along a run\<close>

lemma all_inv_step:
  assumes inv: "all_inv a ps ds r F E s" and qu: "quiet r e" and st: "step n e s = Some s1"
  shows "\<exists>F' E'. all_inv a ps ds r F' E' s1"
proof (cases e)
  case Microtask
  show ?thesis
  proof (cases "queue s")
    case Nil
    with Microtask st inv show ?thesis by (auto simp: step_def)
  next
    case (Cons j js)
    with Microtask st have s1: "s1 = run_job j (s\<lparr>queue := js\<rparr>)" by (simp add: step_def)
    show ?thesis
    proof (cases "\<exists>i<length ps. job_of (elt a ds i) j")
      case True
      then obtain i where i: "i < length ps" and jo: "job_of (elt a ds i) j" by blast
      from jo obtain out where j: "j = ReactionJob (elt a ds i) out"
        by (cases j) (simp_all add: job_of_def)
      from Cons j have "queue s = ReactionJob (elt a ds i) out # js" by simp
      from all_inv_own [OF inv this i] show ?thesis by (simp add: s1 j run_job_def)
    next
      case False
      then have "\<forall>i<length ps. \<not> job_of (elt a ds i) j" by simp
      from all_inv_foreign [OF inv Cons this] show ?thesis unfolding s1 by blast
    qed
  qed
next
  case (Resolve q v)
  with qu st have "q \<noteq> r" "s1 = resolve_fn q v s" by (simp_all add: quiet_def step_def)
  with all_inv_resolve [OF inv, of q v] show ?thesis by blast
next
  case (Reject q v)
  with qu st have "q \<noteq> r" "s1 = reject_fn q v s" by (simp_all add: quiet_def step_def)
  with all_inv_reject [OF inv, of q v] show ?thesis by blast
next
  case (Abort b)
  with qu show ?thesis by (simp add: quiet_def)
qed

lemma all_inv_run:
  assumes "run n es s = Some s3" and "\<forall>e\<in>set es. quiet r e" and "all_inv a ps ds r F E s"
  shows "\<exists>F' E'. all_inv a ps ds r F' E' s3"
  using assms
proof (induction es arbitrary: s F E)
  case Nil
  then show ?case by auto
next
  case (Cons e es)
  from Cons.prems(1) obtain s1 where
    st: "step n e s = Some s1" and rn: "run n es s1 = Some s3"
    by (auto split: option.splits)
  from Cons.prems(2) have q: "quiet r e" "\<forall>e\<in>set es. quiet r e" by simp_all
  from all_inv_step [OF Cons.prems(3) q(1) st] obtain F' E' where
    "all_inv a ps ds r F' E' s1" by blast
  from Cons.IH [OF rn q(2) this] show ?case .
qed

subsection \<open>What the invariant says of the result\<close>

lemma all_inv_ran:
  assumes inv: "all_inv a ps ds r F E s" and qe: "queue s = []"
    and i: "i < length ps" and st: "pstate (promises s (ps ! i)) \<noteq> Pending"
  shows "i \<in> F \<or> i \<in> E"
proof (rule ccontr)
  assume "\<not> (i \<in> F \<or> i \<in> E)"
  with inv i have "sole (elt a ds i) (ps ! i) s" by (simp add: all_inv_def)
  then have "awaiting (elt a ds i) (ps ! i) s" by (rule sole_awaiting)
  from awaiting_final [OF this qe] st show False by simp
qed

lemma all_inv_member:
  assumes inv: "all_inv a ps ds r F E s" and i: "i < length ps"
  shows "i \<in> F \<Longrightarrow> pstate (promises s (ps ! i)) = Fulfilled (vals (alls s a) ! i)"
    and "i \<in> E \<Longrightarrow> \<exists>e. pstate (promises s (ps ! i)) = Rejected e"
    and "i \<notin> F \<Longrightarrow> i \<notin> E \<Longrightarrow> sole (elt a ds i) (ps ! i) s"
proof -
  from inv have dj: "F \<inter> E = {}" by (simp add: all_inv_def)
  from inv i have st: "if i \<in> F then gone (elt a ds i) s \<and>
             pstate (promises s (ps ! i)) = Fulfilled (vals (alls s a) ! i)
        else if i \<in> E then gone (elt a ds i) s \<and>
             (\<exists>e. pstate (promises s (ps ! i)) = Rejected e)
        else sole (elt a ds i) (ps ! i) s"
    by (simp add: all_inv_def)
  show "i \<in> F \<Longrightarrow> pstate (promises s (ps ! i)) = Fulfilled (vals (alls s a) ! i)"
    using st by simp
  show "i \<in> E \<Longrightarrow> \<exists>e. pstate (promises s (ps ! i)) = Rejected e"
    using st dj by (auto split: if_splits)
  show "i \<notin> F \<Longrightarrow> i \<notin> E \<Longrightarrow> sole (elt a ds i) (ps ! i) s"
    using st by simp
qed

lemma all_inv_sets:
  assumes "all_inv a ps ds r F E s"
  shows "F \<subseteq> {..<length ps}" "E \<subseteq> {..<length ps}"
  using assms by (simp_all add: all_inv_def)

lemma all_inv_result:
  assumes "all_inv a ps ds r F E s"
  shows "E \<noteq> {} \<Longrightarrow> \<exists>i\<in>E. pstate (promises s r) = pstate (promises s (ps ! i))"
    and "E = {} \<Longrightarrow> F = {..<length ps} \<Longrightarrow>
         pstate (promises s r) = Fulfilled (Array (vals (alls s a)))"
    and "E = {} \<Longrightarrow> F \<noteq> {..<length ps} \<Longrightarrow> pstate (promises s r) = Pending"
  using assms by (simp_all add: all_inv_def)

lemma all_inv_fulfilled:
  assumes inv: "all_inv a ps ds r F E s" and qe: "queue s = []"
    and ok: "\<forall>p\<in>set ps. \<exists>v. pstate (promises s p) = Fulfilled v"
  shows "pstate (promises s r) =
         Fulfilled (Array (map (\<lambda>p. outcome_value (pstate (promises s p))) ps))"
proof -
  have v: "\<exists>v. pstate (promises s (ps ! i)) = Fulfilled v" if "i < length ps" for i
    using ok that by simp
  have f: "i \<in> F" if i: "i < length ps" for i
  proof -
    from v [OF i] have "pstate (promises s (ps ! i)) \<noteq> Pending" by auto
    from all_inv_ran [OF inv qe i this] all_inv_member(2) [OF inv i] v [OF i]
    show ?thesis by auto
  qed
  with all_inv_sets(1) [OF inv] have full: "F = {..<length ps}" by auto
  have "E = {}"
  proof (rule ccontr)
    assume "E \<noteq> {}"
    then obtain k where k: "k \<in> E" by auto
    with all_inv_sets(2) [OF inv] have kl: "k < length ps" by auto
    from all_inv_member(2) [OF inv kl k] v [OF kl] show False by auto
  qed
  from all_inv_result(2) [OF inv this full]
  have r: "pstate (promises s r) = Fulfilled (Array (vals (alls s a)))" .
  from inv have len: "length (vals (alls s a)) = length ps" by (simp add: all_inv_def)
  have "vals (alls s a) = map (\<lambda>p. outcome_value (pstate (promises s p))) ps"
  proof (rule nth_equalityI)
    show "length (vals (alls s a)) =
        length (map (\<lambda>p. outcome_value (pstate (promises s p))) ps)"
      using len by simp
  next
    fix i assume "i < length (vals (alls s a))"
    with len have i: "i < length ps" by simp
    from all_inv_member(1) [OF inv i f [OF i]] i
    show "vals (alls s a) ! i = map (\<lambda>p. outcome_value (pstate (promises s p))) ps ! i"
      by (simp add: outcome_value_def)
  qed
  with r show ?thesis by simp
qed

lemma all_inv_rejected:
  assumes inv: "all_inv a ps ds r F E s" and qe: "queue s = []"
    and ex: "\<exists>p\<in>set ps. \<exists>e. pstate (promises s p) = Rejected e"
  shows "\<exists>p\<in>set ps. (\<exists>e. pstate (promises s p) = Rejected e) \<and>
           pstate (promises s r) = pstate (promises s p)"
proof -
  from ex obtain i e where i: "i < length ps" and e: "pstate (promises s (ps ! i)) = Rejected e"
    by (auto simp: in_set_conv_nth)
  then have "pstate (promises s (ps ! i)) \<noteq> Pending" by simp
  from all_inv_ran [OF inv qe i this] all_inv_member(1) [OF inv i] e
  have "i \<in> E" by auto
  then have "E \<noteq> {}" by auto
  from all_inv_result(1) [OF inv this] obtain k where k: "k \<in> E" and
    r: "pstate (promises s r) = pstate (promises s (ps ! k))"
    by auto
  from all_inv_sets(2) [OF inv] k have kl: "k < length ps" by auto
  have "ps ! k \<in> set ps" using kl by simp
  with all_inv_member(2) [OF inv kl k] r show ?thesis by blast
qed

lemma all_inv_pending:
  assumes inv: "all_inv a ps ds r F E s"
    and no: "\<forall>p\<in>set ps. \<forall>e. pstate (promises s p) \<noteq> Rejected e"
    and ex: "\<exists>p\<in>set ps. pstate (promises s p) = Pending"
  shows "pstate (promises s r) = Pending"
proof -
  from ex obtain i where i: "i < length ps" and p: "pstate (promises s (ps ! i)) = Pending"
    by (auto simp: in_set_conv_nth)
  from all_inv_member(1) [OF inv i] p have "i \<notin> F" by auto
  with i have nf: "F \<noteq> {..<length ps}" by auto
  have "E = {}"
  proof (rule ccontr)
    assume "E \<noteq> {}"
    then obtain k where k: "k \<in> E" by auto
    with all_inv_sets(2) [OF inv] have kl: "k < length ps" by auto
    from all_inv_member(2) [OF inv kl k] no kl show False by auto
  qed
  from all_inv_result(3) [OF inv this nf] show ?thesis .
qed

subsection \<open>What Promise.all sets up\<close>

lemma elt_append: "i < length ds \<Longrightarrow> elt a (ds @ [d]) i = elt a ds i"
  by (simp add: elt_def nth_append)

lemma elt_last: "elt a (ds @ [d]) (length ds) = AllElement a (length ds) d"
  by (simp add: elt_def)

lemma allowed_append: "allowed a ds r s x \<Longrightarrow> allowed a (ds @ [d]) r s x"
proof -
  assume al: "allowed a ds r s x"
  show ?thesis
    unfolding allowed_def
  proof
    assume "touches s x r \<or> of_all a x"
    with al obtain i where "i < length ds" "x = elt a ds i" by (auto simp: allowed_def)
    then have "i < length (ds @ [d])" "x = elt a (ds @ [d]) i" by (simp_all add: elt_append)
    then show "\<exists>i<length (ds @ [d]). x = elt a (ds @ [d]) i" by blast
  qed
qed

lemma closed_append: "all_closed a ds r s \<Longrightarrow> all_closed a (ds @ [d]) r s"
  by (auto simp: all_closed_def job_allowed_def allowed_append split: job.splits)

lemma closed_new_promise:
  "all_closed a ds r s \<Longrightarrow> all_closed a ds r (snd (new_promise st res s))"
  by (erule closedI) (auto split: if_splits)

lemma sole_new_promise:
  "sole x p s \<Longrightarrow> p \<noteq> nextPromise s \<Longrightarrow> sole x p (snd (new_promise st res s))"
  by (simp add: sole_def)

lemma closed_gone:
  assumes "all_closed a ds r s"
  shows "gone (AllElement a (length ds) d) s"
proof -
  let ?x = "AllElement a (length ds) d"
  have no: "\<not> allowed a ds r s ?x" by (auto simp: allowed_def of_all_def elt_def)
  have "?x \<notin> set (reactions (promises s q))" for q
    using assms no by (auto simp: all_closed_def)
  moreover have "\<not> job_of ?x j" if "j \<in> set (queue s)" for j
  proof
    assume "job_of ?x j"
    then obtain out where "j = ReactionJob ?x out" by (cases j) (simp_all add: job_of_def)
    with assms that no show False by (auto simp: all_closed_def job_allowed_def)
  qed
  ultimately show ?thesis by (simp add: gone_def filter_empty_conv)
qed

lemma then_reaction_state [simp]:
  "pstate (promises (then_reaction p x s) q) = pstate (promises s q)"
  "resolved (promises (then_reaction p x s) q) = resolved (promises s q)"
  by (simp_all add: then_reaction_def split: pstate.split)

lemma all_element_building:
  assumes b: "all_building a ps ds r s" and p: "p < nextPromise s"
  shows "all_building a (ps @ [p]) (ds @ [nextPromise s]) r
           (all_element a (length ps) (PromiseRef p) s) \<and>
         nextPromise (all_element a (length ps) (PromiseRef p) s) = Suc (nextPromise s)"
proof -
  let ?k = "length ps"
  let ?d = "nextPromise s"
  let ?x = "AllElement a ?k ?d"
  let ?s2 = "s\<lparr>alls := (alls s)(a := (alls s a)
                  \<lparr>vals := vals (alls s a) @ [Undefined],
                   remaining := Suc (remaining (alls s a))\<rparr>)\<rparr>"
  let ?s3 = "snd (new_promise Pending False ?s2)"
  let ?s4 = "then_reaction p ?x ?s3"
  have eq: "all_element a ?k (PromiseRef p) s = ?s4"
    by (simp add: all_element_def promise_resolve_def new_promise_def)
  from b have 1: "length ds = ?k" "r < nextPromise s" "\<forall>p\<in>set ps. p < nextPromise s"
    "\<forall>d\<in>set ds. d \<noteq> r" "target (alls s a) = r" "length (vals (alls s a)) = ?k"
    "remaining (alls s a) = Suc ?k" "all_closed a ds r s"
    "\<not> resolved (promises s r)" "pstate (promises s r) = Pending"
    and so: "\<And>i. i < ?k \<Longrightarrow> sole (elt a ds i) (ps ! i) s"
    by (simp_all add: all_building_def)
  have c2: "all_closed a (ds @ [?d]) r ?s2"
    using closed_append [OF 1(8)] by (rule closed_other) simp_all
  then have c3: "all_closed a (ds @ [?d]) r ?s3" by (rule closed_new_promise)
  have "allowed a (ds @ [?d]) r ?s3 ?x"
    using 1(1) by (auto simp: allowed_def elt_def nth_append)
  with c3 have c4: "all_closed a (ds @ [?d]) r ?s4" by (rule closed_then_reaction)
  have g: "gone ?x s" using closed_gone [OF 1(8), of ?d] 1(1) by simp
  then have "gone ?x ?s2" by (simp add: gone_def)
  then have "gone ?x ?s3" by (rule gone_new_promise)
  then have sk: "sole ?x p ?s4" by (rule sole_then_reaction_new)
  have si: "sole (elt a ds i) (ps ! i) ?s4" if i: "i < ?k" for i
  proof -
    have "sole (elt a ds i) (ps ! i) ?s2" using so [OF i] by (simp add: sole_def)
    moreover have "ps ! i \<noteq> nextPromise ?s2" using 1(3) nth_mem [OF i] by fastforce
    ultimately have "sole (elt a ds i) (ps ! i) ?s3" by (rule sole_new_promise)
    moreover have "?x \<noteq> elt a ds i" using i by (simp add: elt_def)
    ultimately show ?thesis by (rule sole_then_reaction)
  qed
  have s: "\<forall>i<length (ps @ [p]). sole (elt a (ds @ [?d]) i) ((ps @ [p]) ! i) ?s4"
  proof (intro allI impI)
    fix i assume "i < length (ps @ [p])"
    then consider "i < ?k" | "i = ?k" by fastforce
    then show "sole (elt a (ds @ [?d]) i) ((ps @ [p]) ! i) ?s4"
    proof cases
      case 1
      with si [OF 1] \<open>length ds = ?k\<close> show ?thesis by (simp add: elt_append nth_append)
    next
      case 2
      with sk \<open>length ds = ?k\<close> show ?thesis by (simp add: elt_def nth_append)
    qed
  qed
  have "all_building a (ps @ [p]) (ds @ [?d]) r ?s4"
    unfolding all_building_def
    using 1(1-7,9,10) p c4 s by auto
  then show ?thesis by (simp add: eq)
qed

lemma all_loop_building:
  assumes "all_building a ps0 ds0 r s" and "\<forall>p\<in>set ps. p < nextPromise s"
  shows "\<exists>ds. all_building a (ps0 @ ps) ds r (all_loop a (length ps0) (map PromiseRef ps) s)"
  using assms
proof (induction ps arbitrary: ps0 ds0 s)
  case Nil
  then show ?case by auto
next
  case (Cons p ps)
  let ?s1 = "all_element a (length ps0) (PromiseRef p) s"
  from Cons.prems(2) have p: "p < nextPromise s" by simp
  from all_element_building [OF Cons.prems(1) p] have
    b: "all_building a (ps0 @ [p]) (ds0 @ [nextPromise s]) r ?s1" and
    n: "nextPromise ?s1 = Suc (nextPromise s)"
    by simp_all
  from Cons.prems(2) n have "\<forall>p\<in>set ps. p < nextPromise ?s1" by auto
  from Cons.IH [OF b this] show ?case by simp
qed

lemma all_begin_building:
  assumes "no_dangling s"
  shows "all_building (nextAll s) [] [] (nextPromise s) (snd (all_begin s))"
proof -
  let ?s1 = "snd (all_begin s)"
  let ?r = "nextPromise s" and ?a = "nextAll s"
  have fr: "allowed ?a [] ?r ?s1 x" if "in_scope s x" for x
    using that
    by (cases x)
       (auto simp: allowed_def in_scope_def touches_def of_all_def all_begin_def
         case_prod_unfold)
  have re: "reactions (promises ?s1 q) = (if q = ?r then [] else reactions (promises s q))"
    for q
    by (simp add: all_begin_def case_prod_unfold)
  have "all_closed ?a [] ?r ?s1"
    unfolding all_closed_def
  proof (intro conjI allI ballI)
    fix q x assume "x \<in> set (reactions (promises ?s1 q))"
    then have "x \<in> set (reactions (promises s q))" by (simp add: re split: if_splits)
    with assms have "in_scope s x" by (auto simp: no_dangling_def)
    then show "allowed ?a [] ?r ?s1 x" by (rule fr)
  next
    fix j assume "j \<in> set (queue ?s1)"
    then have "j \<in> set (queue s)" by simp
    with assms have "case j of ReactionJob x out \<Rightarrow> in_scope s x
        | ThenableJob t q \<Rightarrow> t < nextPromise s"
      by (simp add: no_dangling_def)
    then show "job_allowed ?a [] ?r ?s1 j"
      by (cases j) (simp_all add: job_allowed_def fr)
  qed
  then show ?thesis
    by (simp add: all_building_def all_begin_def case_prod_unfold)
qed

lemma all_countdown_inv:
  assumes b: "all_building a ps ds r s"
  shows "all_inv a ps ds r {} {} (all_countdown a s)"
proof -
  let ?s1 = "all_countdown a s"
  from b have 1: "length ds = length ps" "r < nextPromise s" "\<forall>p\<in>set ps. p < nextPromise s"
    "\<forall>d\<in>set ds. d \<noteq> r" "target (alls s a) = r" "length (vals (alls s a)) = length ps"
    "remaining (alls s a) = Suc (length ps)" "all_closed a ds r s"
    "\<not> resolved (promises s r)" "pstate (promises s r) = Pending"
    and so: "\<And>i. i < length ps \<Longrightarrow> sole (elt a ds i) (ps ! i) s"
    by (simp_all add: all_building_def)
  have al: "alls ?s1 a = (alls s a)\<lparr>remaining := length ps\<rparr>"
    using 1(7) by (simp add: all_countdown_alls)
  have pr: "promises ?s1 =
      (if length ps = 0 then promises (resolve_fn r (Array (vals (alls s a))) s)
       else promises s)"
    using 1(5,7) by (simp add: all_countdown_promises)
  show ?thesis
  proof (rule all_invI)
    show "all_closed a ds r ?s1" using 1(8) by (rule closed_all_countdown)
    show "\<forall>i<length ps.
        if i \<in> {} then gone (elt a ds i) ?s1 \<and>
             pstate (promises ?s1 (ps ! i)) = Fulfilled (vals (alls ?s1 a) ! i)
        else if i \<in> {} then gone (elt a ds i) ?s1 \<and>
             (\<exists>e. pstate (promises ?s1 (ps ! i)) = Rejected e)
        else sole (elt a ds i) (ps ! i) ?s1"
      using so by (simp add: sole_all_countdown)
    show "if {} \<noteq> ({} :: nat set) then resolved (promises ?s1 r) \<and>
           (\<exists>i\<in>{}. pstate (promises ?s1 r) = pstate (promises ?s1 (ps ! i)))
      else if {} = {..<length ps} then resolved (promises ?s1 r) \<and>
           pstate (promises ?s1 r) = Fulfilled (Array (vals (alls ?s1 a)))
      else \<not> resolved (promises ?s1 r) \<and> pstate (promises ?s1 r) = Pending"
    proof (cases "length ps = 0")
      case True
      have "pstate (promises (resolve_fn r (Array (vals (alls s a))) s) r) =
          Fulfilled (Array (vals (alls s a)))"
        using 1(9,10) by (intro resolve_fn_plain) (simp_all add: thenable_def)
      with True pr al show ?thesis by (simp add: resolve_fn_resolved)
    next
      case False
      then have "{} \<noteq> {..<length ps}" by auto
      with False pr 1(9,10) show ?thesis by simp
    qed
  qed (use 1 al in simp_all)
qed

lemma promise_all_inv:
  assumes "no_dangling s" and "\<forall>p\<in>set ps. p < nextPromise s"
  shows "\<exists>a ds. all_inv a ps ds (nextPromise s) {} {}
           (snd (promise_all (map PromiseRef ps) s))"
    and "fst (promise_all (map PromiseRef ps) s) = nextPromise s"
proof -
  let ?s1 = "snd (all_begin s)"
  have "all_building (nextAll s) [] [] (nextPromise s) ?s1"
    using assms(1) by (rule all_begin_building)
  moreover have "\<forall>p\<in>set ps. p < nextPromise ?s1" using assms(2) by auto
  ultimately obtain ds where
    "all_building (nextAll s) ([] @ ps) ds (nextPromise s)
       (all_loop (nextAll s) (length ([] :: pid list)) (map PromiseRef ps) ?s1)"
    using all_loop_building by blast
  then have "all_inv (nextAll s) ps ds (nextPromise s) {} {}
      (all_countdown (nextAll s) (all_loop (nextAll s) 0 (map PromiseRef ps) ?s1))"
    using all_countdown_inv by simp
  then show "\<exists>a ds. all_inv a ps ds (nextPromise s) {} {}
           (snd (promise_all (map PromiseRef ps) s))"
    by (auto simp: promise_all_def case_prod_unfold)
  show "fst (promise_all (map PromiseRef ps) s) = nextPromise s"
    by (simp add: promise_all_def case_prod_unfold)
qed

subsection \<open>The result of an aggregate operation\<close>

lemma all_inv_ops:
  assumes "all_inv a ps ds r F E s"
  shows "all_inv a ps ds r F E (s\<lparr>ops := X, nextOp := k\<rparr>)"
  using assms
proof (rule all_inv_frame)
  let ?s1 = "s\<lparr>ops := X, nextOp := k\<rparr>"
  have "all_closed a ds r s" using assms by (simp add: all_inv_def)
  then show "all_closed a ds r ?s1" by (rule closed_other) simp_all
  show "settled_kept s ?s1" by (simp add: settled_kept_def)
  show "alls ?s1 a = alls s a" by simp
  show "pstate (promises ?s1 r) = pstate (promises s r)" by simp
  show "resolved (promises ?s1 r) = resolved (promises s r)" by simp
  show "sole (elt a ds i) (ps ! i) ?s1" if "sole (elt a ds i) (ps ! i) s" for i
    using that sole_other [of ?s1 s "elt a ds i" "ps ! i"] by simp
  show "gone (elt a ds i) ?s1" if "gone (elt a ds i) s" for i
    using that by (simp add: gone_def)
qed

lemma all_op_unfold:
  "all_op os s =
     (nextOp s,
      (snd (promise_all (map PromiseRef (map (\<lambda>a. promise (ops s a)) os)) s))
        \<lparr>ops := (ops s)(nextOp s :=
            \<lparr>promise = nextPromise s, onAbort = AllAbort os, abortPromise = None\<rparr>),
          nextOp := Suc (nextOp s)\<rparr>)"
  by (simp add: all_op_def new_operation_def case_prod_unfold comp_def)

lemma all_op_inv:
  assumes "no_dangling s" and "\<forall>a\<in>set os. promise (ops s a) < nextPromise s"
  shows "\<exists>a ds. all_inv a (map (\<lambda>a. promise (ops s a)) os) ds (nextPromise s) {} {}
           (snd (all_op os s))"
proof -
  let ?ps = "map (\<lambda>a. promise (ops s a)) os"
  have "\<forall>p\<in>set ?ps. p < nextPromise s" using assms(2) by simp
  from promise_all_inv(1) [OF assms(1) this] obtain a ds where
    "all_inv a ?ps ds (nextPromise s) {} {} (snd (promise_all (map PromiseRef ?ps) s))"
    by blast
  then have "all_inv a ?ps ds (nextPromise s) {} {} (snd (all_op os s))"
    unfolding all_op_unfold snd_conv by (rule all_inv_ops)
  then show ?thesis by blast
qed

lemma all_op_simps:
  "fst (all_op os s) = nextOp s"
  "promise (ops (snd (all_op os s)) (nextOp s)) = nextPromise s"
  "onAbort (ops (snd (all_op os s)) (nextOp s)) = AllAbort os"
  "abortPromise (ops (snd (all_op os s)) (nextOp s)) = None"
  "nextOp (snd (all_op os s)) = Suc (nextOp s)"
  "a \<noteq> nextOp s \<Longrightarrow> ops (snd (all_op os s)) a = ops s a"
  "links (snd (all_op os s)) = links s"
  "nextChain (snd (all_op os s)) = nextChain s"
  "calls (snd (all_op os s)) = calls s"
  by (simp_all add: all_op_unfold)

text \<open>
  The result of \<^verbatim>\<open>all\<close> along a run in which nothing is aborted and nobody but the
  aggregate settles its result.
\<close>

lemma all_op_result:
  assumes nd: "no_dangling s" and mem: "\<forall>a\<in>set os. promise (ops s a) < nextPromise s"
    and op: "all_op os s = (b, s1)"
    and r1: "run n es s1 = Some s2" and r2: "run n es' s2 = Some s3"
    and qu: "\<forall>e\<in>set es \<union> set es'. quiet (nextPromise s) e"
  shows "promise (ops s3 b) = nextPromise s"
    and "queue s3 = [] \<Longrightarrow>
         \<forall>a\<in>set os. \<exists>v. pstate (promises s3 (promise (ops s a))) = Fulfilled v \<Longrightarrow>
         pstate (promises s3 (nextPromise s)) =
           Fulfilled (Array (map (\<lambda>a. outcome_value (pstate (promises s3 (promise (ops s a))))) os))"
    and "queue s3 = [] \<Longrightarrow>
         \<exists>a\<in>set os. \<exists>e. pstate (promises s3 (promise (ops s a))) = Rejected e \<Longrightarrow>
         \<exists>a\<in>set os. \<exists>e. pstate (promises s3 (promise (ops s a))) = Rejected e \<and>
           pstate (promises s3 (nextPromise s)) = Rejected e"
    and "queue s2 = [] \<Longrightarrow>
         \<exists>a\<in>set os. pstate (promises s2 (promise (ops s a))) = Rejected e \<Longrightarrow>
         \<forall>a\<in>set os. \<forall>e'. pstate (promises s2 (promise (ops s a))) = Rejected e' \<longrightarrow> e' = e \<Longrightarrow>
         pstate (promises s3 (nextPromise s)) = Rejected e"
    and "\<forall>a\<in>set os. \<forall>e. pstate (promises s3 (promise (ops s a))) \<noteq> Rejected e \<Longrightarrow>
         \<exists>a\<in>set os. pstate (promises s3 (promise (ops s a))) = Pending \<Longrightarrow>
         pstate (promises s3 (nextPromise s)) = Pending"
proof -
  let ?ps = "map (\<lambda>a. promise (ops s a)) os"
  let ?r = "nextPromise s"
  from op have b: "b = nextOp s" and s1: "s1 = snd (all_op os s)"
    by (simp_all add: prod_eq_iff all_op_simps)
  from all_op_inv [OF nd mem] s1 obtain a ds where
    i1: "all_inv a ?ps ds ?r {} {} s1" by blast
  from qu have q1: "\<forall>e\<in>set es. quiet ?r e" and q2: "\<forall>e\<in>set es'. quiet ?r e" by simp_all
  from all_inv_run [OF r1 q1 i1] obtain F2 E2 where i2: "all_inv a ?ps ds ?r F2 E2 s2"
    by blast
  from all_inv_run [OF r2 q2 i2] obtain F3 E3 where i3: "all_inv a ?ps ds ?r F3 E3 s3"
    by blast
  have e12: "evolves s1 s2" using r1 by (rule evolves_run)
  have e23: "evolves s2 s3" using r2 by (rule evolves_run)
  from evolves_trans [OF e12 e23] show "promise (ops s3 b) = ?r"
    by (simp add: evolves_def b s1 all_op_simps)
  show "pstate (promises s3 ?r) =
      Fulfilled (Array (map (\<lambda>a. outcome_value (pstate (promises s3 (promise (ops s a))))) os))"
    if "queue s3 = []"
      "\<forall>a\<in>set os. \<exists>v. pstate (promises s3 (promise (ops s a))) = Fulfilled v"
  proof -
    from that(2) have "\<forall>p\<in>set ?ps. \<exists>v. pstate (promises s3 p) = Fulfilled v" by simp
    from all_inv_fulfilled [OF i3 that(1) this] show ?thesis by (simp add: comp_def)
  qed
  show "\<exists>a\<in>set os. \<exists>e. pstate (promises s3 (promise (ops s a))) = Rejected e \<and>
           pstate (promises s3 ?r) = Rejected e"
    if "queue s3 = []"
      "\<exists>a\<in>set os. \<exists>e. pstate (promises s3 (promise (ops s a))) = Rejected e"
  proof -
    from that(2) have "\<exists>p\<in>set ?ps. \<exists>e. pstate (promises s3 p) = Rejected e" by simp
    from all_inv_rejected [OF i3 that(1) this] show ?thesis by auto
  qed
  show "pstate (promises s3 ?r) = Rejected e"
    if "queue s2 = []"
      "\<exists>a\<in>set os. pstate (promises s2 (promise (ops s a))) = Rejected e"
      "\<forall>a\<in>set os. \<forall>e'. pstate (promises s2 (promise (ops s a))) = Rejected e' \<longrightarrow> e' = e"
  proof -
    from that(2) have "\<exists>p\<in>set ?ps. \<exists>e. pstate (promises s2 p) = Rejected e" by auto
    from all_inv_rejected [OF i2 that(1) this] that(3)
    have "pstate (promises s2 ?r) = Rejected e" by auto
    moreover from i2 have "?r < nextPromise s2" by (simp add: all_inv_def)
    ultimately show ?thesis using e23 by (simp add: evolves_def settled_kept_def)
  qed
  show "pstate (promises s3 ?r) = Pending"
    if "\<forall>a\<in>set os. \<forall>e. pstate (promises s3 (promise (ops s a))) \<noteq> Rejected e"
      "\<exists>a\<in>set os. pstate (promises s3 (promise (ops s a))) = Pending"
  proof -
    from that have "\<forall>p\<in>set ?ps. \<forall>e. pstate (promises s3 p) \<noteq> Rejected e"
      "\<exists>p\<in>set ?ps. pstate (promises s3 p) = Pending"
      by simp_all
    from all_inv_pending [OF i3 this] show ?thesis .
  qed
qed

section \<open>Calls of abort keep the heap in scope\<close>

lemma in_scope_mono:
  assumes "in_scope s x"
    and "nextPromise s \<le> nextPromise s1" and "nextChain s \<le> nextChain s1"
    and "nextAll s \<le> nextAll s1"
    and "\<And>c. c < nextChain s \<Longrightarrow> newPromise (links s1 c) = newPromise (links s c)"
    and "\<And>a. a < nextAll s \<Longrightarrow> target (alls s1 a) = target (alls s a)"
  shows "in_scope s1 x"
  using assms by (cases x) (auto simp: in_scope_def)

lemma ndI:
  assumes nd: "no_dangling s"
    and mono: "nextPromise s \<le> nextPromise s1" "nextChain s \<le> nextChain s1"
      "nextAll s \<le> nextAll s1"
      "\<And>c. c < nextChain s \<Longrightarrow> newPromise (links s1 c) = newPromise (links s c)"
      "\<And>a. a < nextAll s \<Longrightarrow> target (alls s1 a) = target (alls s a)"
    and re: "\<And>q x. x \<in> set (reactions (promises s1 q)) \<Longrightarrow>
           (\<exists>q'. x \<in> set (reactions (promises s q'))) \<or> in_scope s1 x"
    and qu: "\<And>j. j \<in> set (queue s1) \<Longrightarrow>
           j \<in> set (queue s) \<or>
           (\<exists>q x out. j = ReactionJob x out \<and> x \<in> set (reactions (promises s q))) \<or>
           (case j of ReactionJob x out \<Rightarrow> in_scope s1 x | ThenableJob t q \<Rightarrow> t < nextPromise s1)"
  shows "no_dangling s1"
proof -
  have up: "in_scope s1 x" if "in_scope s x" for x
    using that mono by (rule in_scope_mono)
  have old: "in_scope s x" if "x \<in> set (reactions (promises s q))" for q x
    using nd that by (auto simp: no_dangling_def)
  show ?thesis
    unfolding no_dangling_def
  proof (intro conjI allI ballI)
    fix q x assume "x \<in> set (reactions (promises s1 q))"
    from re [OF this] show "in_scope s1 x" using up old by blast
  next
    fix j assume j: "j \<in> set (queue s1)"
    from qu [OF j] consider "j \<in> set (queue s)"
      | q x out where "j = ReactionJob x out" "x \<in> set (reactions (promises s q))"
      | "case j of ReactionJob x out \<Rightarrow> in_scope s1 x | ThenableJob t q \<Rightarrow> t < nextPromise s1"
      by blast
    then show "case j of ReactionJob x out \<Rightarrow> in_scope s1 x
        | ThenableJob t q \<Rightarrow> t < nextPromise s1"
    proof cases
      case 1
      with nd have "case j of ReactionJob x out \<Rightarrow> in_scope s x
        | ThenableJob t q \<Rightarrow> t < nextPromise s"
        by (simp add: no_dangling_def)
      then show ?thesis using up mono(1) by (cases j) auto
    next
      case 2
      then show ?thesis using up old by auto
    next
      case 3
      then show ?thesis .
    qed
  qed
qed

lemma nd_new_promise: "no_dangling s \<Longrightarrow> no_dangling (snd (new_promise st res s))"
  by (erule ndI) (auto split: if_splits)

lemma nd_settle: "no_dangling s \<Longrightarrow> no_dangling (settle p out s)"
  by (erule ndI) (auto simp: settle_def split: if_splits)

lemma nd_mark_resolved: "no_dangling s \<Longrightarrow> no_dangling (mark_resolved p s)"
  by (erule ndI) (auto simp: mark_resolved_def split: if_splits)

lemma nd_enqueue:
  "no_dangling s \<Longrightarrow> t < nextPromise s \<Longrightarrow>
   no_dangling (s\<lparr>queue := queue s @ [ThenableJob t q]\<rparr>)"
  by (erule ndI) auto

lemma nd_resolution:
  "no_dangling s \<Longrightarrow> p < nextPromise s \<Longrightarrow> no_dangling (resolution p v s)"
  by (cases v) (simp_all add: resolution_def nd_settle nd_enqueue)

lemma nd_resolve_fn:
  "no_dangling s \<Longrightarrow> p < nextPromise s \<Longrightarrow> no_dangling (resolve_fn p v s)"
  by (simp add: resolve_fn_def nd_resolution nd_mark_resolved)

lemma nd_reject_fn: "no_dangling s \<Longrightarrow> no_dangling (reject_fn p e s)"
  by (simp add: reject_fn_def nd_settle nd_mark_resolved)

lemma nd_then_reaction:
  assumes "no_dangling s" and "in_scope s x"
  shows "no_dangling (then_reaction p x s)"
proof -
  let ?s1 = "then_reaction p x s"
  have sc: "in_scope ?s1 y = in_scope s y" for y by (rule in_scope_cong) simp_all
  show ?thesis
    using assms(1)
  proof (rule ndI)
    fix q y assume "y \<in> set (reactions (promises ?s1 q))"
    then have "y = x \<or> y \<in> set (reactions (promises s q))"
      by (auto simp: then_reaction_def split: pstate.splits if_splits)
    then show "(\<exists>q'. y \<in> set (reactions (promises s q'))) \<or> in_scope ?s1 y"
      using assms(2) sc by auto
  next
    fix j assume "j \<in> set (queue ?s1)"
    then have "j \<in> set (queue s) \<or> (\<exists>out. j = ReactionJob x out)"
      by (auto simp: then_reaction_def split: pstate.splits)
    then show "j \<in> set (queue s) \<or>
           (\<exists>q x out. j = ReactionJob x out \<and> x \<in> set (reactions (promises s q))) \<or>
           (case j of ReactionJob x out \<Rightarrow> in_scope ?s1 x
            | ThenableJob t q \<Rightarrow> t < nextPromise ?s1)"
      using assms(2) sc by auto
  qed simp_all
qed

lemma nd_other:
  "no_dangling s \<Longrightarrow> promises s1 = promises s \<Longrightarrow> queue s1 = queue s \<Longrightarrow>
   nextPromise s1 = nextPromise s \<Longrightarrow> nextChain s1 = nextChain s \<Longrightarrow>
   nextAll s1 = nextAll s \<Longrightarrow>
   (\<And>c. newPromise (links s1 c) = newPromise (links s c)) \<Longrightarrow>
   (\<And>a. target (alls s1 a) = target (alls s a)) \<Longrightarrow> no_dangling s1"
  by (erule ndI) auto

lemma nd_promise_resolve: "no_dangling s \<Longrightarrow> no_dangling (snd (promise_resolve v s))"
  by (cases v) (simp_all add: promise_resolve_def nd_new_promise)

lemma nd_catch_silence: "no_dangling s \<Longrightarrow> no_dangling (snd (catch_silence p s))"
  by (simp add: catch_silence_def case_prod_unfold nd_then_reaction nd_new_promise
      in_scope_def)

lemma nd_then_void: "no_dangling s \<Longrightarrow> no_dangling (snd (then_void p s))"
  by (simp add: then_void_def case_prod_unfold nd_then_reaction nd_new_promise in_scope_def)

lemma nd_all_begin: "no_dangling s \<Longrightarrow> no_dangling (snd (all_begin s))"
  by (erule ndI) (auto simp: all_begin_def case_prod_unfold split: if_splits)

lemma mono_next: "settled_kept s s1 \<Longrightarrow> nextPromise s \<le> nextPromise s1"
  by (simp add: settled_kept_def)

lemma all_element_target [simp]:
  "target (alls (all_element a i x s) b) = target (alls s b)"
  by (simp add: all_element_def case_prod_unfold Let_def)

lemma all_loop_target [simp]: "target (alls (all_loop a i xs s) b) = target (alls s b)"
  by (induction xs arbitrary: i s) simp_all

lemma nd_all_element:
  assumes nd: "no_dangling s" and a: "a < nextAll s" and t: "target (alls s a) < nextPromise s"
  shows "no_dangling (all_element a i x s)"
proof -
  let ?q = "fst (promise_resolve x s)"
  let ?s1 = "snd (promise_resolve x s)"
  let ?s2 = "?s1\<lparr>alls := (alls ?s1)(a := (alls ?s1 a)
                  \<lparr>vals := vals (alls ?s1 a) @ [Undefined],
                   remaining := Suc (remaining (alls ?s1 a))\<rparr>)\<rparr>"
  let ?s3 = "snd (new_promise Pending False ?s2)"
  let ?x = "AllElement a i (nextPromise ?s2)"
  have eq: "all_element a i x s = then_reaction ?q ?x ?s3"
    by (simp add: all_element_def case_prod_unfold Let_def)
  have n1: "nextPromise s \<le> nextPromise ?s1" by (rule mono_next) simp
  have "no_dangling ?s1" using nd by (rule nd_promise_resolve)
  then have "no_dangling ?s2" by (rule nd_other) simp_all
  then have 3: "no_dangling ?s3" by (rule nd_new_promise)
  have "in_scope ?s3 ?x" using a t n1 by (simp add: in_scope_def)
  with 3 show ?thesis unfolding eq by (rule nd_then_reaction)
qed

lemma nd_all_loop:
  assumes "no_dangling s" and "a < nextAll s" and "target (alls s a) < nextPromise s"
  shows "no_dangling (all_loop a i xs s)"
  using assms
proof (induction xs arbitrary: i s)
  case Nil
  then show ?case by simp
next
  case (Cons x xs)
  let ?s1 = "all_element a i x s"
  have "no_dangling ?s1" using Cons.prems by (rule nd_all_element)
  moreover have "a < nextAll ?s1" using Cons.prems(2) by simp
  moreover have "nextPromise s \<le> nextPromise ?s1" by (rule mono_next) simp
  with Cons.prems(3) have "target (alls ?s1 a) < nextPromise ?s1" by simp
  ultimately show ?case using Cons.IH [of ?s1 "Suc i"] by simp
qed

lemma nd_all_countdown:
  assumes "no_dangling s" and "target (alls s a) < nextPromise s"
  shows "no_dangling (all_countdown a s)"
proof -
  let ?s1 = "s\<lparr>alls := (alls s)(a := (alls s a)\<lparr>remaining := remaining (alls s a) - 1\<rparr>)\<rparr>"
  have 1: "no_dangling ?s1" using assms(1) by (rule nd_other) simp_all
  then have "no_dangling (resolve_fn (target (alls ?s1 a)) (Array (vals (alls ?s1 a))) ?s1)"
    using assms(2) by (intro nd_resolve_fn) simp_all
  with 1 show ?thesis
    unfolding all_countdown_def Let_def by (simp only: if_split) simp
qed

lemma nd_promise_all:
  assumes "no_dangling s"
  shows "no_dangling (snd (promise_all xs s))"
proof -
  let ?s1 = "snd (all_begin s)"
  let ?a = "nextAll s"
  have t: "target (alls ?s1 ?a) = nextPromise s" by (simp add: all_begin_def case_prod_unfold)
  have "no_dangling ?s1" using assms by (rule nd_all_begin)
  then have "no_dangling (all_loop ?a 0 xs ?s1)" by (rule nd_all_loop) (simp_all add: t)
  moreover have "nextPromise ?s1 \<le> nextPromise (all_loop ?a 0 xs ?s1)"
    by (rule mono_next) simp
  then have "target (alls (all_loop ?a 0 xs ?s1) ?a) < nextPromise (all_loop ?a 0 xs ?s1)"
    by (simp add: t)
  ultimately have "no_dangling (all_countdown ?a (all_loop ?a 0 xs ?s1))"
    by (rule nd_all_countdown)
  then show ?thesis by (simp add: promise_all_def case_prod_unfold)
qed

lemma abort_scoped_mono:
  "abort_scoped s \<Longrightarrow> ops s1 = ops s \<Longrightarrow> nextPromise s \<le> nextPromise s1 \<Longrightarrow>
   abort_scoped s1"
  unfolding abort_scoped_def by (metis order.strict_trans2)

lemma abort_scoped_set:
  assumes "abort_scoped s" and "q < nextPromise s"
  shows "abort_scoped (s\<lparr>ops := (ops s)(a := (ops s a)\<lparr>abortPromise := Some q\<rparr>)\<rparr>)"
  using assms unfolding abort_scoped_def by auto

lemma abort_scope:
  "abort n a s = Some (q, s1) \<Longrightarrow> no_dangling s \<Longrightarrow> abort_scoped s \<Longrightarrow>
     no_dangling s1 \<and> abort_scoped s1 \<and> q < nextPromise s1"
  "call_onAbort n f s = Some (q, s1) \<Longrightarrow> no_dangling s \<Longrightarrow> abort_scoped s \<Longrightarrow>
     (\<forall>q'. f = External q' \<longrightarrow> q' < nextPromise s) \<Longrightarrow>
     no_dangling s1 \<and> abort_scoped s1 \<and> q < nextPromise s1"
  "abort_each n as s = Some (qs, s1) \<Longrightarrow> no_dangling s \<Longrightarrow> abort_scoped s \<Longrightarrow>
     no_dangling s1 \<and> abort_scoped s1 \<and> (\<forall>q\<in>set qs. q < nextPromise s1)"
proof (induction n a s and n f s and n as s arbitrary: q s1 and q s1 and qs s1
    rule: abort_call_onAbort_abort_each.induct)
  case (1 a s)
  then show ?case by simp
next
  case (2 n a s)
  show ?case
  proof (cases "abortPromise (ops s a)")
    case (Some p)
    with "2.prems" have "q = p" "s1 = s" by simp_all
    moreover from "2.prems"(3) Some have "p < nextPromise s"
      by (simp add: abort_scoped_def)
    ultimately show ?thesis using "2.prems" by simp
  next
    case None
    let ?s0 = "s\<lparr>calls := calls s @ [OnAbortCalled a]\<rparr>"
    from "2.prems" None obtain s' where
      c: "call_onAbort n (onAbort (ops s a)) ?s0 = Some (q, s')" and
      s1: "s1 = s'\<lparr>ops := (ops s')(a := (ops s' a)\<lparr>abortPromise := Some q\<rparr>)\<rparr>"
      by (auto split: option.splits)
    have nd0: "no_dangling ?s0" using "2.prems"(2) by (rule nd_other) simp_all
    have sc0: "abort_scoped ?s0" using "2.prems"(3) by (rule abort_scoped_mono) simp_all
    have ex: "\<forall>q'. onAbort (ops s a) = External q' \<longrightarrow> q' < nextPromise ?s0"
      using "2.prems"(3) by (simp add: abort_scoped_def)
    from "2.IH" [OF None c nd0 sc0 ex] have
      r: "no_dangling s'" "abort_scoped s'" "q < nextPromise s'" by simp_all
    have "no_dangling s1" unfolding s1 using r(1) by (rule nd_other) simp_all
    moreover have "abort_scoped s1" unfolding s1 using r(2,3) by (rule abort_scoped_set)
    ultimately show ?thesis using r(3) by (simp add: s1)
  qed
next
  case (3 n s)
  then have q: "q = nextPromise s" and s1: "s1 = snd (promise_resolve Undefined s)"
    by (auto simp: prod_eq_iff promise_resolve_def)
  have "no_dangling s1" unfolding s1 using "3.prems"(2) by (rule nd_promise_resolve)
  moreover have "abort_scoped s1"
    using "3.prems"(3) by (rule abort_scoped_mono) (simp_all add: s1 promise_resolve_def)
  ultimately show ?case by (simp add: q s1 promise_resolve_def)
next
  case (4 n p s)
  then have q: "q = nextPromise s" and s1: "s1 = snd (catch_silence p s)"
    by (auto simp: prod_eq_iff)
  have "no_dangling s1" unfolding s1 using "4.prems"(2) by (rule nd_catch_silence)
  moreover have "abort_scoped s1"
    using "4.prems"(3) by (rule abort_scoped_mono) (simp_all add: s1)
  ultimately show ?case by (simp add: q s1)
next
  case (5 n q' s)
  then show ?case by simp
next
  case (6 n os s)
  from "6.prems" obtain ps s' where
    e: "abort_each n os s = Some (ps, s')" and
    q: "q = fst (promise_all (map PromiseRef ps) s')" and
    s1: "s1 = snd (promise_all (map PromiseRef ps) s')"
    by (auto split: option.splits simp: prod_eq_iff)
  from "6.IH" [OF e "6.prems"(2,3)] have r: "no_dangling s'" "abort_scoped s'" by simp_all
  have n: "nextPromise s' \<le> nextPromise s1" unfolding s1 by (rule mono_next) simp
  have "no_dangling s1" unfolding s1 using r(1) by (rule nd_promise_all)
  moreover have "abort_scoped s1" using r(2) _ n by (rule abort_scoped_mono) (simp add: s1)
  moreover have "q < nextPromise s1"
  proof -
    have "nextPromise (snd (all_begin s')) \<le> nextPromise s1"
      unfolding s1 promise_all_def case_prod_unfold snd_conv
      by (rule mono_next) (simp add: settled_kept_trans [OF settled_kept_all_loop settled_kept_all_countdown])
    then show ?thesis by (simp add: q)
  qed
  ultimately show ?case by simp
next
  case (7 n c s)
  show ?case
  proof (cases "abortVar (links s c)")
    case AbortThis
    let ?s0 = "reject_fn (newPromise (links s c)) abortError s"
    from "7.prems" AbortThis have a: "abort n (thisOp (links s c)) ?s0 = Some (q, s1)" by simp
    have "no_dangling ?s0" using "7.prems"(2) by (rule nd_reject_fn)
    moreover have "abort_scoped ?s0" using "7.prems"(3) by (rule abort_scoped_mono) simp_all
    ultimately show ?thesis using "7.IH"(1) [OF AbortThis a] by simp
  next
    case (AbortRet r)
    with "7.IH"(2) [OF AbortRet] "7.prems" show ?thesis by simp
  next
    case (AwaitRet v)
    let ?s0 = "snd (promise_resolve v s)"
    from "7.prems" AwaitRet have
      q: "q = nextPromise ?s0" and
      s1: "s1 = snd (then_void (fst (promise_resolve v s)) ?s0)"
      by (auto simp: case_prod_unfold Let_def prod_eq_iff)
    have n: "nextPromise s \<le> nextPromise ?s0" by (rule mono_next) simp
    have "no_dangling ?s0" using "7.prems"(2) by (rule nd_promise_resolve)
    then have "no_dangling s1" unfolding s1 by (rule nd_then_void)
    moreover have "abort_scoped s1"
      using "7.prems"(3) by (rule abort_scoped_mono) (use n in \<open>simp_all add: s1\<close>)
    ultimately show ?thesis by (simp add: q s1)
  next
    case NoCleanup
    with "7.prems" have q: "q = nextPromise s" and s1: "s1 = snd (promise_resolve Undefined s)"
      by (auto simp: prod_eq_iff promise_resolve_def)
    have "no_dangling s1" unfolding s1 using "7.prems"(2) by (rule nd_promise_resolve)
    moreover have "abort_scoped s1"
      using "7.prems"(3) by (rule abort_scoped_mono) (simp_all add: s1 promise_resolve_def)
    ultimately show ?thesis by (simp add: q s1 promise_resolve_def)
  qed
next
  case (8 n s)
  then show ?case by simp
next
  case (9 n a as s)
  from "9.prems" obtain p' s' ps where
    a: "abort n a s = Some (p', s')" and
    e: "abort_each n as s' = Some (ps, s1)" and
    qs: "qs = p' # ps"
    by (auto split: option.splits)
  from "9.IH"(1) [OF a "9.prems"(2,3)] have
    r: "no_dangling s'" "abort_scoped s'" "p' < nextPromise s'" by simp_all
  from "9.IH"(2) [OF a refl e r(1,2)] have
    r2: "no_dangling s1" "abort_scoped s1" "\<forall>q\<in>set ps. q < nextPromise s1" by simp_all
  have "evolves s' s1" using abort_frame(3) [OF e] by (simp add: abort_keeps_def)
  then have "nextPromise s' \<le> nextPromise s1" by (simp add: evolves_def settled_kept_def)
  with r(3) r2 show ?case by (auto simp: qs)
qed

section \<open>Aborting an aggregate operation\<close>

lemma abort_each_caches:
  "abort_each n as s = Some (qs, s1) \<Longrightarrow>
   length qs = length as \<and> (\<forall>i<length as. abortPromise (ops s1 (as ! i)) = Some (qs ! i))"
proof (induction as arbitrary: qs s)
  case Nil
  then show ?case by simp
next
  case (Cons a as)
  from Cons.prems obtain p s' ps where
    a: "abort n a s = Some (p, s')" and
    e: "abort_each n as s' = Some (ps, s1)" and
    qs: "qs = p # ps"
    by (auto split: option.splits)
  from Cons.IH [OF e] have
    l: "length ps = length as" and
    r: "\<forall>i<length as. abortPromise (ops s1 (as ! i)) = Some (ps ! i)"
    by simp_all
  have "abortPromise (ops s' a) = Some p" using a by (rule abort_caches)
  moreover have "evolves s' s1" using abort_frame(3) [OF e] by (simp add: abort_keeps_def)
  ultimately have h: "abortPromise (ops s1 a) = Some p" by (simp add: evolves_def)
  have "abortPromise (ops s1 ((a # as) ! i)) = Some (qs ! i)" if "i < length (a # as)" for i
    using that h r by (cases i) (simp_all add: qs)
  with l show ?case by (simp add: qs)
qed

lemma all_inv_other:
  assumes "all_inv a ps ds r F E s"
    and "promises s1 = promises s" and "queue s1 = queue s" and "alls s1 = alls s"
    and "links s1 = links s" and "nextPromise s1 = nextPromise s"
  shows "all_inv a ps ds r F E s1"
  using assms(1)
proof (rule all_inv_frame)
  have "all_closed a ds r s" using assms(1) by (simp add: all_inv_def)
  then show "all_closed a ds r s1" by (rule closed_other) (simp_all add: assms)
  show "settled_kept s s1" by (simp add: settled_kept_def assms)
  show "alls s1 a = alls s a" by (simp add: assms)
  show "pstate (promises s1 r) = pstate (promises s r)" by (simp add: assms)
  show "resolved (promises s1 r) = resolved (promises s r)" by (simp add: assms)
  show "sole (elt a ds i) (ps ! i) s1" if "sole (elt a ds i) (ps ! i) s" for i
    using that sole_other [of s1 s "elt a ds i" "ps ! i"] assms(2,3) by simp
  show "gone (elt a ds i) s1" if "gone (elt a ds i) s" for i
    using that by (simp add: gone_def assms)
qed

lemma nd_all_op: "no_dangling s \<Longrightarrow> no_dangling (snd (all_op os s))"
proof -
  assume "no_dangling s"
  then have "no_dangling (snd (promise_all (map PromiseRef (map (\<lambda>a. promise (ops s a)) os)) s))"
    by (rule nd_promise_all)
  then show ?thesis unfolding all_op_unfold snd_conv by (rule nd_other) simp_all
qed

lemma abort_scoped_all_op:
  assumes "abort_scoped s"
  shows "abort_scoped (snd (all_op os s))"
proof -
  let ?t = "snd (promise_all (map PromiseRef (map (\<lambda>a. promise (ops s a)) os)) s)"
  have n: "nextPromise s \<le> nextPromise ?t" by (rule mono_next) simp
  have "abort_scoped ?t" using assms _ n by (rule abort_scoped_mono) simp
  then show ?thesis
    unfolding all_op_unfold snd_conv abort_scoped_def by simp
qed

lemma all_op_abort:
  assumes nd: "no_dangling s" and sc: "abort_scoped s"
    and mem: "\<forall>a\<in>set os. a < nextOp s"
    and op: "all_op os s = (b, s1)" and ab: "abort n b s1 = Some (q, t2)"
  shows "\<forall>a\<in>set os. abortPromise (ops t2 a) \<noteq> None"
    and "\<exists>a ds. all_inv a (map (\<lambda>a. the (abortPromise (ops t2 a))) os) ds q {} {} t2"
    and "abortPromise (ops t2 b) = Some q"
proof -
  from op have b: "b = nextOp s" and s1: "s1 = snd (all_op os s)"
    by (simp_all add: prod_eq_iff all_op_simps)
  from ab obtain k where n: "n = Suc k" by (cases n) auto
  let ?s0 = "s1\<lparr>calls := calls s1 @ [OnAbortCalled b]\<rparr>"
  have fr: "abortPromise (ops s1 b) = None" "onAbort (ops s1 b) = AllAbort os"
    by (simp_all add: b s1 all_op_simps)
  from ab n fr obtain qs s' where
    e: "abort_each k os ?s0 = Some (qs, s')" and
    q: "q = fst (promise_all (map PromiseRef qs) s')" and
    t2: "t2 = (snd (promise_all (map PromiseRef qs) s'))
           \<lparr>ops := (ops (snd (promise_all (map PromiseRef qs) s')))
              (b := (ops (snd (promise_all (map PromiseRef qs) s')) b)\<lparr>abortPromise := Some q\<rparr>)\<rparr>"
    by (auto split: option.splits simp: prod_eq_iff)
  let ?t = "snd (promise_all (map PromiseRef qs) s')"
  have nd1: "no_dangling s1" unfolding s1 using nd by (rule nd_all_op)
  have sc1: "abort_scoped s1" unfolding s1 using sc by (rule abort_scoped_all_op)
  have nd0: "no_dangling ?s0" using nd1 by (rule nd_other) simp_all
  have sc0: "abort_scoped ?s0" using sc1 by (rule abort_scoped_mono) simp_all
  from abort_scope(3) [OF e nd0 sc0] have
    nd': "no_dangling s'" and qs: "\<forall>q\<in>set qs. q < nextPromise s'"
    by simp_all
  from abort_each_caches [OF e] have
    l: "length qs = length os" and
    c: "\<And>i. i < length os \<Longrightarrow> abortPromise (ops s' (os ! i)) = Some (qs ! i)"
    by simp_all
  have nb: "os ! i \<noteq> b" if "i < length os" for i
  proof -
    from mem that have "os ! i < nextOp s" by simp
    then show ?thesis by (simp add: b)
  qed
  have c2: "abortPromise (ops t2 (os ! i)) = Some (qs ! i)" if "i < length os" for i
    using c [OF that] nb [OF that] by (simp add: t2)
  show "\<forall>a\<in>set os. abortPromise (ops t2 a) \<noteq> None"
    using c2 by (auto simp: in_set_conv_nth)
  have m: "map (\<lambda>a. the (abortPromise (ops t2 a))) os = qs"
    by (rule nth_equalityI) (simp_all add: l c2)
  have q': "q = nextPromise s'" by (simp add: q)
  from promise_all_inv(1) [OF nd' qs] obtain a ds where
    "all_inv a qs ds (nextPromise s') {} {} ?t" by blast
  then have "all_inv a qs ds q {} {} ?t" by (simp only: q')
  then have "all_inv a qs ds q {} {} t2"
    by (rule all_inv_other) (simp_all add: t2)
  then show "\<exists>a ds. all_inv a (map (\<lambda>a. the (abortPromise (ops t2 a))) os) ds q {} {} t2"
    unfolding m by blast
  show "abortPromise (ops t2 b) = Some q" by (simp add: t2)
qed

lemma abort_wf_all_op:
  assumes "abort_wf rk s" and "\<forall>a\<in>set os. a < nextOp s"
  shows "abort_wf (rk(nextOp s := Suc (sum_list (map rk os)))) (snd (all_op os s))"
  unfolding abort_wf_def
proof (intro allI impI)
  fix x
  let ?s1 = "snd (all_op os s)"
  let ?rk = "rk(nextOp s := Suc (sum_list (map rk os)))"
  assume "x < nextOp ?s1"
  then consider "x = nextOp s" | "x < nextOp s" by (fastforce simp: all_op_simps)
  then show "chain_in_scope ?s1 (onAbort (ops ?s1 x)) \<and>
        (\<forall>b\<in>set (callees_of ?s1 (onAbort (ops ?s1 x))). b < nextOp ?s1 \<and> ?rk b < ?rk x)"
  proof cases
    case 1
    have "rk b < Suc (sum_list (map rk os))" if "b \<in> set os" for b
      using member_le_sum_list [of "rk b" "map rk os"] that by auto
    with 1 assms(2) show ?thesis
      by (auto simp: chain_in_scope_def callees_of_def all_op_simps)
  next
    case 2
    with assms(1) have
      sc: "chain_in_scope s (onAbort (ops s x))" and
      cl: "\<forall>b\<in>set (callees_of s (onAbort (ops s x))). b < nextOp s \<and> rk b < rk x"
      by (simp_all add: abort_wf_def)
    have "callees_of ?s1 (onAbort (ops s x)) = callees_of s (onAbort (ops s x))"
      by (rule callees_of_cong) (simp add: all_op_simps)
    moreover have "chain_in_scope ?s1 (onAbort (ops s x)) = chain_in_scope s (onAbort (ops s x))"
      by (rule chain_in_scope_cong) (simp add: all_op_simps)
    ultimately show ?thesis using 2 sc cl by (auto simp: all_op_simps)
  qed
qed

lemma all_op_abort_returns:
  assumes "abort_wf rk s" and "\<forall>a\<in>set os. a < nextOp s" and "all_op os s = (b, s1)"
  shows "\<exists>n q t2. abort n b s1 = Some (q, t2)"
proof -
  let ?rk = "rk(nextOp s := Suc (sum_list (map rk os)))"
  from assms(3) have b: "b = nextOp s" and s1: "s1 = snd (all_op os s)"
    by (simp_all add: prod_eq_iff all_op_simps)
  have "abort_wf ?rk s1" unfolding s1 using assms(1,2) by (rule abort_wf_all_op)
  moreover have "b < nextOp s1" by (simp add: b s1 all_op_simps)
  ultimately show ?thesis using abort_returns(1) [of ?rk s1 b "Suc (?rk b)"] by blast
qed

section \<open>An aggregate of a completed and a failed operation\<close>

lemmas all_defs = heap_defs pair_heap_def all_op_unfold all_loop.simps all_countdown_def
  all_element_def quiet_def

lemma pair_heap_simps:
  "nextOp pair_heap = 2" "nextPromise pair_heap = 2"
  "promise (ops pair_heap 0) = 0" "promise (ops pair_heap (Suc 0)) = Suc 0"
  "queue pair_heap = []"
  by (simp_all add: all_defs numeral_2_eq_2)

lemma pair_no_dangling: "no_dangling pair_heap"
  by (rule no_dangling_empty_reactions) (simp_all add: all_defs)

lemma pair_scoped: "abort_scoped pair_heap"
  by (simp add: abort_scoped_def all_defs)

lemma pair_wf: "abort_wf (\<lambda>_. 0) pair_heap"
  by (simp add: abort_wf_def chain_in_scope_def callees_of_def all_defs)

lemma promise_all_unfold:
  "snd (promise_all xs s) = all_countdown (nextAll s) (all_loop (nextAll s) 0 xs (snd (all_begin s)))"
  by (simp add: promise_all_def case_prod_unfold)

lemma pair_run:
  "\<exists>s2. run 0 [Microtask, Microtask] (snd (all_op [0, 1] pair_heap)) = Some s2 \<and>
     queue s2 = [] \<and> pstate (promises s2 0) = Fulfilled (Num 1) \<and>
     pstate (promises s2 (Suc 0)) = Rejected (Num 9)"
proof -
  let ?fresh = "\<lparr>pstate = Pending, resolved = False, handled = False, reactions = []\<rparr>"
  let ?j0 = "ReactionJob (AllElement 0 0 3) (Fulfilled (Num 1))"
  let ?j1 = "ReactionJob (AllElement 0 1 4) (Rejected (Num 9))"
  define t1 where "t1 = snd (all_begin pair_heap)"
  have f1: "pstate (promises t1 0) = Fulfilled (Num 1)" "pstate (promises t1 (Suc 0)) = Rejected (Num 9)"
    "promises t1 2 = ?fresh" "nextPromise t1 = 3" "queue t1 = []"
    "alls t1 0 = \<lparr>vals = [], remaining = 1, target = 2\<rparr>"
    unfolding t1_def by (simp_all add: all_defs numeral_2_eq_2 numeral_3_eq_3)
  define t2 where "t2 = all_element 0 0 (PromiseRef 0) t1"
  have f2: "pstate (promises t2 0) = Fulfilled (Num 1)" "pstate (promises t2 (Suc 0)) = Rejected (Num 9)"
    "promises t2 2 = ?fresh" "promises t2 3 = ?fresh" "nextPromise t2 = 4" "queue t2 = [?j0]"
    "alls t2 0 = \<lparr>vals = [Undefined], remaining = 2, target = 2\<rparr>"
    unfolding t2_def
    by (simp_all add: all_element_def promise_resolve_def new_promise_def then_reaction_def f1)
  define t3 where "t3 = all_element 0 1 (PromiseRef 1) t2"
  have f3: "pstate (promises t3 0) = Fulfilled (Num 1)" "pstate (promises t3 (Suc 0)) = Rejected (Num 9)"
    "promises t3 2 = ?fresh" "promises t3 3 = ?fresh" "promises t3 4 = ?fresh"
    "queue t3 = [?j0, ?j1]"
    "alls t3 0 = \<lparr>vals = [Undefined, Undefined], remaining = 3, target = 2\<rparr>"
    unfolding t3_def
    by (simp_all add: all_element_def promise_resolve_def new_promise_def then_reaction_def f2)
  define s1 where "s1 = snd (all_op [0, 1] pair_heap)"
  have s1: "s1 = (all_countdown 0 t3)\<lparr>ops := (ops pair_heap)(2 :=
            \<lparr>promise = 2, onAbort = AllAbort [0, 1], abortPromise = None\<rparr>), nextOp := 3\<rparr>"
    unfolding s1_def t3_def t2_def t1_def
    by (simp add: all_op_unfold promise_all_unfold pair_heap_simps)
       (simp add: all_defs)
  have g1: "pstate (promises s1 0) = Fulfilled (Num 1)" "pstate (promises s1 (Suc 0)) = Rejected (Num 9)"
    "promises s1 2 = ?fresh" "promises s1 3 = ?fresh" "promises s1 4 = ?fresh"
    "queue s1 = [?j0, ?j1]"
    "alls s1 0 = \<lparr>vals = [Undefined, Undefined], remaining = 2, target = 2\<rparr>"
    unfolding s1 by (simp_all add: all_countdown_def f3)
  define u1 where "u1 = run_job ?j0 (s1\<lparr>queue := [?j1]\<rparr>)"
  have h1: "pstate (promises u1 0) = Fulfilled (Num 1)" "pstate (promises u1 (Suc 0)) = Rejected (Num 9)"
    "promises u1 2 = ?fresh" "promises u1 4 = ?fresh" "queue u1 = [?j1]"
    "target (alls u1 0) = 2"
    unfolding u1_def
    by (simp_all add: run_job_def run_reaction_def all_countdown_def all_store_def resolve_fn_def
        resolution_def settle_def mark_resolved_def g1)
  define u2 where "u2 = run_job ?j1 (u1\<lparr>queue := []\<rparr>)"
  have h2: "pstate (promises u2 0) = Fulfilled (Num 1)" "pstate (promises u2 (Suc 0)) = Rejected (Num 9)"
    "queue u2 = []"
    unfolding u2_def
    by (simp_all add: run_job_def run_reaction_def reject_fn_def resolve_fn_def
        resolution_def settle_def mark_resolved_def h1)
  have st1: "step 0 Microtask s1 = Some u1" unfolding u1_def by (simp add: step_def g1)
  have st2: "step 0 Microtask u1 = Some u2" unfolding u2_def by (simp add: step_def h1)
  have "run 0 [Microtask, Microtask] s1 = Some u2" by (simp add: st1 st2)
  with h2 show ?thesis unfolding s1_def by blast
qed

section \<open>The claims\<close>

text \<open>
  Claim C1.  Let \<open>b\<close> be the operation that \<^verbatim>\<open>a.chain(onS, onE)\<close> returns, on a
  heap whose abort callbacks are well-founded and where \<open>a\<close> has not been aborted.
  A call of \<^verbatim>\<open>b.abort()\<close> right after returns, the result of \<open>b\<close> is then
  rejected with the abort error, and the abort callback of \<open>a\<close> has been called once.
  Whatever happens afterwards, in particular when the promise of \<open>a\<close> is fulfilled and
  the queued jobs run, the result of \<open>b\<close> stays rejected with the abort error, the
  abort callback of \<open>a\<close> is not called a second time, and the success continuation of
  this chain is never called.  That the promise of \<open>a\<close> is still pending is not needed.
\<close>

theorem chain_abort_wins:
  assumes "abort_wf rk s" and "a < nextOp s"
    and "abortPromise (ops s a) = None"
    and "chain_op a onS onE s = (b, s1)"
    and "Suc (rk a) < n"
  shows "\<exists>q s2. abort n b s1 = Some (q, s2) \<and>
           pstate (promises s2 (promise (ops s2 b))) = Rejected abortError \<and>
           count_list (new_calls s s2) (OnAbortCalled a) = 1 \<and>
           (\<forall>m es s3. run m es s2 = Some s3 \<longrightarrow>
              pstate (promises s3 (promise (ops s3 b))) = Rejected abortError \<and>
              count_list (new_calls s s3) (OnAbortCalled a) = 1 \<and>
              (\<forall>v. CallbackCalled (nextChain s) True v \<notin> set (new_calls s s3)))"
  using assms by (rule chain_abort_early)

theorem chain_abort_wins_witness:
  "abort_wf (\<lambda>_. 0) leaf_heap \<and> 0 < nextOp leaf_heap \<and>
   abortPromise (ops leaf_heap 0) = None \<and>
   chain_op 0 (Some double) None leaf_heap = (1, snd (chain_op 0 (Some double) None leaf_heap)) \<and>
   (\<exists>q s2. abort 2 1 (snd (chain_op 0 (Some double) None leaf_heap)) = Some (q, s2) \<and>
      pstate (promises s2 (promise (ops s2 1))) = Rejected abortError \<and>
      count_list (new_calls leaf_heap s2) (OnAbortCalled 0) = 1)"
proof -
  have h2: "0 < nextOp leaf_heap" by (simp add: leaf_heap_simps)
  have h3: "abortPromise (ops leaf_heap 0) = None" by (simp add: leaf_heap_simps)
  have h4: "chain_op 0 (Some double) None leaf_heap =
      (1, snd (chain_op 0 (Some double) None leaf_heap))"
    by (simp add: prod_eq_iff leaf_heap_simps)
  have h5: "Suc ((\<lambda>_. 0) (0::nat)) < (2::nat)" by simp
  from chain_abort_wins [OF abort_wf_leaf_heap h2 h3 h4 h5]
  show ?thesis using abort_wf_leaf_heap h2 h3 h4 by blast
qed



text \<open>
  Claim C3.  On a heap whose abort callbacks are well-founded, the first call of
  \<^verbatim>\<open>abort()\<close> on an operation \<open>a\<close> returns, calls the abort callback of
  \<open>a\<close> once, and stores the promise \<open>q\<close> that the callback returned; for a callback
  supplied to the constructor that is the promise the callback returns.  After any further
  events the callback has still been called once, and any number of further calls of
  \<^verbatim>\<open>abort()\<close> return that same promise \<open>q\<close> and change nothing.  All returned
  promises being the promise of the callback, they resolve when it does.
\<close>

theorem abort_once:
  assumes "abort_wf rk s" and "a < nextOp s" and "abortPromise (ops s a) = None" and "rk a < n"
  shows "\<exists>q s1. abort n a s = Some (q, s1) \<and>
           count_list (new_calls s s1) (OnAbortCalled a) = 1 \<and>
           abortPromise (ops s1 a) = Some q \<and>
           (\<forall>q'. onAbort (ops s a) = External q' \<longrightarrow> q = q') \<and>
           (\<forall>m es s2. run m es s1 = Some s2 \<longrightarrow>
              count_list (new_calls s s2) (OnAbortCalled a) = 1 \<and>
              (\<forall>k j. abort_each (Suc k) (replicate j a) s2 = Some (replicate j q, s2)))"
  using assms by (rule abort_cached)

theorem abort_once_witness:
  "abort_wf (\<lambda>_. 0) leaf_heap \<and> 0 < nextOp leaf_heap \<and>
   abortPromise (ops leaf_heap 0) = None \<and>
   (\<exists>s1. abort 1 0 leaf_heap = Some (1, s1) \<and>
      count_list (new_calls leaf_heap s1) (OnAbortCalled 0) = 1 \<and>
      abortPromise (ops s1 0) = Some 1 \<and>
      abort_each 1 [0, 0, 0] s1 = Some ([1, 1, 1], s1))"
proof -
  have h2: "0 < nextOp leaf_heap" by (simp add: leaf_heap_simps)
  have h3: "abortPromise (ops leaf_heap 0) = None" by (simp add: leaf_heap_simps)
  have h4: "(\<lambda>_. 0) (0::nat) < (1::nat)" by simp
  have h5: "onAbort (ops leaf_heap 0) = External 1" by (simp add: leaf_heap_simps)
  from abort_once [OF abort_wf_leaf_heap h2 h3 h4] obtain q s1 where
    a: "abort 1 0 leaf_heap = Some (q, s1)"
      "count_list (new_calls leaf_heap s1) (OnAbortCalled 0) = 1"
      "abortPromise (ops s1 0) = Some q" and
    e: "\<forall>q'. onAbort (ops leaf_heap 0) = External q' \<longrightarrow> q = q'" and
    l: "\<forall>m es s2. run m es s1 = Some s2 \<longrightarrow>
          (\<forall>k j. abort_each (Suc k) (replicate j 0) s2 = Some (replicate j q, s2))"
    by blast
  from e h5 have q: "q = 1" by simp
  have "run 0 [] s1 = Some s1" by simp
  with l have "abort_each (Suc 0) (replicate 3 0) s1 = Some (replicate 3 q, s1)" by blast
  then have "abort_each 1 [0, 0, 0] s1 = Some ([1, 1, 1], s1)"
    by (simp add: q numeral_3_eq_3)
  with a q abort_wf_leaf_heap h2 h3 show ?thesis by auto
qed

text \<open>
  Claim C7.  On every heap, \<^verbatim>\<open>aborted()\<close> returns an operation whose promise is
  rejected with the error of severity \<open>CRITICAL\<close>, category \<open>PLAYER\<close> and code
  \<open>OPERATION_ABORTED\<close>, and counts as handled.  A call of \<^verbatim>\<open>abort()\<close> on it
  calls its abort callback, returns a new promise that is fulfilled with
  \<^verbatim>\<open>undefined\<close>, and changes no other promise and not the job queue.
\<close>

theorem aborted_operation:
  "pstate (promises (snd (aborted s)) (promise (ops (snd (aborted s)) (fst (aborted s))))) =
     Rejected (ErrorObj CRITICAL PLAYER OPERATION_ABORTED) \<and>
   handled (promises (snd (aborted s)) (promise (ops (snd (aborted s)) (fst (aborted s))))) \<and>
   (\<exists>q s2. abort (Suc n) (fst (aborted s)) (snd (aborted s)) = Some (q, s2) \<and>
      pstate (promises s2 q) = Fulfilled Undefined \<and>
      new_calls (snd (aborted s)) s2 = [OnAbortCalled (fst (aborted s))] \<and>
      queue s2 = queue (snd (aborted s)) \<and>
      promises s2 = (promises (snd (aborted s)))(q :=
        \<lparr>pstate = Fulfilled Undefined, resolved = True, handled = False, reactions = []\<rparr>))"
  by (rule aborted_effect)

text \<open>
  Claim C5.  On a heap without dangling references, let \<open>b\<close> be the operation that
  \<^verbatim>\<open>a.chain(f)\<close> returns, for an operation \<open>a\<close> that has not been aborted and a
  continuation \<open>f\<close> that throws \<open>boom\<close> at the value \<open>v\<close>.  After any events
  that abort nothing and leave the promise of \<open>b\<close> to the chain, once the promise of
  \<open>a\<close> is fulfilled with \<open>v\<close> and no job is queued, the result of \<open>b\<close> is rejected
  with \<open>boom\<close> itself.  A call of \<^verbatim>\<open>b.abort()\<close> then returns a new promise that
  is already fulfilled with \<^verbatim>\<open>undefined\<close>; it calls the closure of \<open>b\<close> and no
  other abort callback, queues no job and changes no other promise.
\<close>

theorem chain_callback_throws:
  assumes "no_dangling s" and "promise (ops s a) < nextPromise s"
    and "abortPromise (ops s a) = None"
    and "chain_op a (Some f) onE s = (b, s1)"
    and "run n es s1 = Some s3" and "\<forall>e\<in>set es. quiet (nextPromise s) e"
    and "queue s3 = []" and "pstate (promises s3 (promise (ops s a))) = Fulfilled v"
    and "f v = Throw boom"
  shows "pstate (promises s3 (promise (ops s3 b))) = Rejected boom \<and>
         (\<exists>q s4. abort (Suc k) b s3 = Some (q, s4) \<and>
            pstate (promises s4 q) = Fulfilled Undefined \<and>
            new_calls s3 s4 = [OnAbortCalled b] \<and> queue s4 = queue s3 \<and>
            promises s4 = (promises s3)(q :=
              \<lparr>pstate = Fulfilled Undefined, resolved = True, handled = False, reactions = []\<rparr>))"
  using assms by (rule chain_throw_result)

theorem chain_callback_throws_witness:
  "\<exists>s1 s3. no_dangling (snd (completed (Num 1) empty_heap)) \<and>
     chain_op 0 (Some (throwing (Num 7))) None (snd (completed (Num 1) empty_heap)) = (1, s1) \<and>
     run 1 [Microtask, Microtask] s1 = Some s3 \<and> queue s3 = [] \<and>
     pstate (promises s3 0) = Fulfilled (Num 1) \<and>
     pstate (promises s3 (promise (ops s3 1))) = Rejected (Num 7) \<and>
     (\<exists>q s4. abort 1 1 s3 = Some (q, s4) \<and> pstate (promises s4 q) = Fulfilled Undefined \<and>
        new_calls s3 s4 = [OnAbortCalled 1])"
proof -
  let ?s = "snd (completed (Num 1) empty_heap)"
  let ?s1 = "snd (chain_op 0 (Some (throwing (Num 7))) None ?s)"
  have h1: "no_dangling ?s" by (rule completed_no_dangling)
  have h2: "promise (ops ?s 0) < nextPromise ?s" by (simp add: completed_heap)
  have h3: "abortPromise (ops ?s 0) = None" by (simp add: completed_heap)
  have h4: "chain_op 0 (Some (throwing (Num 7))) None ?s = (1, ?s1)"
    by (simp add: prod_eq_iff completed_heap)
  from throwing_run obtain s3 where
    h5: "run 1 [Microtask, Microtask] ?s1 = Some s3" and h7: "queue s3 = []" and
    h8: "pstate (promises s3 (promise (ops ?s 0))) = Fulfilled (Num 1)"
    by (auto simp: completed_heap)
  have h6: "\<forall>e\<in>set [Microtask, Microtask]. quiet (nextPromise ?s) e" by (simp add: quiet_def)
  have h9: "throwing (Num 7) (Num 1) = Throw (Num 7)" by (simp add: throwing_def)
  from chain_callback_throws [OF h1 h2 h3 h4 h5 h6 h7 h8 h9, of 0] h1 h4 h5 h7 h8
  show ?thesis by (auto simp: completed_heap)
qed

text \<open>
  Claim C6.  On a heap without dangling references, the operation that
  \<^verbatim>\<open>notAbortable(p)\<close> returns has the promise \<open>p\<close> itself as its result, and a
  call of \<^verbatim>\<open>abort()\<close> on it returns a promise \<open>d\<close>.  After any events that abort
  nothing more and leave \<open>d\<close> to its handlers, as long as a value that fulfils \<open>p\<close>
  is no promise: \<open>d\<close> is not rejected; \<open>d\<close> is pending while \<open>p\<close> is pending; and
  once \<open>p\<close> is settled, fulfilled or rejected, and no job is queued, \<open>d\<close> is fulfilled.
\<close>

theorem notAbortable_abort_waits:
  assumes "no_dangling s" and "p < nextPromise s"
    and "notAbortable p s = (a, s1)" and "abort (Suc k) a s1 = Some (d, s2)"
    and "run n es s2 = Some s3" and "\<forall>e\<in>set es. quiet d e"
    and "\<forall>v. pstate (promises s3 p) = Fulfilled v \<longrightarrow> \<not> thenable v"
  shows "promise (ops s1 a) = p \<and> promise (ops s3 a) = p \<and>
         (\<forall>e. pstate (promises s3 d) \<noteq> Rejected e) \<and>
         (pstate (promises s3 p) = Pending \<longrightarrow> pstate (promises s3 d) = Pending) \<and>
         (queue s3 = [] \<longrightarrow> pstate (promises s3 p) \<noteq> Pending \<longrightarrow>
            (\<exists>w. pstate (promises s3 d) = Fulfilled w))"
proof -
  have "evolves s1 s2" using assms(4) by (rule abort_evolves)
  moreover have "evolves s2 s3" using assms(5) by (rule evolves_run)
  ultimately have "evolves s1 s3" by (rule evolves_trans)
  then have "promise (ops s3 a) = p"
    using notAbortable_abort(1) [OF assms(3)] by (simp add: evolves_def)
  with notAbortable_outcome [OF assms(1-6)] assms(7) notAbortable_abort(1) [OF assms(3)]
  show ?thesis by auto
qed

theorem notAbortable_abort_waits_witness:
  "\<exists>s2 s3. no_dangling pending_heap \<and> 0 < nextPromise pending_heap \<and>
     notAbortable 0 pending_heap = (0, snd (notAbortable 0 pending_heap)) \<and>
     abort 1 0 (snd (notAbortable 0 pending_heap)) = Some (1, s2) \<and>
     run 1 [Reject 0 (Num 3), Microtask] s2 = Some s3 \<and> queue s3 = [] \<and>
     pstate (promises s3 0) = Rejected (Num 3) \<and>
     (\<exists>w. pstate (promises s3 1) = Fulfilled w)"
proof -
  let ?s1 = "snd (notAbortable 0 pending_heap)"
  have h2: "0 < nextPromise pending_heap" by (simp add: pending_heap)
  have h3: "notAbortable 0 pending_heap = (0, ?s1)"
    by (simp add: prod_eq_iff notAbortable_def pending_heap)
  from notAbortable_run_rejected obtain s2 s3 where
    h4: "abort (Suc 0) 0 ?s1 = Some (1, s2)" and
    h5: "run 1 [Reject 0 (Num 3), Microtask] s2 = Some s3" and
    h8: "queue s3 = []" "pstate (promises s3 0) = Rejected (Num 3)"
    by auto
  have h6: "\<forall>e\<in>set [Reject 0 (Num 3), Microtask]. quiet 1 e" by (simp add: quiet_def)
  have h7: "\<forall>v. pstate (promises s3 0) = Fulfilled v \<longrightarrow> \<not> thenable v" using h8 by simp
  from notAbortable_abort_waits [OF pending_no_dangling h2 h3 h4 h5 h6 h7]
    pending_no_dangling h2 h3 h4 h5 h8
  show ?thesis by auto
qed

text \<open>
  Claim C8.  On a heap without dangling references, let \<open>b\<close> be the operation that
  \<^verbatim>\<open>a.chain(onS, onE)\<close> returns, for an operation \<open>a\<close> that has not been aborted.
  After any events that abort nothing and leave the promise of \<open>b\<close> to the chain, once
  the promise of \<open>a\<close> is fulfilled with \<open>v\<close> and no job is queued: without a success
  continuation the result of \<open>b\<close> is fulfilled with \<open>v\<close>; with a success continuation
  that returns at \<open>v\<close> a value \<open>w\<close> that is neither a promise nor an operation,
  the result of \<open>b\<close> is fulfilled with \<open>w\<close>.
\<close>

theorem chain_success:
  assumes "no_dangling s" and "promise (ops s a) < nextPromise s"
    and "abortPromise (ops s a) = None"
    and "chain_op a onS onE s = (b, s1)"
    and "run n es s1 = Some s3" and "\<forall>e\<in>set es. quiet (nextPromise s) e"
    and "queue s3 = []" and "pstate (promises s3 (promise (ops s a))) = Fulfilled v"
  shows "(onS = None \<longrightarrow> \<not> thenable v \<longrightarrow>
            pstate (promises s3 (promise (ops s3 b))) = Fulfilled v) \<and>
         (\<forall>f w. onS = Some f \<longrightarrow> f v = Return w \<longrightarrow> plain w \<longrightarrow>
            pstate (promises s3 (promise (ops s3 b))) = Fulfilled w)"
  using assms by (rule chain_success_result)

theorem chain_success_witness:
  "\<exists>s1 s3. no_dangling (snd (completed (Num 2) empty_heap)) \<and>
     chain_op 0 (Some double) None (snd (completed (Num 2) empty_heap)) = (1, s1) \<and>
     run 1 [Microtask, Microtask] s1 = Some s3 \<and> queue s3 = [] \<and>
     pstate (promises s3 0) = Fulfilled (Num 2) \<and>
     pstate (promises s3 (promise (ops s3 1))) = Fulfilled (Num 4)"
proof -
  let ?s = "snd (completed (Num 2) empty_heap)"
  let ?s1 = "snd (chain_op 0 (Some double) None ?s)"
  have h1: "no_dangling ?s" by (rule completed_no_dangling)
  have h2: "promise (ops ?s 0) < nextPromise ?s" by (simp add: completed_heap)
  have h3: "abortPromise (ops ?s 0) = None" by (simp add: completed_heap)
  have h4: "chain_op 0 (Some double) None ?s = (1, ?s1)"
    by (simp add: prod_eq_iff completed_heap)
  from double_run obtain s3 where
    h5: "run 1 [Microtask, Microtask] ?s1 = Some s3" and h7: "queue s3 = []" and
    h8: "pstate (promises s3 (promise (ops ?s 0))) = Fulfilled (Num 2)"
    by (auto simp: completed_heap)
  have h6: "\<forall>e\<in>set [Microtask, Microtask]. quiet (nextPromise ?s) e" by (simp add: quiet_def)
  have "double (Num 2) = Return (Num 4)" "plain (Num 4)"
    by (simp_all add: double_def plain_def)
  with chain_success [OF h1 h2 h3 h4 h5 h6 h7 h8]
  have "pstate (promises s3 (promise (ops s3 1))) = Fulfilled (Num 4)" by blast
  with h1 h4 h5 h7 h8 show ?thesis by (auto simp: completed_heap)
qed

text \<open>
  Claim C9.  Let \<open>b\<close> be the operation that \<^verbatim>\<open>a.chain(onS, cb)\<close> returns, with an
  error continuation \<open>cb\<close>, and let \<^verbatim>\<open>b.abort()\<close> be called: either right after
  \<^verbatim>\<open>chain\<close>, or, on a heap without dangling references, after any events that abort
  nothing and leave the result of \<open>b\<close> to the chain, at a moment when the promise of
  \<open>a\<close> is still pending.  After any further events, the success continuation has never
  been called and the result of \<open>b\<close> is rejected with the abort error; and if by then the
  promise of \<open>a\<close> is rejected with \<open>e\<close> and no job is queued, the error continuation
  has been called with \<open>e\<close>: the call is recorded where \<^verbatim>\<open>wrapChainCallback_\<close>
  evaluates \<^verbatim>\<open>callback(value)\<close>.  Since the result of \<open>b\<close> is the abort error, what
  the error continuation returned or threw has no effect on it.
\<close>

theorem chain_error_continuation_runs:
  assumes "promise (ops s a) < nextPromise s"
    and "chain_op a onS (Some cb) s = (b, s1)"
    and "run n es0 s1 = Some s2"
    and "es0 = [] \<or>
         no_dangling s \<and> (\<forall>e\<in>set es0. quiet (nextPromise s) e) \<and>
         pstate (promises s2 (promise (ops s a))) = Pending"
    and "run n (Abort b # es) s2 = Some s3"
  shows "(\<forall>v. CallbackCalled (nextChain s) True v \<notin> set (new_calls s s3)) \<and>
         pstate (promises s3 (promise (ops s3 b))) = Rejected abortError \<and>
         (queue s3 = [] \<longrightarrow>
            (\<forall>e. pstate (promises s3 (promise (ops s a))) = Rejected e \<longrightarrow>
               CallbackCalled (nextChain s) False e \<in> set (new_calls s s3)))"
proof -
  have rn: "run n (es0 @ Abort b # es) s1 = Some s3"
    using assms(3,5) by (simp add: run_append)
  have ab: "(\<forall>v. CallbackCalled (nextChain s) True v \<notin> set (new_calls s s3)) \<and>
         pstate (promises s3 (promise (ops s3 b))) = Rejected abortError"
    using assms(4)
  proof
    assume "es0 = []"
    with assms(3) have "s2 = s1" by simp
    with chain_abort_then [OF assms(2), of n es s3] assms(5) show ?thesis by simp
  next
    assume "no_dangling s \<and> (\<forall>e\<in>set es0. quiet (nextPromise s) e) \<and>
         pstate (promises s2 (promise (ops s a))) = Pending"
    then have h: "no_dangling s" "\<forall>e\<in>set es0. quiet (nextPromise s) e"
      "pstate (promises s2 (promise (ops s a))) = Pending"
      by simp_all
    from chain_abort_later [OF h(1) assms(1,2,3) h(2,3) assms(5)] show ?thesis by simp
  qed
  with chain_error_called [OF assms(1,2) rn] show ?thesis by blast
qed

theorem chain_error_continuation_runs_witness:
  "\<exists>s1 s2 s3. promise (ops leaf_heap 0) < nextPromise leaf_heap \<and>
     chain_op 0 None (Some (throwing (Num 7))) leaf_heap = (1, s1) \<and>
     run 2 [Microtask, Resolve 1 (Num 3)] s1 = Some s2 \<and> no_dangling leaf_heap \<and>
     pstate (promises s2 (promise (ops leaf_heap 0))) = Pending \<and>
     run 2 [Abort 1, Reject 0 (Num 5), Microtask, Microtask] s2 = Some s3 \<and>
     queue s3 = [] \<and> pstate (promises s3 0) = Rejected (Num 5) \<and>
     CallbackCalled 0 False (Num 5) \<in> set (new_calls leaf_heap s3) \<and>
     pstate (promises s3 (promise (ops s3 1))) = Rejected abortError"
proof -
  let ?s1 = "snd (chain_op 0 None (Some (throwing (Num 7))) leaf_heap)"
  have h1: "promise (ops leaf_heap 0) < nextPromise leaf_heap" by (simp add: leaf_heap_simps)
  have h2: "chain_op 0 None (Some (throwing (Num 7))) leaf_heap = (1, ?s1)"
    by (simp add: prod_eq_iff leaf_heap_simps)
  from later_run obtain s2 s3 where
    h3: "run 2 [Microtask, Resolve 1 (Num 3)] ?s1 = Some s2" and
    h4: "pstate (promises s2 (promise (ops leaf_heap 0))) = Pending" and
    h5: "run 2 (Abort 1 # [Reject 0 (Num 5), Microtask, Microtask]) s2 = Some s3" and
    h6: "queue s3 = []" and
    h7: "pstate (promises s3 (promise (ops leaf_heap 0))) = Rejected (Num 5)"
    by (auto simp: leaf_heap_simps)
  have q: "\<forall>e\<in>set [Microtask, Resolve 1 (Num 3)]. quiet (nextPromise leaf_heap) e"
    by (simp add: quiet_def leaf_heap_simps)
  have h8: "[Microtask, Resolve 1 (Num 3)] = [] \<or>
      no_dangling leaf_heap \<and>
      (\<forall>e\<in>set [Microtask, Resolve 1 (Num 3)]. quiet (nextPromise leaf_heap) e) \<and>
      pstate (promises s2 (promise (ops leaf_heap 0))) = Pending"
    using leaf_no_dangling q h4 by blast
  from chain_error_continuation_runs [OF h1 h2 h3 h8 h5] h6 h7
  have "CallbackCalled 0 False (Num 5) \<in> set (new_calls leaf_heap s3)"
    "pstate (promises s3 (promise (ops s3 1))) = Rejected abortError"
    by (auto simp: leaf_heap_simps)
  with h1 h2 h3 h4 h5 h6 h7 leaf_no_dangling show ?thesis by (auto simp: leaf_heap_simps)
qed

text \<open>
  Claim C10.  On a heap without dangling references, let \<open>d\<close> be the promise that
  \<^verbatim>\<open>notAbortable(p).abort()\<close> returns.  After any events that abort nothing more and
  leave \<open>d\<close> to its handlers, once no job is queued: if \<open>p\<close> is fulfilled with a value
  \<open>v\<close> that is no promise, then \<open>d\<close> is fulfilled with \<open>v\<close> itself; if \<open>p\<close> is
  rejected, then \<open>d\<close> is fulfilled with \<^verbatim>\<open>undefined\<close>.
\<close>

theorem notAbortable_abort_value:
  assumes "no_dangling s" and "p < nextPromise s"
    and "notAbortable p s = (a, s1)" and "abort (Suc k) a s1 = Some (d, s2)"
    and "run n es s2 = Some s3" and "\<forall>e\<in>set es. quiet d e"
    and "queue s3 = []"
  shows "(\<forall>v. pstate (promises s3 p) = Fulfilled v \<longrightarrow> \<not> thenable v \<longrightarrow>
            pstate (promises s3 d) = Fulfilled v) \<and>
         (\<forall>e. pstate (promises s3 p) = Rejected e \<longrightarrow>
            pstate (promises s3 d) = Fulfilled Undefined)"
  using notAbortable_outcome [OF assms(1-6)] assms(7) by auto

theorem notAbortable_abort_value_witness:
  "\<exists>s2 s3. no_dangling pending_heap \<and> 0 < nextPromise pending_heap \<and>
     notAbortable 0 pending_heap = (0, snd (notAbortable 0 pending_heap)) \<and>
     abort 1 0 (snd (notAbortable 0 pending_heap)) = Some (1, s2) \<and>
     run 1 [Resolve 0 (Num 3), Microtask] s2 = Some s3 \<and> queue s3 = [] \<and>
     pstate (promises s3 0) = Fulfilled (Num 3) \<and>
     pstate (promises s3 1) = Fulfilled (Num 3)"
proof -
  let ?s1 = "snd (notAbortable 0 pending_heap)"
  have h2: "0 < nextPromise pending_heap" by (simp add: pending_heap)
  have h3: "notAbortable 0 pending_heap = (0, ?s1)"
    by (simp add: prod_eq_iff notAbortable_def pending_heap)
  from notAbortable_run obtain s2 s3 where
    h4: "abort (Suc 0) 0 ?s1 = Some (1, s2)" and
    h5: "run 1 [Resolve 0 (Num 3), Microtask] s2 = Some s3" and
    h8: "queue s3 = []" "pstate (promises s3 0) = Fulfilled (Num 3)"
    by auto
  have h6: "\<forall>e\<in>set [Resolve 0 (Num 3), Microtask]. quiet 1 e" by (simp add: quiet_def)
  have "\<not> thenable (Num 3)" by (simp add: thenable_def)
  with notAbortable_abort_value [OF pending_no_dangling h2 h3 h4 h5 h6 h8(1)] h8(2)
  have "pstate (promises s3 1) = Fulfilled (Num 3)" by blast
  with pending_no_dangling h2 h3 h4 h5 h8 show ?thesis by auto
qed

text \<open>
  Claim C4.  Let \<open>b\<close> be the operation that \<^verbatim>\<open>all(os)\<close> returns, for any list \<open>os\<close>
  of operations of a heap without dangling references, in which the promises returned by
  abort callbacks exist.

  The result.  Along events that abort nothing and leave the result of \<open>b\<close> to the
  aggregate: once no job is queued and every member is fulfilled, the result is fulfilled
  with the list of the members' values, in the order of \<open>os\<close>.  Once no job is queued
  and some member is rejected, the result is rejected with the reason of a rejected
  member; and it is the first failure that counts: if, at a moment when no job is queued,
  the failed members all have the reason \<open>e\<close>, then the result is rejected with \<open>e\<close>
  from then on, whatever members fail later.  While no member is rejected and some
  member is pending, the result is pending.

  Aborting.  A call of \<^verbatim>\<open>b.abort()\<close> right after \<^verbatim>\<open>all\<close> returns when the abort
  callbacks of the heap are well-founded.  When it has returned \<open>q\<close>, every member has
  an abort promise, its cleanup, so \<^verbatim>\<open>abort()\<close> has been called on it, and \<open>q\<close> is
  the abort promise of \<open>b\<close>.  Along events that abort nothing more and leave \<open>q\<close> to
  its aggregate: once no job is queued and every cleanup is fulfilled, \<open>q\<close> is
  fulfilled; while no cleanup is rejected and some cleanup is pending, \<open>q\<close> is pending.
\<close>

theorem all_aggregates:
  assumes "no_dangling s" and "abort_scoped s"
    and "\<forall>a\<in>set os. a < nextOp s \<and> promise (ops s a) < nextPromise s"
    and "all_op os s = (b, s1)"
    and "run n es s1 = Some s2" and "run n es' s2 = Some s3"
    and "\<forall>e\<in>set es \<union> set es'. quiet (promise (ops s1 b)) e"
    and "abort k b s1 = Some (q, t2)" and "run m fs t2 = Some t3"
    and "\<forall>e\<in>set fs. quiet q e"
  shows
   "(queue s3 = [] \<longrightarrow>
       (\<forall>a\<in>set os. \<exists>v. pstate (promises s3 (promise (ops s a))) = Fulfilled v) \<longrightarrow>
       pstate (promises s3 (promise (ops s3 b))) =
         Fulfilled (Array (map (\<lambda>a. outcome_value (pstate (promises s3 (promise (ops s a))))) os))) \<and>
    (queue s3 = [] \<longrightarrow>
       (\<exists>a\<in>set os. \<exists>e. pstate (promises s3 (promise (ops s a))) = Rejected e) \<longrightarrow>
       (\<exists>a\<in>set os. \<exists>e. pstate (promises s3 (promise (ops s a))) = Rejected e \<and>
          pstate (promises s3 (promise (ops s3 b))) = Rejected e)) \<and>
    (\<forall>e. queue s2 = [] \<longrightarrow>
       (\<exists>a\<in>set os. pstate (promises s2 (promise (ops s a))) = Rejected e) \<longrightarrow>
       (\<forall>a\<in>set os. \<forall>e'. pstate (promises s2 (promise (ops s a))) = Rejected e' \<longrightarrow> e' = e) \<longrightarrow>
       pstate (promises s3 (promise (ops s3 b))) = Rejected e) \<and>
    ((\<forall>a\<in>set os. \<forall>e. pstate (promises s3 (promise (ops s a))) \<noteq> Rejected e) \<longrightarrow>
       (\<exists>a\<in>set os. pstate (promises s3 (promise (ops s a))) = Pending) \<longrightarrow>
       pstate (promises s3 (promise (ops s3 b))) = Pending) \<and>
    (\<forall>rk. abort_wf rk s \<longrightarrow> (\<exists>k' q' t'. abort k' b s1 = Some (q', t'))) \<and>
    (\<forall>a\<in>set os. abortPromise (ops t2 a) \<noteq> None) \<and> abortPromise (ops t2 b) = Some q \<and>
    (queue t3 = [] \<longrightarrow>
       (\<forall>a\<in>set os. \<exists>v. pstate (promises t3 (the (abortPromise (ops t2 a)))) = Fulfilled v) \<longrightarrow>
       (\<exists>vs. pstate (promises t3 q) = Fulfilled (Array vs))) \<and>
    ((\<forall>a\<in>set os. \<forall>e. pstate (promises t3 (the (abortPromise (ops t2 a)))) \<noteq> Rejected e) \<longrightarrow>
       (\<exists>a\<in>set os. pstate (promises t3 (the (abortPromise (ops t2 a)))) = Pending) \<longrightarrow>
       pstate (promises t3 q) = Pending)"
proof -
  have mem1: "\<forall>a\<in>set os. promise (ops s a) < nextPromise s"
    and mem2: "\<forall>a\<in>set os. a < nextOp s"
    using assms(3) by simp_all
  have r: "promise (ops s1 b) = nextPromise s"
    using assms(4) by (auto simp: prod_eq_iff all_op_simps)
  have qu: "\<forall>e\<in>set es \<union> set es'. quiet (nextPromise s) e" using assms(7) r by simp
  note res = all_op_result [OF assms(1) mem1 assms(4,5,6) qu]
  note ab = all_op_abort [OF assms(1,2) mem2 assms(4,8)]
  let ?cs = "map (\<lambda>a. the (abortPromise (ops t2 a))) os"
  from ab(2) obtain a ds where "all_inv a ?cs ds q {} {} t2" by blast
  from all_inv_run [OF assms(9,10) this] obtain F E where i3: "all_inv a ?cs ds q F E t3"
    by blast
  have c1: "\<exists>vs. pstate (promises t3 q) = Fulfilled (Array vs)"
    if "queue t3 = []"
      "\<forall>a\<in>set os. \<exists>v. pstate (promises t3 (the (abortPromise (ops t2 a)))) = Fulfilled v"
  proof -
    from that(2) have "\<forall>p\<in>set ?cs. \<exists>v. pstate (promises t3 p) = Fulfilled v" by simp
    from all_inv_fulfilled [OF i3 that(1) this] show ?thesis by blast
  qed
  have c2: "pstate (promises t3 q) = Pending"
    if "\<forall>a\<in>set os. \<forall>e. pstate (promises t3 (the (abortPromise (ops t2 a)))) \<noteq> Rejected e"
      "\<exists>a\<in>set os. pstate (promises t3 (the (abortPromise (ops t2 a)))) = Pending"
  proof -
    from that have "\<forall>p\<in>set ?cs. \<forall>e. pstate (promises t3 p) \<noteq> Rejected e"
      "\<exists>p\<in>set ?cs. pstate (promises t3 p) = Pending"
      by simp_all
    from all_inv_pending [OF i3 this] show ?thesis .
  qed
  have c0: "\<exists>k' q' t'. abort k' b s1 = Some (q', t')" if "abort_wf rk s" for rk
    using that mem2 assms(4) by (rule all_op_abort_returns)
  show ?thesis
    unfolding res(1)
    by (intro conjI impI allI res(2,3,4,5) ab(1,3) c0 c1 c2) assumption+
qed

theorem all_aggregates_witness:
  "\<exists>s1 s2 k q t2. no_dangling pair_heap \<and> abort_scoped pair_heap \<and>
     all_op [0, 1] pair_heap = (2, s1) \<and>
     run 0 [Microtask, Microtask] s1 = Some s2 \<and> run 0 [] s2 = Some s2 \<and> queue s2 = [] \<and>
     pstate (promises s2 (promise (ops pair_heap 0))) = Fulfilled (Num 1) \<and>
     pstate (promises s2 (promise (ops pair_heap 1))) = Rejected (Num 9) \<and>
     abort k 2 s1 = Some (q, t2) \<and> run 0 [] t2 = Some t2 \<and>
     pstate (promises s2 (promise (ops s2 2))) = Rejected (Num 9) \<and>
     abortPromise (ops t2 0) \<noteq> None \<and> abortPromise (ops t2 1) \<noteq> None \<and>
     abortPromise (ops t2 2) = Some q"
proof -
  let ?s1 = "snd (all_op [0, 1] pair_heap)"
  have h3: "\<forall>a\<in>set [0, 1]. a < nextOp pair_heap \<and> promise (ops pair_heap a) < nextPromise pair_heap"
    by (simp add: pair_heap_simps)
  have h4: "all_op [0, 1] pair_heap = (2, ?s1)"
    by (simp add: prod_eq_iff all_op_simps pair_heap_simps)
  from pair_run obtain s2 where
    h5: "run 0 [Microtask, Microtask] ?s1 = Some s2" and qe: "queue s2 = []" and
    m0: "pstate (promises s2 (promise (ops pair_heap 0))) = Fulfilled (Num 1)" and
    m1: "pstate (promises s2 (promise (ops pair_heap 1))) = Rejected (Num 9)"
    by (auto simp: pair_heap_simps)
  have h6: "run 0 [] s2 = Some s2" by simp
  have h7: "\<forall>e\<in>set [Microtask, Microtask] \<union> set []. quiet (promise (ops ?s1 2)) e"
    by (simp add: quiet_def)
  from all_op_abort_returns [OF pair_wf _ h4] obtain k q t2 where
    h8: "abort k 2 ?s1 = Some (q, t2)"
    by (auto simp: pair_heap_simps)
  have h9: "run 0 [] t2 = Some t2" by simp
  have h10: "\<forall>e\<in>set []. quiet q e" by simp
  note c = all_aggregates [OF pair_no_dangling pair_scoped h3 h4 h5 h6 h7 h8 h9 h10]
  have ex: "\<exists>a\<in>set [0, 1]. pstate (promises s2 (promise (ops pair_heap a))) = Rejected (Num 9)"
    using m1 by simp
  have un: "\<forall>a\<in>set [0, 1]. \<forall>e'. pstate (promises s2 (promise (ops pair_heap a))) = Rejected e' \<longrightarrow>
      e' = Num 9"
    using m0 m1 by simp
  from c qe ex un have r: "pstate (promises s2 (promise (ops s2 2))) = Rejected (Num 9)"
    by blast
  from c have a: "abortPromise (ops t2 0) \<noteq> None" "abortPromise (ops t2 1) \<noteq> None"
    "abortPromise (ops t2 2) = Some q"
    by simp_all
  from pair_no_dangling pair_scoped h4 h5 h6 qe m0 m1 h8 h9 r a show ?thesis by blast
qed

end
